(* ===== verification/Xv6_Prelude.thy ===== *)
theory Xv6_Prelude
  imports Main "HOL-Library.Word"
begin

text \<open>
  Shared vocabulary of the development: machine integer types, the outcome of a kernel
  function (a value, or one of the ways a C function of the kernel does not return), the
  sequencing of such functions, and the first-fit table scan that most tables of the
  kernel are searched with.
\<close>

unbundle bit_operations_syntax

type_synonym u8 = "8 word"
type_synonym u16 = "16 word"
type_synonym u32 = "32 word"
type_synonym u64 = "64 word"

named_theorems outcome_simps \<open>case analysis of sequenced kernel functions\<close>
named_theorems scan_simps \<open>what a first-fit scan finds\<close>

section \<open>Outcomes\<close>

text \<open>
  A C function of the kernel returns a value, or stops for good in one of four ways:
  \<open>Panic\<close> is a call of panic() with its message, \<open>Blocked\<close> is a sleep() or a spin that
  only another process, hart or device can end, \<open>Diverged\<close> is a loop that never ends,
  \<open>Undef\<close> is C undefined behaviour (an access out of the bounds of an object).
\<close>

datatype failure = Panic string | Blocked | Diverged | Undef

datatype 'a outcome = Ret 'a | Fail failure

primrec obind :: "'a outcome \<Rightarrow> ('a \<Rightarrow> 'b outcome) \<Rightarrow> 'b outcome" where
  "obind (Ret x) f = f x"
| "obind (Fail e) f = Fail e"

primrec returns :: "'a outcome \<Rightarrow> bool" where
  "returns (Ret x) = True"
| "returns (Fail e) = False"

abbreviation opanic :: "string \<Rightarrow> 'a outcome" where
  "opanic msg \<equiv> Fail (Panic msg)"

lemma obind_eq_Ret [outcome_simps]:
  "obind m f = Ret y \<longleftrightarrow> (\<exists>x. m = Ret x \<and> f x = Ret y)"
  by (cases m) auto

lemma obind_eq_Fail [outcome_simps]:
  "obind m f = Fail e \<longleftrightarrow> m = Fail e \<or> (\<exists>x. m = Ret x \<and> f x = Fail e)"
  by (cases m) auto

lemma obind_assoc: "obind (obind m f) g = obind m (\<lambda>x. obind (f x) g)"
  by (cases m) auto

lemma obind_Ret_right [simp]: "obind m Ret = m"
  by (cases m) auto

lemma obind_cong [fundef_cong]:
  "m = m' \<Longrightarrow> (\<And>x. m' = Ret x \<Longrightarrow> f x = f' x) \<Longrightarrow> obind m f = obind m' f'"
  by (cases m') auto

lemma returns_iff: "returns m \<longleftrightarrow> (\<exists>x. m = Ret x)"
  by (cases m) auto

lemma if_outcome_Ret [outcome_simps]:
  "(if b then Fail e else m) = Ret x \<longleftrightarrow> \<not> b \<and> m = Ret x"
  "(if b then m else Fail e) = Ret x \<longleftrightarrow> b \<and> m = Ret x"
  by auto

text \<open>A loop over the elements of a list, left early by the first failure.\<close>

primrec ofold :: "('a \<Rightarrow> 's \<Rightarrow> 's outcome) \<Rightarrow> 'a list \<Rightarrow> 's \<Rightarrow> 's outcome" where
  "ofold f [] s = Ret s"
| "ofold f (x # xs) s = obind (f x s) (ofold f xs)"

lemma ofold_append: "ofold f (xs @ ys) s = obind (ofold f xs s) (ofold f ys)"
proof (induction xs arbitrary: s)
  case (Cons x xs)
  from Cons.IH have "ofold f (xs @ ys) = (\<lambda>s. obind (ofold f xs s) (ofold f ys))" by (rule ext)
  then show ?case by (simp add: obind_assoc)
qed simp

lemma ofold_inv:
  assumes "ofold f xs s = Ret s'" and "P s"
    and "\<And>x s s'. x \<in> set xs \<Longrightarrow> P s \<Longrightarrow> f x s = Ret s' \<Longrightarrow> P s'"
  shows "P s'"
  using assms by (induction xs arbitrary: s) (auto simp: obind_eq_Ret)

section \<open>First-fit scans\<close>

text \<open>
  \<open>scan P i n\<close> is the loop \<open>for(; i < n; i++) if(P(i)) return i;\<close> followed by the
  not-found exit.
\<close>

function scan :: "(nat \<Rightarrow> bool) \<Rightarrow> nat \<Rightarrow> nat \<Rightarrow> nat option" where
  "scan P i n = (if i < n then (if P i then Some i else scan P (Suc i) n) else None)"
  by pat_completeness auto
termination
  by (relation "measure (\<lambda>(P, i, n). n - i)") auto

declare scan.simps [simp del]

lemma scan_SomeD:
  "scan P i n = Some k \<Longrightarrow> i \<le> k \<and> k < n \<and> P k \<and> (\<forall>j. i \<le> j \<and> j < k \<longrightarrow> \<not> P j)"
proof (induction P i n rule: scan.induct)
  case (1 P i n)
  show ?case
  proof (cases "i < n \<and> \<not> P i")
    case True
    then have "scan P (Suc i) n = Some k"
      using "1.prems" by (simp add: scan.simps [of P i n])
    with True "1.IH" have "Suc i \<le> k \<and> k < n \<and> P k \<and> (\<forall>j. Suc i \<le> j \<and> j < k \<longrightarrow> \<not> P j)"
      by blast
    with True show ?thesis by (metis Suc_leD Suc_leI le_neq_implies_less)
  next
    case False
    with "1.prems" show ?thesis by (auto simp: scan.simps [of P i n] split: if_splits)
  qed
qed

lemma scan_None_iff [scan_simps]: "scan P i n = None \<longleftrightarrow> (\<forall>j. i \<le> j \<and> j < n \<longrightarrow> \<not> P j)"
proof (induction P i n rule: scan.induct)
  case (1 P i n)
  show ?case
  proof (cases "i < n \<and> \<not> P i")
    case True
    then show ?thesis using 1
      by (simp add: scan.simps [of P i n]) (metis Suc_leD Suc_leI le_neq_implies_less)
  next
    case False
    then show ?thesis by (auto simp: scan.simps [of P i n])
  qed
qed

lemma scan_Some_iff [scan_simps]:
  "scan P i n = Some k \<longleftrightarrow> i \<le> k \<and> k < n \<and> P k \<and> (\<forall>j. i \<le> j \<and> j < k \<longrightarrow> \<not> P j)"
proof
  assume k: "i \<le> k \<and> k < n \<and> P k \<and> (\<forall>j. i \<le> j \<and> j < k \<longrightarrow> \<not> P j)"
  then have "scan P i n \<noteq> None" by (auto simp: scan_None_iff)
  then obtain k' where k': "scan P i n = Some k'" by blast
  with scan_SomeD [OF k'] k have "k' = k" by (metis linorder_neqE_nat)
  with k' show "scan P i n = Some k" by simp
qed (rule scan_SomeD)

lemma scan_cong:
  assumes "\<And>j. i \<le> j \<Longrightarrow> j < n \<Longrightarrow> P j = Q j"
  shows "scan P i n = scan Q i n"
proof (cases "scan Q i n")
  case None
  with assms have "scan P i n = None" by (simp add: scan_None_iff)
  with None show ?thesis by simp
next
  case (Some k)
  with assms have "scan P i n = Some k" by (simp add: scan_Some_iff)
  with Some show ?thesis by simp
qed

end
