(* ===== verification/Xv6_Bytes.thy ===== *)
theory Xv6_Bytes
  imports Xv6_Prelude
begin

text \<open>
  Byte-addressed storage: a RAM, a disk block or a user image is a function from offsets
  to bytes. The C code reads and writes 16, 32 and 64-bit little-endian integers in it;
  the lemmas say that a load sees the last overlapping store and no other.
\<close>

type_synonym bytes = "nat \<Rightarrow> u8"

named_theorems mem_simps \<open>loads after stores\<close>

definition load16 :: "bytes \<Rightarrow> nat \<Rightarrow> u16" where
  "load16 m a = ucast (m a) OR push_bit 8 (ucast (m (a + 1)))"

definition store16 :: "bytes \<Rightarrow> nat \<Rightarrow> u16 \<Rightarrow> bytes" where
  "store16 m a w = m(a := ucast w, a + 1 := ucast (drop_bit 8 w))"

definition load32 :: "bytes \<Rightarrow> nat \<Rightarrow> u32" where
  "load32 m a = ucast (m a) OR push_bit 8 (ucast (m (a + 1)))
     OR push_bit 16 (ucast (m (a + 2))) OR push_bit 24 (ucast (m (a + 3)))"

definition store32 :: "bytes \<Rightarrow> nat \<Rightarrow> u32 \<Rightarrow> bytes" where
  "store32 m a w = m(a := ucast w, a + 1 := ucast (drop_bit 8 w),
     a + 2 := ucast (drop_bit 16 w), a + 3 := ucast (drop_bit 24 w))"

definition load64 :: "bytes \<Rightarrow> nat \<Rightarrow> u64" where
  "load64 m a = ucast (load32 m a) OR push_bit 32 (ucast (load32 m (a + 4)))"

definition store64 :: "bytes \<Rightarrow> nat \<Rightarrow> u64 \<Rightarrow> bytes" where
  "store64 m a w = store32 (store32 m a (ucast w)) (a + 4) (ucast (drop_bit 32 w))"

section \<open>A load sees the store\<close>

lemma load16_store16 [mem_simps, simp]: "load16 (store16 m a w) a = w"
proof (rule bit_word_eqI)
  fix n assume "n < LENGTH(16)"
  then have "n < 8 \<or> 8 \<le> n \<and> n < 16" by auto
  then show "bit (load16 (store16 m a w) a) n \<longleftrightarrow> bit w n"
    by (auto simp: load16_def store16_def bit_simps)
qed

lemma load32_store32 [mem_simps, simp]: "load32 (store32 m a w) a = w"
proof (rule bit_word_eqI)
  fix n assume "n < LENGTH(32)"
  then have "n < 8 \<or> 8 \<le> n \<and> n < 16 \<or> 16 \<le> n \<and> n < 24 \<or> 24 \<le> n \<and> n < 32" by auto
  then show "bit (load32 (store32 m a w) a) n \<longleftrightarrow> bit w n"
    by (auto simp: load32_def store32_def bit_simps)
qed

lemma load16_cong: "(\<And>k. k < 2 \<Longrightarrow> m (a + k) = m' (a' + k)) \<Longrightarrow> load16 m a = load16 m' a'"
proof -
  assume h: "\<And>k. k < 2 \<Longrightarrow> m (a + k) = m' (a' + k)"
  from h [of 0] h [of 1] show ?thesis by (simp add: load16_def)
qed

lemma load32_cong: "(\<And>k. k < 4 \<Longrightarrow> m (a + k) = m' (a' + k)) \<Longrightarrow> load32 m a = load32 m' a'"
proof -
  assume h: "\<And>k. k < 4 \<Longrightarrow> m (a + k) = m' (a' + k)"
  from h [of 0] h [of 1] h [of 2] h [of 3] show ?thesis by (simp add: load32_def)
qed

lemma load64_cong: "(\<And>k. k < 8 \<Longrightarrow> m (a + k) = m' (a' + k)) \<Longrightarrow> load64 m a = load64 m' a'"
proof -
  assume h: "\<And>k. k < 8 \<Longrightarrow> m (a + k) = m' (a' + k)"
  have "load32 m a = load32 m' a'" by (rule load32_cong) (simp add: h)
  moreover have "load32 m (a + 4) = load32 m' (a' + 4)"
    by (rule load32_cong) (use h in \<open>simp add: add.assoc\<close>)
  ultimately show ?thesis by (simp add: load64_def)
qed

lemma store16_other [mem_simps]: "b < a \<or> a + 2 \<le> b \<Longrightarrow> store16 m a w b = m b"
  by (auto simp: store16_def)

lemma store32_other [mem_simps]: "b < a \<or> a + 4 \<le> b \<Longrightarrow> store32 m a w b = m b"
  by (auto simp: store32_def)

lemma store64_other [mem_simps]: "b < a \<or> a + 8 \<le> b \<Longrightarrow> store64 m a w b = m b"
  by (auto simp: store64_def store32_def)

lemma load16_store16_other [mem_simps]:
  "b + 2 \<le> a \<or> a + 2 \<le> b \<Longrightarrow> load16 (store16 m a w) b = load16 m b"
  by (rule load16_cong) (auto simp: store16_other)

lemma load32_store32_other [mem_simps]:
  "b + 4 \<le> a \<or> a + 4 \<le> b \<Longrightarrow> load32 (store32 m a w) b = load32 m b"
  by (rule load32_cong) (auto simp: store32_other)

lemma load64_store64_other [mem_simps]:
  "b + 8 \<le> a \<or> a + 8 \<le> b \<Longrightarrow> load64 (store64 m a w) b = load64 m b"
  by (rule load64_cong) (auto simp: store64_other)

lemma load16_store32_other [mem_simps]:
  "b + 2 \<le> a \<or> a + 4 \<le> b \<Longrightarrow> load16 (store32 m a w) b = load16 m b"
  by (rule load16_cong) (auto simp: store32_other)

lemma load32_store16_other [mem_simps]:
  "b + 4 \<le> a \<or> a + 2 \<le> b \<Longrightarrow> load32 (store16 m a w) b = load32 m b"
  by (rule load32_cong) (auto simp: store16_other)

lemma load64_store64 [mem_simps, simp]: "load64 (store64 m a w) a = w"
proof (rule bit_word_eqI)
  fix n assume "n < LENGTH(64)"
  then have "n < 32 \<or> 32 \<le> n \<and> n < 64" by auto
  then show "bit (load64 (store64 m a w) a) n \<longleftrightarrow> bit w n"
    by (auto simp: load64_def store64_def load32_store32_other bit_simps)
qed

lemma load32_zero: "(\<And>k. k < 4 \<Longrightarrow> m (a + k) = 0) \<Longrightarrow> load32 m a = 0"
proof -
  assume h: "\<And>k. k < 4 \<Longrightarrow> m (a + k) = 0"
  from h [of 0] h [of 1] h [of 2] h [of 3] show ?thesis by (simp add: load32_def)
qed

lemma load64_zero: "(\<And>k. k < 8 \<Longrightarrow> m (a + k) = 0) \<Longrightarrow> load64 m a = 0"
  by (simp add: load64_def load32_zero add.assoc)

section \<open>Copying and filling ranges\<close>

text \<open>The effect of a block copy and of a fill, as functions of the whole memory.\<close>

definition copy_range :: "bytes \<Rightarrow> nat \<Rightarrow> bytes \<Rightarrow> nat \<Rightarrow> nat \<Rightarrow> bytes" where
  "copy_range m d m' s n = (\<lambda>a. if d \<le> a \<and> a < d + n then m' (s + (a - d)) else m a)"

definition fill_range :: "bytes \<Rightarrow> nat \<Rightarrow> u8 \<Rightarrow> nat \<Rightarrow> bytes" where
  "fill_range m d c n = (\<lambda>a. if d \<le> a \<and> a < d + n then c else m a)"

definition read_range :: "bytes \<Rightarrow> nat \<Rightarrow> nat \<Rightarrow> u8 list" where
  "read_range m a n = map (\<lambda>i. m (a + i)) [0..<n]"

lemma copy_range_0 [simp]: "copy_range m d m' s 0 = m"
  by (rule ext) (auto simp: copy_range_def)

lemma fill_range_0 [simp]: "fill_range m d c 0 = m"
  by (rule ext) (auto simp: fill_range_def)

lemma copy_range_in: "d \<le> a \<Longrightarrow> a < d + n \<Longrightarrow> copy_range m d m' s n a = m' (s + (a - d))"
  by (simp add: copy_range_def)

lemma copy_range_out: "a < d \<or> d + n \<le> a \<Longrightarrow> copy_range m d m' s n a = m a"
  by (auto simp: copy_range_def)

lemma fill_range_in: "d \<le> a \<Longrightarrow> a < d + n \<Longrightarrow> fill_range m d c n a = c"
  by (simp add: fill_range_def)

lemma fill_range_out: "a < d \<or> d + n \<le> a \<Longrightarrow> fill_range m d c n a = m a"
  by (auto simp: fill_range_def)

lemma length_read_range [simp]: "length (read_range m a n) = n"
  by (simp add: read_range_def)

lemma nth_read_range [simp]: "i < n \<Longrightarrow> read_range m a n ! i = m (a + i)"
  by (simp add: read_range_def)

lemma read_range_cong:
  "(\<And>i. i < n \<Longrightarrow> m (a + i) = m' (a' + i)) \<Longrightarrow> read_range m a n = read_range m' a' n"
  by (simp add: read_range_def)

lemma read_range_append: "read_range m a (n + k) = read_range m a n @ read_range m (a + n) k"
  by (auto simp: list_eq_iff_nth_eq nth_append)

end
