(* ===== verification/Xv6_String.thy ===== *)
theory Xv6_String
  imports Xv6_Bytes
begin

text \<open>
  The memory and string routines of kernel/string.c and user/ulib.c over byte-addressed
  memory. A pointer is an offset, a \<open>uint\<close> count is a natural number, an \<open>int\<close> count is an
  integer (a count that is not positive copies nothing). The loops are the loops of the
  source: \<open>n-- > 0\<close> is recursion on the count.
\<close>

section \<open>kernel/string.c\<close>

function memset_loop :: "nat \<Rightarrow> nat \<Rightarrow> nat \<Rightarrow> u8 \<Rightarrow> bytes \<Rightarrow> bytes" where
  "memset_loop i n dst c m =
     (if i < n then memset_loop (Suc i) n dst c (m(dst + i := c)) else m)"
  by pat_completeness auto
termination
  by (relation "measure (\<lambda>(i, n, dst, c, m). n - i)") auto

declare memset_loop.simps [simp del]

definition memset :: "nat \<Rightarrow> u32 \<Rightarrow> nat \<Rightarrow> bytes \<Rightarrow> bytes" where
  "memset dst c n m = memset_loop 0 n dst (ucast c) m"

text \<open>The result of a comparison is the difference of the first two unequal bytes.\<close>

definition byte_diff :: "u8 \<Rightarrow> u8 \<Rightarrow> int" where
  "byte_diff a b = int (unat a) - int (unat b)"

fun memcmp :: "bytes \<Rightarrow> nat \<Rightarrow> nat \<Rightarrow> nat \<Rightarrow> int" where
  "memcmp m s1 s2 0 = 0"
| "memcmp m s1 s2 (Suc n) =
     (if m s1 \<noteq> m s2 then byte_diff (m s1) (m s2) else memcmp m (s1 + 1) (s2 + 1) n)"

fun copy_up :: "nat \<Rightarrow> nat \<Rightarrow> nat \<Rightarrow> bytes \<Rightarrow> bytes" where
  "copy_up d s 0 m = m"
| "copy_up d s (Suc n) m = copy_up (d + 1) (s + 1) n (m(d := m s))"

fun copy_down :: "nat \<Rightarrow> nat \<Rightarrow> nat \<Rightarrow> bytes \<Rightarrow> bytes" where
  "copy_down d s 0 m = m"
| "copy_down d s (Suc n) m = copy_down (d - 1) (s - 1) n (m(d - 1 := m (s - 1)))"

definition memmove :: "nat \<Rightarrow> nat \<Rightarrow> nat \<Rightarrow> bytes \<Rightarrow> bytes" where
  "memmove dst src n m =
     (if n = 0 then m
      else if src < dst \<and> src + n > dst then copy_down (dst + n) (src + n) n m
      else copy_up dst src n m)"

definition memcpy :: "nat \<Rightarrow> nat \<Rightarrow> nat \<Rightarrow> bytes \<Rightarrow> bytes" where
  "memcpy dst src n m = memmove dst src n m"

fun strncmp :: "bytes \<Rightarrow> nat \<Rightarrow> nat \<Rightarrow> nat \<Rightarrow> int" where
  "strncmp m p q 0 = 0"
| "strncmp m p q (Suc n) =
     (if m p \<noteq> 0 \<and> m p = m q then strncmp m (p + 1) (q + 1) n else byte_diff (m p) (m q))"

text \<open>
  The first loop of strncpy: the memory, the position in the destination and the count that
  is left when it stops (an exhausted count is 0 here and -1 in C; either way nothing is padded).
\<close>

fun strncpy_copy :: "nat \<Rightarrow> nat \<Rightarrow> nat \<Rightarrow> bytes \<Rightarrow> bytes \<times> nat \<times> nat" where
  "strncpy_copy s t 0 m = (m, s, 0)"
| "strncpy_copy s t (Suc n) m =
     (let m' = m(s := m t) in
      if m t \<noteq> 0 then strncpy_copy (s + 1) (t + 1) n m' else (m', s + 1, n))"

fun strncpy_pad :: "nat \<Rightarrow> nat \<Rightarrow> bytes \<Rightarrow> bytes" where
  "strncpy_pad s 0 m = m"
| "strncpy_pad s (Suc n) m = strncpy_pad (s + 1) n (m(s := 0))"

definition strncpy :: "nat \<Rightarrow> nat \<Rightarrow> int \<Rightarrow> bytes \<Rightarrow> bytes" where
  "strncpy s t n m =
     (let (m', s', n') = strncpy_copy s t (nat n) m in strncpy_pad s' n' m')"

text \<open>The loop of safestrcpy runs while \<open>--n > 0\<close>, so at most \<open>n - 1\<close> times.\<close>

fun safestrcpy_loop :: "nat \<Rightarrow> nat \<Rightarrow> nat \<Rightarrow> bytes \<Rightarrow> bytes \<times> nat" where
  "safestrcpy_loop s t 0 m = (m, s)"
| "safestrcpy_loop s t (Suc k) m =
     (let m' = m(s := m t) in
      if m t \<noteq> 0 then safestrcpy_loop (s + 1) (t + 1) k m' else (m', s + 1))"

definition safestrcpy :: "nat \<Rightarrow> nat \<Rightarrow> int \<Rightarrow> bytes \<Rightarrow> bytes" where
  "safestrcpy s t n m =
     (if n \<le> 0 then m
      else let (m', s') = safestrcpy_loop s t (nat (n - 1)) m in m'(s' := 0))"

text \<open>strlen does not return on a memory without a zero byte: then its value is \<open>None\<close>.\<close>

partial_function (option) strlen_loop :: "bytes \<Rightarrow> nat \<Rightarrow> nat \<Rightarrow> nat option" where
  "strlen_loop m s n = (if m (s + n) = 0 then Some n else strlen_loop m s (Suc n))"

definition strlen :: "bytes \<Rightarrow> nat \<Rightarrow> nat option" where
  "strlen m s = strlen_loop m s 0"

section \<open>user/ulib.c\<close>

definition ulib_memmove :: "nat \<Rightarrow> nat \<Rightarrow> int \<Rightarrow> bytes \<Rightarrow> bytes" where
  "ulib_memmove vdst vsrc n m =
     (if vsrc > vdst then copy_up vdst vsrc (nat n) m
      else copy_down (nat (int vdst + n)) (nat (int vsrc + n)) (nat n) m)"

partial_function (option) strcpy :: "nat \<Rightarrow> nat \<Rightarrow> bytes \<Rightarrow> bytes option" where
  "strcpy s t m = (if m t \<noteq> 0 then strcpy (s + 1) (t + 1) (m(s := m t)) else Some (m(s := 0)))"

partial_function (option) strcmp :: "bytes \<Rightarrow> nat \<Rightarrow> nat \<Rightarrow> int option" where
  "strcmp m p q = (if m p \<noteq> 0 \<and> m p = m q then strcmp m (p + 1) (q + 1)
     else Some (byte_diff (m p) (m q)))"

text \<open>The result of strchr is the address of the byte, or \<open>None\<close> for the null pointer.\<close>

partial_function (option) strchr :: "bytes \<Rightarrow> nat \<Rightarrow> u8 \<Rightarrow> nat option option" where
  "strchr m s c = (if m s \<noteq> 0 then (if m s = c then Some (Some s) else strchr m (s + 1) c)
     else Some None)"

text \<open>atoi accumulates in a 32-bit int, which wraps; it stops at the first non-digit.\<close>

partial_function (option) atoi_loop :: "bytes \<Rightarrow> nat \<Rightarrow> u32 \<Rightarrow> u32 option" where
  "atoi_loop m s n = (if 48 \<le> m s \<and> m s \<le> 57
     then atoi_loop m (s + 1) (n * 10 + ucast (m s) - 48) else Some n)"

definition atoi :: "bytes \<Rightarrow> nat \<Rightarrow> u32 option" where
  "atoi m s = atoi_loop m s 0"

section \<open>Filling and copying\<close>

lemma memset_loop_eq:
  "i \<le> n \<Longrightarrow> memset_loop i n dst c m = fill_range m (dst + i) c (n - i)"
proof (induction i n dst c m rule: memset_loop.induct)
  case (1 i n dst c m)
  show ?case
  proof (cases "i < n")
    case True
    with 1 have "memset_loop i n dst c m = fill_range (m(dst + i := c)) (dst + Suc i) c (n - Suc i)"
      by (simp add: memset_loop.simps [of i] fun_upd_def)
    also have "\<dots> = fill_range m (dst + i) c (n - i)"
      using True by (intro ext) (auto simp: fill_range_def)
    finally show ?thesis .
  next
    case False
    then have "memset_loop i n dst c m = m" by (simp add: memset_loop.simps [of i])
    with 1 False show ?thesis by simp
  qed
qed

lemma memset_eq: "memset dst c n m = fill_range m dst (ucast c) n"
  by (simp add: memset_def memset_loop_eq)

lemma copy_up_eq: "d \<le> s \<or> s + n \<le> d \<Longrightarrow> copy_up d s n m = copy_range m d m s n"
proof (induction n arbitrary: d s m)
  case (Suc n)
  then have "copy_up d s (Suc n) m = copy_range (m(d := m s)) (d + 1) (m(d := m s)) (s + 1) n"
    by (auto simp: fun_upd_def)
  also have "\<dots> = copy_range m d m s (Suc n)"
  proof
    fix a
    have "s + 1 + (a - (d + 1)) = s + (a - d)" if "d + 1 \<le> a" using that by auto
    then show "copy_range (m(d := m s)) (d + 1) (m(d := m s)) (s + 1) n a
        = copy_range m d m s (Suc n) a"
      using Suc.prems unfolding copy_range_def by auto
  qed
  finally show ?case .
qed simp

lemma copy_down_eq:
  "n \<le> s \<Longrightarrow> s \<le> d \<Longrightarrow> copy_down d s n m = copy_range m (d - n) m (s - n) n"
proof (induction n arbitrary: d s m)
  case (Suc n)
  then have "copy_down d s (Suc n) m
      = copy_range (m(d - 1 := m (s - 1))) (d - 1 - n) (m(d - 1 := m (s - 1))) (s - 1 - n) n"
    by (simp add: fun_upd_def)
  also have "\<dots> = copy_range m (d - Suc n) m (s - Suc n) (Suc n)"
  proof
    fix a
    have eq: "d - 1 - n = d - Suc n" "s - 1 - n = s - Suc n" by auto
    have last: "s - Suc n + (d - 1 - (d - Suc n)) = s - 1" if "d \<ge> Suc n"
      using Suc.prems that by auto
    show "copy_range (m(d - 1 := m (s - 1))) (d - 1 - n) (m(d - 1 := m (s - 1))) (s - 1 - n) n a
        = copy_range m (d - Suc n) m (s - Suc n) (Suc n) a"
      using Suc.prems last unfolding eq by (auto simp: copy_range_def)
  qed
  finally show ?case .
qed simp

text \<open>C1. memmove copies the bytes the source had before the call, overlapping or not.\<close>

theorem memmove_correct:
  "memmove dst src n m = (\<lambda>a. if dst \<le> a \<and> a < dst + n then m (src + (a - dst)) else m a)"
proof -
  have "memmove dst src n m = copy_range m dst m src n"
    using copy_up_eq [of dst src n m] copy_down_eq [of n "src + n" "dst + n" m]
  by (auto simp: memmove_def)
  then show ?thesis by (simp add: copy_range_def)
qed

lemma memmove_eq: "memmove dst src n m = copy_range m dst m src n"
  using copy_up_eq [of dst src n m] copy_down_eq [of n "src + n" "dst + n" m]
  by (auto simp: memmove_def)

lemma ulib_memmove_eq: "0 \<le> n \<Longrightarrow> ulib_memmove d s n m = memmove d s (nat n) m"
  unfolding memmove_eq
  by (auto simp: ulib_memmove_def copy_up_eq copy_down_eq nat_add_distrib)

section \<open>Strings\<close>

text \<open>\<open>cstr m s k\<close>: the first zero byte at or after \<open>s\<close> is at \<open>s + k\<close>.\<close>

definition cstr :: "bytes \<Rightarrow> nat \<Rightarrow> nat \<Rightarrow> bool" where
  "cstr m s k \<longleftrightarrow> m (s + k) = 0 \<and> (\<forall>i<k. m (s + i) \<noteq> 0)"

lemma strlen_loop_cstr:
  "m (s + k) = 0 \<Longrightarrow> (\<forall>i. n \<le> i \<and> i < k \<longrightarrow> m (s + i) \<noteq> 0) \<Longrightarrow> n \<le> k \<Longrightarrow>
     strlen_loop m s n = Some k"
proof (induction "k - n" arbitrary: n)
  case 0
  then show ?case by (simp add: strlen_loop.simps [of m s n])
next
  case (Suc d)
  then have "strlen_loop m s (Suc n) = Some k" by simp
  moreover from Suc have "m (s + n) \<noteq> 0" by simp
  ultimately show ?case by (simp add: strlen_loop.simps [of m s n])
qed

lemma strlen_loop_sound:
  assumes "strlen_loop m s n = Some k"
  shows "m (s + k) = 0 \<and> n \<le> k \<and> (\<forall>i. n \<le> i \<and> i < k \<longrightarrow> m (s + i) \<noteq> 0)"
proof (rule strlen_loop.raw_induct [where
    P = "\<lambda>m s n k. m (s + k) = 0 \<and> n \<le> k \<and> (\<forall>i. n \<le> i \<and> i < k \<longrightarrow> m (s + i) \<noteq> 0)", OF _ assms])
  fix f m s n k
  assume IH: "\<And>m s n k. f m s n = Some k \<Longrightarrow>
      m (s + k) = 0 \<and> n \<le> k \<and> (\<forall>i. n \<le> i \<and> i < k \<longrightarrow> m (s + i) \<noteq> 0)"
    and eq: "(if m (s + n) = 0 then Some n else f m s (Suc n)) = Some k"
  show "m (s + k) = 0 \<and> n \<le> k \<and> (\<forall>i. n \<le> i \<and> i < k \<longrightarrow> m (s + i) \<noteq> 0)"
  proof (cases "m (s + n) = 0")
    case False
    with eq IH [of m s "Suc n" k] show ?thesis
      by (auto simp: Suc_le_eq) (metis le_neq_implies_less)
  qed (use eq in auto)
qed

lemma strlen_iff: "strlen m s = Some k \<longleftrightarrow> cstr m s k"
  unfolding strlen_def cstr_def
  by (rule iffI) (use strlen_loop_sound [of m s 0 k] in simp, use strlen_loop_cstr [of m s k 0] in simp)

lemma strncpy_pad_eq: "strncpy_pad s n m = fill_range m s 0 n"
proof (induction n arbitrary: s m)
  case (Suc n)
  then have "strncpy_pad s (Suc n) m = fill_range (m(s := 0)) (s + 1) 0 n"
    by (simp add: fun_upd_def)
  also have "\<dots> = fill_range m s 0 (Suc n)" by (intro ext) (auto simp: fill_range_def)
  finally show ?case .
qed simp

text \<open>
  What strncpy leaves at offset \<open>i\<close> of its destination: the source byte while no zero byte
  came before it, zero afterwards.
\<close>

definition padded :: "bytes \<Rightarrow> nat \<Rightarrow> nat \<Rightarrow> u8" where
  "padded m t i = (if \<forall>j<i. m (t + j) \<noteq> 0 then m (t + i) else 0)"

lemma padded_0 [simp]: "padded m t 0 = m t"
  by (simp add: padded_def)

lemma padded_Suc: "padded m t (Suc i) = (if m t = 0 then 0 else padded m (t + 1) i)"
  by (auto simp: padded_def less_Suc_eq_0_disj)

lemma padded_cong:
  "(\<And>j. j \<le> i \<Longrightarrow> m (t + j) = m' (t + j)) \<Longrightarrow> padded m t i = padded m' t i"
  by (auto simp: padded_def)

lemma strncpy_nat:
  "s + n \<le> t \<or> t + n \<le> s \<Longrightarrow>
   (let (m', s', n') = strncpy_copy s t n m in strncpy_pad s' n' m') a
     = (if s \<le> a \<and> a < s + n then padded m t (a - s) else m a)"
proof (induction n arbitrary: s t m)
  case (Suc n)
  let ?m = "m(s := m t)"
  show ?case
  proof (cases "m t = 0")
    case True
    have "padded m t (a - s) = 0" if "s \<le> a"
      using True by (cases "a - s") (auto simp: padded_Suc)
    with True show ?thesis by (auto simp: strncpy_pad_eq fill_range_def)
  next
    case False
    have "s + 1 + n \<le> t + 1 \<or> t + 1 + n \<le> s + 1" using Suc.prems by auto
    from Suc.IH [OF this, of ?m] False
    have "(let (m', s', n') = strncpy_copy s t (Suc n) m in strncpy_pad s' n' m') a
       = (if s + 1 \<le> a \<and> a < s + 1 + n then padded ?m (t + 1) (a - (s + 1)) else ?m a)"
      by (simp add: Let_def fun_upd_def)
    also have "\<dots> = (if s \<le> a \<and> a < s + Suc n then padded m t (a - s) else m a)"
    proof (cases "s + 1 \<le> a \<and> a < s + 1 + n")
      case True
      then have "a - s = Suc (a - (s + 1))" by auto
      moreover have "padded ?m (t + 1) (a - (s + 1)) = padded m (t + 1) (a - (s + 1))"
        using Suc.prems True by (intro padded_cong) auto
      ultimately show ?thesis using True False by (auto simp: padded_Suc)
    qed auto
    finally show ?thesis .
  qed
qed auto

lemma strncpy_spec:
  assumes "0 \<le> n" and "s + nat n \<le> t \<or> t + nat n \<le> s"
  shows "strncpy s t n m a
     = (if s \<le> a \<and> a < s + nat n then padded m t (a - s) else m a)"
  using strncpy_nat [OF assms(2)] by (simp add: strncpy_def)

end
