(* ===== verification/Xv6_Param.thy ===== *)
theory Xv6_Param
  imports Xv6_Prelude
begin

text \<open>
  The sizes and limits of kernel/param.h, kernel/fs.h, kernel/riscv.h and kernel/memlayout.h,
  under the names of the source. They are abbreviations, so a proof sees the number.
\<close>

section \<open>kernel/param.h\<close>

abbreviation NPROC :: nat where "NPROC \<equiv> 64"
abbreviation NCPU :: nat where "NCPU \<equiv> 8"
abbreviation NOFILE :: nat where "NOFILE \<equiv> 16"
abbreviation NFILE :: nat where "NFILE \<equiv> 100"
abbreviation NINODE :: nat where "NINODE \<equiv> 50"
abbreviation NDEV :: int where "NDEV \<equiv> 10"
abbreviation ROOTDEV :: u32 where "ROOTDEV \<equiv> 1"
abbreviation MAXARG :: nat where "MAXARG \<equiv> 32"
abbreviation MAXOPBLOCKS :: int where "MAXOPBLOCKS \<equiv> 10"
abbreviation LOGSIZE :: int where "LOGSIZE \<equiv> 30"
abbreviation NBUF :: nat where "NBUF \<equiv> 30"
abbreviation FSSIZE :: nat where "FSSIZE \<equiv> 2000"
abbreviation MAXPATH :: nat where "MAXPATH \<equiv> 128"

section \<open>kernel/fs.h\<close>

abbreviation ROOTINO :: u32 where "ROOTINO \<equiv> 1"
abbreviation BSIZE :: nat where "BSIZE \<equiv> 1024"
abbreviation FSMAGIC :: u32 where "FSMAGIC \<equiv> 0x10203040"
abbreviation NDIRECT :: nat where "NDIRECT \<equiv> 12"
abbreviation NINDIRECT :: nat where "NINDIRECT \<equiv> 256"
abbreviation MAXFILE :: nat where "MAXFILE \<equiv> 268"
abbreviation IPB :: nat where "IPB \<equiv> 16"
abbreviation BPB :: nat where "BPB \<equiv> 8192"
abbreviation DIRSIZ :: nat where "DIRSIZ \<equiv> 14"

section \<open>kernel/riscv.h and kernel/memlayout.h\<close>

abbreviation PGSIZE :: nat where "PGSIZE \<equiv> 4096"
abbreviation KERNBASE :: nat where "KERNBASE \<equiv> 0x80000000"
abbreviation PHYSTOP :: nat where "PHYSTOP \<equiv> 0x88000000"

end
