(* ===== verification/Xv6_BlockCache.thy ===== *)
theory Xv6_BlockCache
  imports Xv6_Bytes Xv6_Param
begin

text \<open>
  The contract between the buffer cache (kernel/bio.c) and its clients, the log and the file
  system. An abstract cache state says what each block reads as, what is on the disk, the blocks
  written so far in order, how many references each block's buffer has, and which block each
  buffer held by a process caches. The locale states what each operation does to it and proves
  the access patterns of the clients once.
\<close>

record cache_abs =
  a_view :: "u32 \<Rightarrow> bytes"
  a_disk :: "u32 \<Rightarrow> bytes"
  a_writes :: "(u32 \<times> bytes) list"
  a_pins :: "u32 \<Rightarrow> nat"
  a_held :: "nat \<Rightarrow> u32 option"

text \<open>A block can be read when nobody holds it and it is cached or some buffer is free.\<close>

definition room :: "cache_abs \<Rightarrow> u32 \<Rightarrow> bool" where
  "room a b \<longleftrightarrow> b \<notin> ran (a_held a) \<and> (a_pins a b > 0 \<or> card {c. a_pins a c > 0} < NBUF)
     \<and> a_pins a b < 1000"

text \<open>A reference can be dropped when it is not the last one or the block is not dirty.\<close>

definition droppable :: "cache_abs \<Rightarrow> u32 \<Rightarrow> bool" where
  "droppable a b \<longleftrightarrow> a_pins a b > 1 \<or> a_view a b = a_disk a b"

definition hold :: "nat \<Rightarrow> u32 \<Rightarrow> cache_abs \<Rightarrow> cache_abs" where
  "hold i b a = a\<lparr>a_pins := (a_pins a)(b := a_pins a b + 1), a_held := (a_held a)(i \<mapsto> b)\<rparr>"

definition unhold :: "nat \<Rightarrow> u32 \<Rightarrow> cache_abs \<Rightarrow> cache_abs" where
  "unhold i b a = a\<lparr>a_pins := (a_pins a)(b := a_pins a b - 1), a_held := (a_held a)(i := None)\<rparr>"

definition see :: "u32 \<Rightarrow> bytes \<Rightarrow> cache_abs \<Rightarrow> cache_abs" where
  "see b x a = a\<lparr>a_view := (a_view a)(b := x)\<rparr>"

definition flush :: "u32 \<Rightarrow> cache_abs \<Rightarrow> cache_abs" where
  "flush b a = a\<lparr>a_disk := (a_disk a)(b := a_view a b),
     a_writes := a_writes a @ [(b, a_view a b)]\<rparr>"

definition pin :: "u32 \<Rightarrow> cache_abs \<Rightarrow> cache_abs" where
  "pin b a = a\<lparr>a_pins := (a_pins a)(b := a_pins a b + 1)\<rparr>"

definition unpin :: "u32 \<Rightarrow> cache_abs \<Rightarrow> cache_abs" where
  "unpin b a = a\<lparr>a_pins := (a_pins a)(b := a_pins a b - 1)\<rparr>"

lemmas abs_ops = hold_def unhold_def see_def flush_def pin_def unpin_def

lemma hold_sel [simp]:
  "a_view (hold i b a) = a_view a" "a_disk (hold i b a) = a_disk a"
  "a_writes (hold i b a) = a_writes a"
  "a_pins (hold i b a) = (a_pins a)(b := a_pins a b + 1)"
  "a_held (hold i b a) = (a_held a)(i \<mapsto> b)"
  by (simp_all add: hold_def)

lemma unhold_sel [simp]:
  "a_view (unhold i b a) = a_view a" "a_disk (unhold i b a) = a_disk a"
  "a_writes (unhold i b a) = a_writes a"
  "a_pins (unhold i b a) = (a_pins a)(b := a_pins a b - 1)"
  "a_held (unhold i b a) = (a_held a)(i := None)"
  by (simp_all add: unhold_def)

lemma see_sel [simp]:
  "a_view (see b x a) = (a_view a)(b := x)" "a_disk (see b x a) = a_disk a"
  "a_writes (see b x a) = a_writes a" "a_pins (see b x a) = a_pins a"
  "a_held (see b x a) = a_held a"
  by (simp_all add: see_def)

lemma flush_sel [simp]:
  "a_view (flush b a) = a_view a" "a_disk (flush b a) = (a_disk a)(b := a_view a b)"
  "a_writes (flush b a) = a_writes a @ [(b, a_view a b)]" "a_pins (flush b a) = a_pins a"
  "a_held (flush b a) = a_held a"
  by (simp_all add: flush_def)

lemma pin_sel [simp]:
  "a_view (pin b a) = a_view a" "a_disk (pin b a) = a_disk a"
  "a_writes (pin b a) = a_writes a" "a_pins (pin b a) = (a_pins a)(b := a_pins a b + 1)"
  "a_held (pin b a) = a_held a"
  by (simp_all add: pin_def)

lemma unpin_sel [simp]:
  "a_view (unpin b a) = a_view a" "a_disk (unpin b a) = a_disk a"
  "a_writes (unpin b a) = a_writes a" "a_pins (unpin b a) = (a_pins a)(b := a_pins a b - 1)"
  "a_held (unpin b a) = a_held a"
  by (simp_all add: unpin_def)

locale block_cache =
  fixes read_blk :: "u32 \<Rightarrow> 's \<Rightarrow> (nat \<times> 's) outcome"
    and write_blk :: "nat \<Rightarrow> 's \<Rightarrow> 's outcome"
    and release_blk :: "nat \<Rightarrow> 's \<Rightarrow> 's outcome"
    and pin_blk :: "nat \<Rightarrow> 's \<Rightarrow> 's"
    and unpin_blk :: "nat \<Rightarrow> 's \<Rightarrow> 's"
    and get :: "nat \<Rightarrow> 's \<Rightarrow> bytes"
    and put :: "nat \<Rightarrow> bytes \<Rightarrow> 's \<Rightarrow> 's"
    and inv :: "'s \<Rightarrow> bool"
    and abs :: "'s \<Rightarrow> cache_abs"
  assumes read_law: "inv s \<Longrightarrow> room (abs s) b \<Longrightarrow>
      \<exists>i s'. read_blk b s = Ret (i, s') \<and> inv s' \<and> a_held (abs s) i = None \<and> abs s' = hold i b (abs s)"
    and write_law: "inv s \<Longrightarrow> a_held (abs s) i = Some b \<Longrightarrow>
      \<exists>s'. write_blk i s = Ret s' \<and> inv s' \<and> abs s' = flush b (abs s)"
    and release_law: "inv s \<Longrightarrow> a_held (abs s) i = Some b \<Longrightarrow> droppable (abs s) b \<Longrightarrow>
      \<exists>s'. release_blk i s = Ret s' \<and> inv s' \<and> abs s' = unhold i b (abs s)"
    and pin_law: "inv s \<Longrightarrow> a_held (abs s) i = Some b \<Longrightarrow> a_pins (abs s) b < 1000 \<Longrightarrow>
      inv (pin_blk i s) \<and> abs (pin_blk i s) = pin b (abs s)"
    and unpin_law: "inv s \<Longrightarrow> a_held (abs s) i = Some b \<Longrightarrow> a_pins (abs s) b > 1 \<Longrightarrow>
      inv (unpin_blk i s) \<and> abs (unpin_blk i s) = unpin b (abs s)"
    and get_law: "inv s \<Longrightarrow> a_held (abs s) i = Some b \<Longrightarrow> get i s = a_view (abs s) b"
    and put_law: "inv s \<Longrightarrow> a_held (abs s) i = Some b \<Longrightarrow>
      inv (put i x s) \<and> abs (put i x s) = see b x (abs s)"
    and held_inj: "inv s \<Longrightarrow> a_held (abs s) i = Some b \<Longrightarrow> a_held (abs s) j = Some b \<Longrightarrow> i = j"
begin

lemma held_upd_None [simp]: "h i = None \<Longrightarrow> h(i := None) = h"
  by (rule fun_upd_idem)

lemma unhold_hold [simp]:
  "a_held a i = None \<Longrightarrow> unhold i b (hold i b a) = a"
  by (simp add: abs_ops)

text \<open>Reading a block and releasing it changes nothing.\<close>

lemma read_release:
  assumes "inv s" and "room (abs s) b" and "a_pins (abs s) b > 0 \<or> a_view (abs s) b = a_disk (abs s) b"
  obtains i s1 s2 where "read_blk b s = Ret (i, s1)" and "get i s1 = a_view (abs s) b"
    and "release_blk i s1 = Ret s2" and "inv s2" and "abs s2 = abs s"
proof -
  obtain i s1 where r: "read_blk b s = Ret (i, s1)" "inv s1" "a_held (abs s) i = None"
      "abs s1 = hold i b (abs s)"
    using read_law [OF assms(1,2)] by blast
  have h: "a_held (abs s1) i = Some b" using r by simp
  have "droppable (abs s1) b" using assms(3) r by (auto simp: droppable_def)
  then obtain s2 where "release_blk i s1 = Ret s2" "inv s2" "abs s2 = unhold i b (abs s1)"
    using release_law [OF r(2) h] by blast
  with r get_law [OF r(2) h] show ?thesis by (intro that [of i s1 s2]) auto
qed

text \<open>Reading a block, replacing its contents, writing it through and releasing it.\<close>

lemma read_put_write_release:
  assumes "inv s" and "room (abs s) b"
  obtains i s1 where "read_blk b s = Ret (i, s1)" and "get i s1 = a_view (abs s) b"
    and "\<And>x. \<exists>s2 s3. write_blk i (put i x s1) = Ret s2 \<and> release_blk i s2 = Ret s3 \<and>
        inv s3 \<and> abs s3 = flush b (see b x (abs s))"
proof -
  obtain i s1 where r: "read_blk b s = Ret (i, s1)" "inv s1" "a_held (abs s) i = None"
      "abs s1 = hold i b (abs s)"
    using read_law [OF assms] by blast
  have h: "a_held (abs s1) i = Some b" using r by simp
  have "\<exists>s2 s3. write_blk i (put i x s1) = Ret s2 \<and> release_blk i s2 = Ret s3 \<and>
        inv s3 \<and> abs s3 = flush b (see b x (abs s))" for x
  proof -
    have p: "inv (put i x s1)" "abs (put i x s1) = see b x (abs s1)"
      using put_law [OF r(2) h] by auto
    then have hp: "a_held (abs (put i x s1)) i = Some b" using h by simp
    obtain s2 where w: "write_blk i (put i x s1) = Ret s2" "inv s2"
        "abs s2 = flush b (abs (put i x s1))"
      using write_law [OF p(1) hp] by blast
    have hw: "a_held (abs s2) i = Some b" using w hp by simp
    have "droppable (abs s2) b" using w by (simp add: droppable_def)
    then obtain s3 where "release_blk i s2 = Ret s3" "inv s3" "abs s3 = unhold i b (abs s2)"
      using release_law [OF w(2) hw] by blast
    with w p r show ?thesis by (auto simp: abs_ops)
  qed
  with r get_law [OF r(2) h] show ?thesis by (intro that [of i s1]) auto
qed

text \<open>Two different blocks held at once, as a block copy needs.\<close>

lemma read_two:
  assumes "inv s" and "room (abs s) a" and "a \<noteq> b" and "\<And>i. room (hold i a (abs s)) b \<or> a_held (abs s) i \<noteq> None"
  obtains i s1 j s2 where "read_blk a s = Ret (i, s1)" and "read_blk b s1 = Ret (j, s2)"
    and "i \<noteq> j" and "a_held (abs s) i = None" and "a_held (abs s) j = None" and "inv s2"
    and "abs s2 = hold j b (hold i a (abs s))"
proof -
  obtain i s1 where r: "read_blk a s = Ret (i, s1)" "inv s1" "a_held (abs s) i = None"
      "abs s1 = hold i a (abs s)"
    using read_law [OF assms(1,2)] by blast
  with assms(4) [of i] have "room (abs s1) b" by auto
  then obtain j s2 where t: "read_blk b s1 = Ret (j, s2)" "inv s2" "a_held (abs s1) j = None"
      "abs s2 = hold j b (abs s1)"
    using read_law [OF r(2)] by blast
  have "i \<noteq> j" "a_held (abs s) j = None" using t(3) r by (auto split: if_splits)
  with r t show ?thesis by (intro that [of i s1 j s2]) auto
qed

end

end
