(* ===== verification/Xv6_Sleeplock.thy ===== *)
theory Xv6_Sleeplock
  imports Xv6_Prelude
begin

text \<open>
  The long-term locks of kernel/sleeplock.c. The spinlock \<open>lk->lk\<close> only makes each of the
  three operations one atomic step; the value of the calling process's pid is an argument.
  A caller that finds the lock taken sleeps until the holder's wakeup(), which is the
  outcome \<open>Blocked\<close>.
\<close>

record sleeplock =
  sl_locked :: bool
  sl_pid :: int

definition initsleeplock :: sleeplock where
  "initsleeplock = \<lparr>sl_locked = False, sl_pid = 0\<rparr>"

definition acquiresleep :: "int \<Rightarrow> sleeplock \<Rightarrow> sleeplock outcome" where
  "acquiresleep pid lk =
     (if sl_locked lk then Fail Blocked else Ret (lk\<lparr>sl_locked := True, sl_pid := pid\<rparr>))"

definition releasesleep :: "sleeplock \<Rightarrow> sleeplock" where
  "releasesleep lk = lk\<lparr>sl_locked := False, sl_pid := 0\<rparr>"

definition holdingsleep :: "int \<Rightarrow> sleeplock \<Rightarrow> bool" where
  "holdingsleep pid lk \<longleftrightarrow> sl_locked lk \<and> sl_pid lk = pid"

lemma acquiresleep_free [simp]:
  "\<not> sl_locked lk \<Longrightarrow> acquiresleep pid lk = Ret (lk\<lparr>sl_locked := True, sl_pid := pid\<rparr>)"
  by (simp add: acquiresleep_def)

lemma acquiresleep_Ret [outcome_simps]:
  "acquiresleep pid lk = Ret lk' \<longleftrightarrow> \<not> sl_locked lk \<and> lk' = lk\<lparr>sl_locked := True, sl_pid := pid\<rparr>"
  by (auto simp: acquiresleep_def)

lemma holding_after_acquire:
  "acquiresleep pid lk = Ret lk' \<Longrightarrow> holdingsleep pid lk'"
  by (auto simp: outcome_simps holdingsleep_def)

lemma not_holding_after_release [simp]: "\<not> holdingsleep pid (releasesleep lk)"
  by (simp add: holdingsleep_def releasesleep_def)

lemma release_then_acquire [simp]: "returns (acquiresleep pid (releasesleep lk))"
  by (simp add: releasesleep_def)

end
