(* ===== verification/Xv6_Links.thy ===== *)
theory Xv6_Links
  imports Xv6_Prelude
begin

text \<open>
  Circular doubly linked lists through a sentinel, as the buffer cache keeps them: nodes are
  numbers, \<open>nx\<close> and \<open>pv\<close> are the next and prev fields. \<open>dll nx pv h xs\<close> says that following
  next from the sentinel \<open>h\<close> visits exactly \<open>xs\<close> and comes back, and that prev is its inverse.
  The lemmas relate the pointer operations of the source to operations on the list \<open>xs\<close>.
\<close>

primrec chain :: "(nat \<Rightarrow> nat) \<Rightarrow> (nat \<Rightarrow> nat) \<Rightarrow> nat \<Rightarrow> nat list \<Rightarrow> nat \<Rightarrow> bool" where
  "chain nx pv a [] z \<longleftrightarrow> nx a = z \<and> pv z = a"
| "chain nx pv a (x # xs) z \<longleftrightarrow> nx a = x \<and> pv x = a \<and> chain nx pv x xs z"

definition dll :: "(nat \<Rightarrow> nat) \<Rightarrow> (nat \<Rightarrow> nat) \<Rightarrow> nat \<Rightarrow> nat list \<Rightarrow> bool" where
  "dll nx pv h xs \<longleftrightarrow> chain nx pv h xs h \<and> distinct (h # xs)"

lemma chain_append:
  "chain nx pv a (xs @ y # ys) z \<longleftrightarrow> chain nx pv a xs y \<and> chain nx pv y ys z"
  by (induction xs arbitrary: a) auto

lemma chain_rev: "chain nx pv a xs z \<Longrightarrow> chain pv nx z (rev xs) a"
  by (induction xs arbitrary: a) (auto simp: chain_append)

lemma dll_rev: "dll nx pv h xs \<Longrightarrow> dll pv nx h (rev xs)"
  by (auto simp: dll_def dest: chain_rev)

lemma chain_cong:
  "(\<And>x. x \<in> set (a # xs) \<Longrightarrow> nx x = nx' x) \<Longrightarrow> (\<And>x. x \<in> set (z # xs) \<Longrightarrow> pv x = pv' x) \<Longrightarrow>
     chain nx pv a xs z = chain nx' pv' a xs z"
  by (induction xs arbitrary: a) auto

section \<open>Walking the list\<close>

text \<open>
  The loop \<open>for(b = lnk(head); b != head; b = lnk(b)) if(P(b)) return b;\<close>. The fuel bounds the
  number of nodes visited; a list that does not come back to the sentinel exhausts it.
\<close>

fun link_scan :: "(nat \<Rightarrow> nat) \<Rightarrow> (nat \<Rightarrow> bool) \<Rightarrow> nat \<Rightarrow> nat \<Rightarrow> nat \<Rightarrow> nat option outcome" where
  "link_scan lnk P h 0 b = Fail Diverged"
| "link_scan lnk P h (Suc fuel) b =
     (if b = h then Ret None
      else if P b then Ret (Some b)
      else link_scan lnk P h fuel (lnk b))"

lemma link_scan_chain:
  "chain nx pv a xs h \<Longrightarrow> h \<notin> set xs \<Longrightarrow> length xs < fuel \<Longrightarrow>
     link_scan nx P h fuel (nx a) = Ret (find P xs)"
proof (induction xs arbitrary: a fuel)
  case Nil
  then show ?case by (cases fuel) auto
next
  case (Cons x xs)
  then obtain f where f: "fuel = Suc f" "length xs < f" by (cases fuel) auto
  have "link_scan nx P h f (nx x) = Ret (find P xs)"
    using Cons.prems f by (intro Cons.IH) auto
  with Cons.prems f show ?case by auto
qed

lemma link_scan_dll:
  "dll nx pv h xs \<Longrightarrow> length xs < fuel \<Longrightarrow> link_scan nx P h fuel (nx h) = Ret (find P xs)"
  by (auto simp: dll_def intro: link_scan_chain)

lemma link_scan_dll_back:
  assumes "dll nx pv h xs" and "length xs < fuel"
  shows "link_scan pv P h fuel (pv h) = Ret (find P (rev xs))"
  using link_scan_dll [OF dll_rev [OF assms(1)]] assms(2) by simp

lemma find_in: "find P xs = Some x \<Longrightarrow> x \<in> set xs \<and> P x"
  by (auto simp: find_Some_iff)

section \<open>Relinking\<close>

text \<open>\<open>b->next->prev = b->prev; b->prev->next = b->next;\<close>\<close>

definition unlink_next :: "(nat \<Rightarrow> nat) \<Rightarrow> (nat \<Rightarrow> nat) \<Rightarrow> nat \<Rightarrow> nat \<Rightarrow> nat" where
  "unlink_next nx pv b = (let pv' = pv(nx b := pv b) in nx(pv' b := nx b))"

definition unlink_prev :: "(nat \<Rightarrow> nat) \<Rightarrow> (nat \<Rightarrow> nat) \<Rightarrow> nat \<Rightarrow> nat \<Rightarrow> nat" where
  "unlink_prev nx pv b = pv(nx b := pv b)"

text \<open>\<open>b->next = head.next; b->prev = &head; head.next->prev = b; head.next = b;\<close>\<close>

definition push_next :: "(nat \<Rightarrow> nat) \<Rightarrow> nat \<Rightarrow> nat \<Rightarrow> nat \<Rightarrow> nat" where
  "push_next nx h b = (nx(b := nx h))(h := b)"

definition push_prev :: "(nat \<Rightarrow> nat) \<Rightarrow> (nat \<Rightarrow> nat) \<Rightarrow> nat \<Rightarrow> nat \<Rightarrow> nat \<Rightarrow> nat" where
  "push_prev nx pv h b = (pv(b := h))((nx(b := nx h)) h := b)"

lemma dll_unlink:
  assumes "dll nx pv h (xs @ b # ys)"
  shows "dll (unlink_next nx pv b) (unlink_prev nx pv b) h (xs @ ys)"
proof -
  define p where "p = last (h # xs)"
  define n where "n = hd (ys @ [h])"
  have c: "chain nx pv h xs b" "chain nx pv b ys h" and d: "distinct (h # xs @ b # ys)"
    using assms by (auto simp: dll_def chain_append)
  have pb: "pv b = p"
  proof (cases xs rule: rev_cases)
    case (snoc zs z)
    with c(1) show ?thesis by (simp add: p_def chain_append)
  qed (use c(1) in \<open>simp add: p_def\<close>)
  have nb: "nx b = n"
    using c(2) by (cases ys) (auto simp: n_def)
  have p: "p \<in> set (h # xs)" by (simp add: p_def)
  have n: "n \<in> set (h # ys)" by (cases ys) (auto simp: n_def)
  have bn: "b \<noteq> n" "b \<noteq> p" using d p n by auto
  have eqs: "unlink_next nx pv b = nx(p := n)" "unlink_prev nx pv b = pv(n := p)"
    using bn by (simp_all add: unlink_next_def unlink_prev_def pb nb)
  have left: "chain (nx(p := n)) (pv(n := p)) h xs n" if "chain nx pv h xs b"
  proof (cases xs rule: rev_cases)
    case Nil
    then show ?thesis by (simp add: p_def)
  next
    case (snoc zs z)
    then have pz: "p = z" by (simp add: p_def)
    have "chain nx pv h zs z" using that snoc by (simp add: chain_append)
    moreover have "chain (nx(p := n)) (pv(n := p)) h zs z = chain nx pv h zs z"
      using d n snoc pz by (intro chain_cong) auto
    ultimately show ?thesis using snoc pz by (simp add: chain_append)
  qed
  show ?thesis
  proof (cases ys)
    case Nil
    then have "n = h" by (simp add: n_def)
    with left [OF c(1)] Nil d show ?thesis by (simp add: dll_def eqs)
  next
    case (Cons y ys')
    then have ny: "n = y" by (simp add: n_def)
    have "chain nx pv y ys' h" using c(2) Cons by simp
    moreover have "chain (nx(p := n)) (pv(n := p)) y ys' h = chain nx pv y ys' h"
      using d p Cons ny by (intro chain_cong) auto
    ultimately show ?thesis using left [OF c(1)] Cons ny d by (simp add: dll_def eqs chain_append)
  qed
qed

lemma dll_push:
  assumes "dll nx pv h xs" and "b \<notin> set (h # xs)"
  shows "dll (push_next nx h b) (push_prev nx pv h b) h (b # xs)"
proof (cases xs)
  case Nil
  with assms show ?thesis by (auto simp: dll_def push_next_def push_prev_def)
next
  case (Cons x xs')
  have "chain (push_next nx h b) (push_prev nx pv h b) x xs' h = chain nx pv x xs' h"
    using assms Cons by (intro chain_cong) (auto simp: dll_def push_next_def push_prev_def)
  with assms Cons show ?thesis by (auto simp: dll_def push_next_def push_prev_def)
qed

lemma dll_distinct: "dll nx pv h xs \<Longrightarrow> distinct xs" "dll nx pv h xs \<Longrightarrow> h \<notin> set xs"
  by (auto simp: dll_def)

end
