(* ===== verification/Xv6_Bio.thy ===== *)
theory Xv6_Bio
  imports Xv6_BlockCache Xv6_Sleeplock Xv6_Links
begin

text \<open>
  The buffer cache of kernel/bio.c. Buffer \<open>i\<close> of \<open>bcache.buf\<close> is node \<open>i\<close> of the LRU list and
  \<open>&bcache.head\<close> is node \<open>NBUF\<close>. The disk is a function from block numbers to blocks;
  \<open>virtio_disk_rw\<close> transfers one block and returns when the transfer is complete, and
  \<open>writes\<close> is a ghost history of the blocks written, in order, which the crash argument of the
  log needs. \<open>bcache.lock\<close> makes every critical section below one atomic step.
\<close>

section \<open>State and operations\<close>

record buf =
  b_valid :: bool
  b_dev :: u32
  b_blockno :: u32
  b_lock :: sleeplock
  b_refcnt :: u32
  b_data :: bytes

record bcache =
  bc_buf :: "nat \<Rightarrow> buf"
  bc_prev :: "nat \<Rightarrow> nat"
  bc_next :: "nat \<Rightarrow> nat"
  disk :: "u32 \<Rightarrow> bytes"
  writes :: "(u32 \<times> bytes) list"
  cur_pid :: int

abbreviation bhead :: nat where "bhead \<equiv> NBUF"

definition upd_buf :: "nat \<Rightarrow> (buf \<Rightarrow> buf) \<Rightarrow> bcache \<Rightarrow> bcache" where
  "upd_buf i f s = s\<lparr>bc_buf := (bc_buf s)(i := f (bc_buf s i))\<rparr>"

definition link_front :: "nat \<Rightarrow> bcache \<Rightarrow> bcache" where
  "link_front b s = s\<lparr>bc_next := push_next (bc_next s) bhead b,
     bc_prev := push_prev (bc_next s) (bc_prev s) bhead b\<rparr>"

definition unlink_buf :: "nat \<Rightarrow> bcache \<Rightarrow> bcache" where
  "unlink_buf b s = s\<lparr>bc_next := unlink_next (bc_next s) (bc_prev s) b,
     bc_prev := unlink_prev (bc_next s) (bc_prev s) b\<rparr>"

definition binit :: "bcache \<Rightarrow> bcache" where
  "binit s =
     (let s0 = s\<lparr>bc_prev := (bc_prev s)(bhead := bhead), bc_next := (bc_next s)(bhead := bhead)\<rparr>
      in fold (\<lambda>b s. link_front b (upd_buf b (\<lambda>x. x\<lparr>b_lock := initsleeplock\<rparr>) s)) [0..<NBUF] s0)"

text \<open>The fuel of a list walk: one step per buffer and one for the sentinel.\<close>

abbreviation walk_fuel :: nat where "walk_fuel \<equiv> Suc NBUF"

definition block_lock :: "nat \<Rightarrow> bcache \<Rightarrow> (nat \<times> bcache) outcome" where
  "block_lock i s = obind (acquiresleep (cur_pid s) (b_lock (bc_buf s i)))
     (\<lambda>lk. Ret (i, upd_buf i (\<lambda>b. b\<lparr>b_lock := lk\<rparr>) s))"

definition bget :: "u32 \<Rightarrow> u32 \<Rightarrow> bcache \<Rightarrow> (nat \<times> bcache) outcome" where
  "bget dev blockno s =
     obind (link_scan (bc_next s)
         (\<lambda>i. b_dev (bc_buf s i) = dev \<and> b_blockno (bc_buf s i) = blockno)
         bhead walk_fuel (bc_next s bhead))
       (\<lambda>hit. case hit of
          Some i \<Rightarrow> block_lock i (upd_buf i (\<lambda>b. b\<lparr>b_refcnt := b_refcnt b + 1\<rparr>) s)
        | None \<Rightarrow>
            obind (link_scan (bc_prev s) (\<lambda>i. b_refcnt (bc_buf s i) = 0)
                bhead walk_fuel (bc_prev s bhead))
              (\<lambda>victim. case victim of
                 Some i \<Rightarrow> block_lock i (upd_buf i (\<lambda>b. b\<lparr>b_dev := dev, b_blockno := blockno,
                   b_valid := False, b_refcnt := 1\<rparr>) s)
               | None \<Rightarrow> opanic ''bget: no buffers''))"

definition virtio_disk_rw :: "nat \<Rightarrow> bool \<Rightarrow> bcache \<Rightarrow> bcache" where
  "virtio_disk_rw i wr s =
     (let b = bc_buf s i in
      if wr then s\<lparr>disk := (disk s)(b_blockno b := b_data b),
                   writes := writes s @ [(b_blockno b, b_data b)]\<rparr>
      else upd_buf i (\<lambda>b. b\<lparr>b_data := disk s (b_blockno b)\<rparr>) s)"

definition bread :: "u32 \<Rightarrow> u32 \<Rightarrow> bcache \<Rightarrow> (nat \<times> bcache) outcome" where
  "bread dev blockno s =
     obind (bget dev blockno s) (\<lambda>(i, s).
       if \<not> b_valid (bc_buf s i)
       then Ret (i, upd_buf i (\<lambda>b. b\<lparr>b_valid := True\<rparr>) (virtio_disk_rw i False s))
       else Ret (i, s))"

definition bwrite :: "nat \<Rightarrow> bcache \<Rightarrow> bcache outcome" where
  "bwrite i s =
     (if \<not> holdingsleep (cur_pid s) (b_lock (bc_buf s i)) then opanic ''bwrite''
      else Ret (virtio_disk_rw i True s))"

definition brelse :: "nat \<Rightarrow> bcache \<Rightarrow> bcache outcome" where
  "brelse i s =
     (if \<not> holdingsleep (cur_pid s) (b_lock (bc_buf s i)) then opanic ''brelse''
      else
        let s1 = upd_buf i (\<lambda>b. b\<lparr>b_lock := releasesleep (b_lock b)\<rparr>) s;
            s2 = upd_buf i (\<lambda>b. b\<lparr>b_refcnt := b_refcnt b - 1\<rparr>) s1
        in if b_refcnt (bc_buf s2 i) = 0 then Ret (link_front i (unlink_buf i s2)) else Ret s2)"

definition bpin :: "nat \<Rightarrow> bcache \<Rightarrow> bcache" where
  "bpin i s = upd_buf i (\<lambda>b. b\<lparr>b_refcnt := b_refcnt b + 1\<rparr>) s"

definition bunpin :: "nat \<Rightarrow> bcache \<Rightarrow> bcache" where
  "bunpin i s = upd_buf i (\<lambda>b. b\<lparr>b_refcnt := b_refcnt b - 1\<rparr>) s"

text \<open>How a caller reads and modifies \<open>b->data\<close> of a buffer it holds.\<close>

definition get_data :: "nat \<Rightarrow> bcache \<Rightarrow> bytes" where
  "get_data i s = b_data (bc_buf s i)"

definition put_data :: "nat \<Rightarrow> bytes \<Rightarrow> bcache \<Rightarrow> bcache" where
  "put_data i x s = upd_buf i (\<lambda>b. b\<lparr>b_data := x\<rparr>) s"

section \<open>What the cache represents\<close>

text \<open>
  The slot of a block, the contents a reader of the block sees, the number of references to its
  buffer, and the block a process holds locked in buffer \<open>i\<close>. The device is \<open>ROOTDEV\<close>, the only
  disk of the system.
\<close>

definition slot :: "bcache \<Rightarrow> u32 \<Rightarrow> nat option" where
  "slot s b = scan (\<lambda>i. b_dev (bc_buf s i) = ROOTDEV \<and> b_blockno (bc_buf s i) = b) 0 NBUF"

definition view :: "bcache \<Rightarrow> u32 \<Rightarrow> bytes" where
  "view s b = (case slot s b of
     Some i \<Rightarrow> if b_valid (bc_buf s i) then b_data (bc_buf s i) else disk s b
   | None \<Rightarrow> disk s b)"

definition pins :: "bcache \<Rightarrow> u32 \<Rightarrow> nat" where
  "pins s b = (case slot s b of Some i \<Rightarrow> unat (b_refcnt (bc_buf s i)) | None \<Rightarrow> 0)"

definition handle :: "bcache \<Rightarrow> nat \<Rightarrow> u32 option" where
  "handle s i = (if i < NBUF \<and> sl_locked (b_lock (bc_buf s i))
     then Some (b_blockno (bc_buf s i)) else None)"

text \<open>
  The representation invariant: the LRU list holds every buffer once; a block is cached at most
  once; a referenced buffer caches a block of the device and is valid; an unreferenced valid
  buffer agrees with the disk, so it can be recycled; a locked buffer is referenced and locked
  by the running process.
\<close>

definition buf_ok :: "bcache \<Rightarrow> nat \<Rightarrow> bool" where
  "buf_ok s i \<longleftrightarrow>
     (let b = bc_buf s i in
        (b_refcnt b \<noteq> 0 \<longrightarrow> b_valid b) \<and>
        (b_valid b \<longrightarrow> b_dev b = ROOTDEV) \<and>
        (b_valid b \<and> b_refcnt b = 0 \<longrightarrow> b_data b = disk s (b_blockno b)) \<and>
        (sl_locked (b_lock b) \<longrightarrow> b_refcnt b \<noteq> 0 \<and> sl_pid (b_lock b) = cur_pid s))"

definition one_slot :: "bcache \<Rightarrow> bool" where
  "one_slot s \<longleftrightarrow> (\<forall>i<NBUF. \<forall>j<NBUF. b_dev (bc_buf s i) = ROOTDEV \<longrightarrow> b_dev (bc_buf s j) = ROOTDEV \<longrightarrow>
     b_blockno (bc_buf s i) = b_blockno (bc_buf s j) \<longrightarrow> i = j)"

definition lru_ok :: "bcache \<Rightarrow> bool" where
  "lru_ok s \<longleftrightarrow> (\<exists>xs. dll (bc_next s) (bc_prev s) bhead xs \<and> set xs = {0..<NBUF})"

definition bio_inv :: "bcache \<Rightarrow> bool" where
  "bio_inv s \<longleftrightarrow> lru_ok s \<and> one_slot s \<and> (\<forall>i<NBUF. buf_ok s i)"


section \<open>Reading the representation\<close>

lemma bc_buf_upd_buf [simp]:
  "bc_buf (upd_buf i f s) j = (if j = i then f (bc_buf s i) else bc_buf s j)"
  by (simp add: upd_buf_def)

lemma upd_buf_frame [simp]:
  "bc_prev (upd_buf i f s) = bc_prev s" "bc_next (upd_buf i f s) = bc_next s"
  "disk (upd_buf i f s) = disk s" "writes (upd_buf i f s) = writes s"
  "cur_pid (upd_buf i f s) = cur_pid s"
  by (simp_all add: upd_buf_def)

lemma lru_ok_upd_buf [simp]: "lru_ok (upd_buf i f s) = lru_ok s"
  by (simp add: lru_ok_def)

lemma slot_SomeD:
  "slot s b = Some i \<Longrightarrow> i < NBUF \<and> b_dev (bc_buf s i) = ROOTDEV \<and> b_blockno (bc_buf s i) = b"
  by (auto simp: slot_def scan_simps)

lemma slot_None_iff:
  "slot s b = None \<longleftrightarrow> (\<forall>i<NBUF. b_dev (bc_buf s i) = ROOTDEV \<longrightarrow> b_blockno (bc_buf s i) \<noteq> b)"
  by (auto simp: slot_def scan_simps)

lemma slot_Some_iff:
  assumes "one_slot s"
  shows "slot s b = Some i \<longleftrightarrow> i < NBUF \<and> b_dev (bc_buf s i) = ROOTDEV \<and> b_blockno (bc_buf s i) = b"
proof
  assume h: "i < NBUF \<and> b_dev (bc_buf s i) = ROOTDEV \<and> b_blockno (bc_buf s i) = b"
  then have "slot s b \<noteq> None" by (auto simp: slot_None_iff)
  then obtain j where j: "slot s b = Some j" by blast
  with slot_SomeD [OF j] h assms have "j = i" by (auto simp: one_slot_def)
  with j show "slot s b = Some i" by simp
qed (rule slot_SomeD)

text \<open>Updates that keep the identity of the buffer keep the slots.\<close>

definition keeps_id :: "(buf \<Rightarrow> buf) \<Rightarrow> bool" where
  "keeps_id f \<longleftrightarrow> (\<forall>b. b_dev (f b) = b_dev b \<and> b_blockno (f b) = b_blockno b)"

lemma upd_buf_id:
  assumes "keeps_id f"
  shows "b_dev (bc_buf (upd_buf i f s) j) = b_dev (bc_buf s j)"
    "b_blockno (bc_buf (upd_buf i f s) j) = b_blockno (bc_buf s j)"
  using assms by (simp_all add: keeps_id_def)

lemma slot_upd_buf: "keeps_id f \<Longrightarrow> slot (upd_buf i f s) = slot s"
  by (rule ext) (simp only: slot_def upd_buf_id)

lemma one_slot_upd_buf: "keeps_id f \<Longrightarrow> one_slot (upd_buf i f s) = one_slot s"
  by (simp only: one_slot_def upd_buf_id)

lemma view_upd_buf:
  assumes "keeps_id f" and "\<And>b. b_valid (f b) = b_valid b" and "one_slot s"
    and "i < NBUF" and "b_valid (bc_buf s i)" and "b_dev (bc_buf s i) = ROOTDEV"
  shows "view (upd_buf i f s) = (view s)(b_blockno (bc_buf s i) := b_data (f (bc_buf s i)))"
proof
  fix c
  have i: "slot s c = Some i \<longleftrightarrow> c = b_blockno (bc_buf s i)"
    using assms by (auto simp: slot_Some_iff)
  have slot: "slot (upd_buf i f s) c = slot s c" by (simp only: slot_upd_buf [OF assms(1)])
  show "view (upd_buf i f s) c = ((view s)(b_blockno (bc_buf s i) := b_data (f (bc_buf s i)))) c"
  proof (cases "c = b_blockno (bc_buf s i)")
    case True
    with i have "slot s c = Some i" by simp
    with True assms(2,5) slot show ?thesis by (simp add: view_def)
  next
    case False
    with i have "slot s c \<noteq> Some i" by simp
    with False slot show ?thesis by (cases "slot s c") (auto simp: view_def)
  qed
qed

lemma view_of_handle:
  assumes "bio_inv s" and "handle s i = Some b"
  shows "view s b = get_data i s"
proof -
  from assms have i: "i < NBUF" "b_blockno (bc_buf s i) = b" "sl_locked (b_lock (bc_buf s i))"
    by (auto simp: handle_def split: if_splits)
  with assms(1) have "b_valid (bc_buf s i)" "b_dev (bc_buf s i) = ROOTDEV"
    by (auto simp: bio_inv_def buf_ok_def Let_def)
  moreover have "one_slot s" using assms(1) by (simp add: bio_inv_def)
  ultimately have "slot s b = Some i" using i by (auto simp: slot_Some_iff)
  with \<open>b_valid (bc_buf s i)\<close> show ?thesis by (simp add: view_def get_data_def)
qed

lemma handle_facts:
  assumes "bio_inv s" and "handle s i = Some b"
  shows "i < NBUF" "b_blockno (bc_buf s i) = b" "b_valid (bc_buf s i)"
    "b_dev (bc_buf s i) = ROOTDEV" "b_refcnt (bc_buf s i) \<noteq> 0" "slot s b = Some i"
    "holdingsleep (cur_pid s) (b_lock (bc_buf s i))" "sl_locked (b_lock (bc_buf s i))"
proof -
  from assms(2) show i: "i < NBUF" "b_blockno (bc_buf s i) = b" "sl_locked (b_lock (bc_buf s i))"
    by (auto simp: handle_def split: if_splits)
  with assms(1) show v: "b_valid (bc_buf s i)" "b_dev (bc_buf s i) = ROOTDEV"
      "b_refcnt (bc_buf s i) \<noteq> 0" "holdingsleep (cur_pid s) (b_lock (bc_buf s i))"
    by (auto simp: bio_inv_def buf_ok_def Let_def holdingsleep_def)
  have "one_slot s" using assms(1) by (simp add: bio_inv_def)
  with i v show "slot s b = Some i" by (auto simp: slot_Some_iff)
qed

lemma pins_of_slot: "slot s b = Some i \<Longrightarrow> pins s b = unat (b_refcnt (bc_buf s i))"
  by (simp add: pins_def)

lemma handle_pins_pos: "bio_inv s \<Longrightarrow> handle s i = Some b \<Longrightarrow> pins s b > 0"
  using handle_facts [of s i b] by (simp add: pins_of_slot unat_gt_0)

lemma handle_inj:
  assumes "bio_inv s" and "handle s i = Some b" and "handle s j = Some b"
  shows "i = j"
  using handle_facts(6) [OF assms(1,2)] handle_facts(6) [OF assms(1,3)] by simp

section \<open>Finding and recycling buffers\<close>

lemma scan_next:
  assumes "lru_ok s"
  obtains xs where "set xs = {0..<NBUF}" and "distinct xs"
    and "dll (bc_next s) (bc_prev s) bhead xs"
    and "\<And>P. link_scan (bc_next s) P bhead walk_fuel (bc_next s bhead) = Ret (find P xs)"
    and "\<And>P. link_scan (bc_prev s) P bhead walk_fuel (bc_prev s bhead) = Ret (find P (rev xs))"
proof -
  from assms obtain xs where xs: "dll (bc_next s) (bc_prev s) bhead xs" "set xs = {0..<NBUF}"
    by (auto simp: lru_ok_def)
  then have "distinct xs" by (auto simp: dll_def)
  with xs(2) have "length xs = NBUF" using distinct_card [of xs] by simp
  then have l: "length xs < walk_fuel" by simp
  show ?thesis
    by (rule that [OF xs(2) \<open>distinct xs\<close> xs(1)])
      (rule link_scan_dll [OF xs(1) l], rule link_scan_dll_back [OF xs(1) l])
qed

lemma find_unique:
  assumes "x \<in> set xs" and "P x" and "\<And>y. y \<in> set xs \<Longrightarrow> P y \<Longrightarrow> y = x"
  shows "find P xs = Some x"
proof (cases "find P xs")
  case None
  with assms(1,2) show ?thesis by (auto simp: find_None_iff)
next
  case (Some y)
  with find_in [OF Some] assms(3) [of y] show ?thesis by simp
qed

lemma bget_hit:
  assumes "bio_inv s" and "slot s b = Some i" and "\<not> sl_locked (b_lock (bc_buf s i))"
  shows "bget ROOTDEV b s = Ret (i, upd_buf i (\<lambda>x. x\<lparr>b_refcnt := b_refcnt x + 1,
     b_lock := (b_lock x)\<lparr>sl_locked := True, sl_pid := cur_pid s\<rparr>\<rparr>) s)"
proof -
  have inv: "lru_ok s" "one_slot s" using assms(1) by (auto simp: bio_inv_def)
  obtain xs where xs: "set xs = {0..<NBUF}"
    "\<And>P. link_scan (bc_next s) P bhead walk_fuel (bc_next s bhead) = Ret (find P xs)"
    using scan_next [OF inv(1)] by metis
  have "find (\<lambda>i. b_dev (bc_buf s i) = ROOTDEV \<and> b_blockno (bc_buf s i) = b) xs = Some i"
  proof (rule find_unique)
    note i = slot_SomeD [OF assms(2)]
    show "i \<in> set xs" and "b_dev (bc_buf s i) = ROOTDEV \<and> b_blockno (bc_buf s i) = b"
      using i xs(1) by simp_all
    fix y assume "y \<in> set xs" "b_dev (bc_buf s y) = ROOTDEV \<and> b_blockno (bc_buf s y) = b"
    then have "slot s b = Some y" using xs(1) by (simp add: slot_Some_iff [OF inv(2)])
    with assms(2) show "y = i" by simp
  qed
  with xs(2) have "bget ROOTDEV b s = block_lock i (upd_buf i (\<lambda>b. b\<lparr>b_refcnt := b_refcnt b + 1\<rparr>) s)"
    unfolding bget_def by simp
  with assms(3) show ?thesis
    by (simp add: block_lock_def) (simp add: upd_buf_def)
qed

lemma bget_miss:
  assumes "bio_inv s" and "slot s b = None" and "\<exists>i<NBUF. b_refcnt (bc_buf s i) = 0"
  shows "\<exists>i<NBUF. b_refcnt (bc_buf s i) = 0 \<and>
    bget ROOTDEV b s = Ret (i, upd_buf i (\<lambda>x. x\<lparr>b_dev := ROOTDEV, b_blockno := b,
      b_valid := False, b_refcnt := 1,
      b_lock := (b_lock x)\<lparr>sl_locked := True, sl_pid := cur_pid s\<rparr>\<rparr>) s)"
proof -
  have inv: "lru_ok s" using assms(1) by (auto simp: bio_inv_def)
  obtain xs where xs: "set xs = {0..<NBUF}"
    "\<And>P. link_scan (bc_next s) P bhead walk_fuel (bc_next s bhead) = Ret (find P xs)"
    "\<And>P. link_scan (bc_prev s) P bhead walk_fuel (bc_prev s bhead) = Ret (find P (rev xs))"
    using scan_next [OF inv] by metis
  have "find (\<lambda>i. b_dev (bc_buf s i) = ROOTDEV \<and> b_blockno (bc_buf s i) = b) xs = None"
    using assms(2) xs(1) by (auto simp: find_None_iff slot_None_iff)
  moreover have "find (\<lambda>i. b_refcnt (bc_buf s i) = 0) (rev xs) \<noteq> None"
    using assms(3) xs(1) by (auto simp: find_None_iff)
  then obtain i where i: "find (\<lambda>i. b_refcnt (bc_buf s i) = 0) (rev xs) = Some i" by blast
  moreover have "i < NBUF \<and> b_refcnt (bc_buf s i) = 0" using find_in [OF i] xs(1) by auto
  moreover have "\<not> sl_locked (b_lock (bc_buf s i))"
    using assms(1) calculation(3) by (auto simp: bio_inv_def buf_ok_def Let_def)
  moreover from calculation xs(2,3)
  have "bget ROOTDEV b s = block_lock i (upd_buf i (\<lambda>x. x\<lparr>b_dev := ROOTDEV, b_blockno := b,
      b_valid := False, b_refcnt := 1\<rparr>) s)"
    unfolding bget_def by simp
  ultimately show ?thesis
    by (intro exI [of _ i]) (simp add: block_lock_def, simp add: upd_buf_def)
qed

lemma free_buffer:
  assumes "bio_inv s" and "card {c. pins s c > 0} < NBUF"
  shows "\<exists>i<NBUF. b_refcnt (bc_buf s i) = 0"
proof (rule ccontr)
  assume n: "\<not> ?thesis"
  have o: "one_slot s" using assms(1) by (simp add: bio_inv_def)
  have dev: "b_dev (bc_buf s i) = ROOTDEV" if "i < NBUF" for i
    using assms(1) n that by (auto simp: bio_inv_def buf_ok_def Let_def)
  have "(\<lambda>i. b_blockno (bc_buf s i)) ` {0..<NBUF} \<subseteq> {c. pins s c > 0}"
  proof
    fix c assume "c \<in> (\<lambda>i. b_blockno (bc_buf s i)) ` {0..<NBUF}"
    then obtain i where i: "i < NBUF" "c = b_blockno (bc_buf s i)" by auto
    with dev o have "slot s c = Some i" by (auto simp: slot_Some_iff)
    with n i show "c \<in> {c. pins s c > 0}" by (auto simp: pins_of_slot unat_gt_0)
  qed
  then have "card ((\<lambda>i. b_blockno (bc_buf s i)) ` {0..<NBUF}) \<le> card {c. pins s c > 0}"
    by (intro card_mono) auto
  moreover have "inj_on (\<lambda>i. b_blockno (bc_buf s i)) {0..<NBUF}"
    using o dev by (auto simp: inj_on_def one_slot_def)
  ultimately show False using assms(2) by (simp add: card_image)
qed

section \<open>The contract of the cache\<close>

definition bio_abs :: "bcache \<Rightarrow> cache_abs" where
  "bio_abs s = \<lparr>a_view = view s, a_disk = disk s, a_writes = writes s, a_pins = pins s,
     a_held = handle s\<rparr>"

lemma bio_abs_sel [simp]:
  "a_view (bio_abs s) = view s" "a_disk (bio_abs s) = disk s" "a_writes (bio_abs s) = writes s"
  "a_pins (bio_abs s) = pins s" "a_held (bio_abs s) = handle s"
  by (simp_all add: bio_abs_def)

lemma bio_inv_upd_buf:
  assumes "bio_inv s" and "keeps_id f" and "buf_ok (upd_buf i f s) i"
  shows "bio_inv (upd_buf i f s)"
proof -
  have "buf_ok (upd_buf i f s) j" if "j < NBUF" for j
    using assms that by (cases "j = i") (auto simp: bio_inv_def buf_ok_def)
  with assms show ?thesis by (simp add: bio_inv_def one_slot_upd_buf)
qed

lemma pins_upd_buf:
  assumes "keeps_id f" and "slot s b = Some i"
  shows "pins (upd_buf i f s) = (pins s)(b := unat (b_refcnt (f (bc_buf s i))))"
proof
  fix c
  have slot: "slot (upd_buf i f s) c = slot s c" by (simp only: slot_upd_buf [OF assms(1)])
  show "pins (upd_buf i f s) c = ((pins s)(b := unat (b_refcnt (f (bc_buf s i))))) c"
  proof (cases "c = b")
    case False
    then have "slot s c \<noteq> Some i" using slot_SomeD [OF assms(2)] slot_SomeD [of s c i] by auto
    with False slot show ?thesis by (cases "slot s c") (auto simp: pins_def)
  qed (use assms(2) slot in \<open>simp add: pins_def\<close>)
qed

lemma handle_upd_buf:
  assumes "keeps_id f" and "i < NBUF"
  shows "handle (upd_buf i f s) = (handle s)(i :=
    if sl_locked (b_lock (f (bc_buf s i))) then Some (b_blockno (bc_buf s i)) else None)"
  using assms by (intro ext) (simp add: handle_def keeps_id_def)

text \<open>Only the buffers and the disk matter to the abstract state, not the LRU links.\<close>

lemma relink_frame [simp]:
  "bc_buf (link_front i s) = bc_buf s" "disk (link_front i s) = disk s"
  "writes (link_front i s) = writes s" "cur_pid (link_front i s) = cur_pid s"
  "bc_buf (unlink_buf i s) = bc_buf s" "disk (unlink_buf i s) = disk s"
  "writes (unlink_buf i s) = writes s" "cur_pid (unlink_buf i s) = cur_pid s"
  by (simp_all add: link_front_def unlink_buf_def)

lemma same_buffers:
  assumes "bc_buf s' = bc_buf s" and "disk s' = disk s"
  shows "slot s' = slot s" "view s' = view s" "pins s' = pins s" "handle s' = handle s"
    "one_slot s' = one_slot s"
proof -
  show slot: "slot s' = slot s" using assms by (intro ext) (simp add: slot_def)
  show "view s' = view s" by (rule ext) (simp add: view_def assms slot split: option.split)
  show "pins s' = pins s" by (rule ext) (simp add: pins_def assms slot split: option.split)
  show "handle s' = handle s" by (rule ext) (simp add: handle_def assms)
  show "one_slot s' = one_slot s" by (simp add: one_slot_def assms)
qed

lemma lru_ok_move_front:
  assumes "lru_ok s" and "i < NBUF"
  shows "lru_ok (link_front i (unlink_buf i s))"
proof -
  from assms(1) obtain xs where xs: "dll (bc_next s) (bc_prev s) bhead xs" "set xs = {0..<NBUF}"
    by (auto simp: lru_ok_def)
  with assms(2) obtain us vs where uv: "xs = us @ i # vs" by (metis atLeastLessThan_iff le0 split_list)
  have d: "distinct xs" using xs(1) by (simp add: dll_def)
  have u: "dll (bc_next (unlink_buf i s)) (bc_prev (unlink_buf i s)) bhead (us @ vs)"
    using dll_unlink [of "bc_next s" "bc_prev s" bhead us i vs] xs(1) uv by (simp add: unlink_buf_def)
  have "i \<notin> set (bhead # us @ vs)" using d uv assms(2) by auto
  from dll_push [OF u this]
  have "dll (bc_next (link_front i (unlink_buf i s))) (bc_prev (link_front i (unlink_buf i s)))
      bhead (i # us @ vs)"
    by (simp add: link_front_def)
  moreover have "set (i # us @ vs) = {0..<NBUF}" using xs(2) uv by auto
  ultimately show ?thesis by (auto simp: lru_ok_def)
qed

lemma bio_inv_move_front:
  assumes "bio_inv s" and "i < NBUF"
  shows "bio_inv (link_front i (unlink_buf i s))"
  using assms lru_ok_move_front [of s i] same_buffers(5) [of "link_front i (unlink_buf i s)" s]
  by (simp add: bio_inv_def buf_ok_def)

lemma bio_abs_move_front [simp]: "bio_abs (link_front i (unlink_buf i s)) = bio_abs s"
  using same_buffers [of "link_front i (unlink_buf i s)" s] by (simp add: bio_abs_def)

lemma unat_Suc_ref:
  assumes "unat (r::u32) < 1000"
  shows "unat (r + 1) = unat r + 1" and "r + 1 \<noteq> 0"
proof -
  show *: "unat (r + 1) = unat r + 1" using assms by (simp add: unat_word_ariths)
  show "r + 1 \<noteq> 0"
  proof
    assume "r + 1 = 0"
    with * show False by simp
  qed
qed

lemma unat_pred_ref: "(r::u32) \<noteq> 0 \<Longrightarrow> unat (r - 1) = unat r - 1"
  by (metis unat_minus_one)

section \<open>Every operation meets the contract\<close>

lemma bio_get_law: "bio_inv s \<Longrightarrow> handle s i = Some b \<Longrightarrow> get_data i s = view s b"
  by (simp add: view_of_handle)

lemma bio_put_law:
  assumes "bio_inv s" and "handle s i = Some b"
  shows "bio_inv (put_data i x s) \<and> bio_abs (put_data i x s) = see b x (bio_abs s)"
proof -
  note h = handle_facts [OF assms]
  have k: "keeps_id (\<lambda>b. b\<lparr>b_data := x\<rparr>)" by (simp add: keeps_id_def)
  have "buf_ok s i" using assms(1) h(1) by (simp add: bio_inv_def)
  then have "buf_ok (put_data i x s) i"
    using h by (simp add: buf_ok_def put_data_def Let_def)
  then have "bio_inv (put_data i x s)"
    unfolding put_data_def by (intro bio_inv_upd_buf [OF assms(1) k])
  moreover have "view (put_data i x s) = (view s)(b := x)"
    using view_upd_buf [OF k _ _ h(1,3,4)] assms(1) h(2) by (simp add: put_data_def bio_inv_def)
  moreover have "pins (put_data i x s) = pins s"
    using pins_upd_buf [OF k h(6)] pins_of_slot [OF h(6)] by (simp add: put_data_def fun_upd_idem)
  moreover have "handle (put_data i x s) = handle s"
    using handle_upd_buf [OF k h(1), of s] h(2,8) assms(2) by (simp add: put_data_def fun_upd_idem)
  ultimately show ?thesis by (simp add: bio_abs_def see_def put_data_def)
qed

lemma bio_write_law:
  assumes "bio_inv s" and "handle s i = Some b"
  shows "\<exists>s'. bwrite i s = Ret s' \<and> bio_inv s' \<and> bio_abs s' = flush b (bio_abs s)"
proof -
  note h = handle_facts [OF assms]
  define s' where "s' = virtio_disk_rw i True s"
  have s': "bc_buf s' = bc_buf s" "cur_pid s' = cur_pid s" "bc_next s' = bc_next s"
      "bc_prev s' = bc_prev s" "disk s' = (disk s)(b := get_data i s)"
      "writes s' = writes s @ [(b, get_data i s)]"
    using h(2) by (auto simp: s'_def virtio_disk_rw_def Let_def get_data_def)
  have one: "one_slot s" using assms(1) by (simp add: bio_inv_def)
  have slot: "slot s' = slot s" by (rule ext) (simp add: slot_def s'(1))
  have ok: "buf_ok s' j" if j: "j < NBUF" for j
  proof -
    have "buf_ok s j" using assms(1) j by (simp add: bio_inv_def)
    moreover have "b_data (bc_buf s j) = disk s' (b_blockno (bc_buf s j))"
      if v: "b_valid (bc_buf s j)" "b_refcnt (bc_buf s j) = 0"
        "b_data (bc_buf s j) = disk s (b_blockno (bc_buf s j))" "b_dev (bc_buf s j) = ROOTDEV"
    proof (cases "b_blockno (bc_buf s j) = b")
      case True
      with j v(4) one have "slot s b = Some j" by (auto simp: slot_Some_iff)
      with h(5,6) v(2) show ?thesis by simp
    qed (use v s' in simp)
    ultimately show ?thesis by (auto simp: buf_ok_def Let_def s'(1,2))
  qed
  have inv: "bio_inv s'"
    using assms(1) ok s' by (auto simp: bio_inv_def lru_ok_def one_slot_def)
  have view: "view s' = view s"
  proof
    fix c show "view s' c = view s c"
      using h(3,6) view_of_handle [OF assms] s' slot
      by (cases "c = b") (auto simp: view_def get_data_def split: option.splits)
  qed
  have "pins s' = pins s" by (rule ext) (simp add: pins_def slot s'(1) split: option.split)
  moreover have "handle s' = handle s" by (rule ext) (simp add: handle_def s'(1))
  ultimately show ?thesis using inv view s' view_of_handle [OF assms] h(7)
    by (auto simp: bwrite_def s'_def bio_abs_def flush_def)
qed

lemma bio_pin_law:
  assumes "bio_inv s" and "handle s i = Some b" and "pins s b < 1000"
  shows "bio_inv (bpin i s) \<and> bio_abs (bpin i s) = pin b (bio_abs s)"
proof -
  note h = handle_facts [OF assms(1,2)]
  let ?f = "\<lambda>b. b\<lparr>b_refcnt := b_refcnt b + 1\<rparr>"
  have k: "keeps_id ?f" by (simp add: keeps_id_def)
  have r: "unat (b_refcnt (bc_buf s i)) < 1000" using assms(3) pins_of_slot [OF h(6)] by simp
  have "buf_ok s i" using assms(1) h(1) by (simp add: bio_inv_def)
  then have "buf_ok (bpin i s) i"
    using h unat_Suc_ref(2) [OF r] by (simp add: buf_ok_def bpin_def Let_def)
  then have "bio_inv (bpin i s)"
    unfolding bpin_def by (intro bio_inv_upd_buf [OF assms(1) k])
  moreover have "view (bpin i s) = view s"
    using view_upd_buf [OF k _ _ h(1,3,4)] assms(1) h(2) view_of_handle [OF assms(1,2)]
    by (simp add: bpin_def bio_inv_def get_data_def fun_upd_idem)
  moreover have "pins (bpin i s) = (pins s)(b := pins s b + 1)"
    using pins_upd_buf [OF k h(6)] pins_of_slot [OF h(6)] unat_Suc_ref(1) [OF r]
    by (simp add: bpin_def)
  moreover have "handle (bpin i s) = handle s"
    using handle_upd_buf [OF k h(1), of s] h(2,8) assms(2) by (simp add: bpin_def fun_upd_idem)
  ultimately show ?thesis by (simp add: bio_abs_def pin_def bpin_def)
qed

lemma bio_unpin_law:
  assumes "bio_inv s" and "handle s i = Some b" and "pins s b > 1"
  shows "bio_inv (bunpin i s) \<and> bio_abs (bunpin i s) = unpin b (bio_abs s)"
proof -
  note h = handle_facts [OF assms(1,2)]
  let ?f = "\<lambda>b. b\<lparr>b_refcnt := b_refcnt b - 1\<rparr>"
  have k: "keeps_id ?f" by (simp add: keeps_id_def)
  have r: "unat (b_refcnt (bc_buf s i) - 1) = unat (b_refcnt (bc_buf s i)) - 1"
    by (rule unat_pred_ref [OF h(5)])
  have "b_refcnt (bc_buf s i) - 1 \<noteq> 0"
    using r assms(3) pins_of_slot [OF h(6)] by auto
  moreover have "buf_ok s i" using assms(1) h(1) by (simp add: bio_inv_def)
  ultimately have "buf_ok (bunpin i s) i"
    using h by (simp add: buf_ok_def bunpin_def Let_def)
  then have "bio_inv (bunpin i s)"
    unfolding bunpin_def by (intro bio_inv_upd_buf [OF assms(1) k])
  moreover have "view (bunpin i s) = view s"
    using view_upd_buf [OF k _ _ h(1,3,4)] assms(1) h(2) view_of_handle [OF assms(1,2)]
    by (simp add: bunpin_def bio_inv_def get_data_def fun_upd_idem)
  moreover have "pins (bunpin i s) = (pins s)(b := pins s b - 1)"
    using pins_upd_buf [OF k h(6)] pins_of_slot [OF h(6)] r by (simp add: bunpin_def)
  moreover have "handle (bunpin i s) = handle s"
    using handle_upd_buf [OF k h(1), of s] h(2,8) assms(2) by (simp add: bunpin_def fun_upd_idem)
  ultimately show ?thesis by (simp add: bio_abs_def unpin_def bunpin_def)
qed

lemma bio_release_law:
  assumes "bio_inv s" and "handle s i = Some b" and "droppable (bio_abs s) b"
  shows "\<exists>s'. brelse i s = Ret s' \<and> bio_inv s' \<and> bio_abs s' = unhold i b (bio_abs s)"
proof -
  note h = handle_facts [OF assms(1,2)]
  let ?f = "\<lambda>b. b\<lparr>b_lock := releasesleep (b_lock b), b_refcnt := b_refcnt b - 1\<rparr>"
  define s1 where "s1 = upd_buf i ?f s"
  have k: "keeps_id ?f" by (simp add: keeps_id_def)
  have r: "unat (b_refcnt (bc_buf s i) - 1) = unat (b_refcnt (bc_buf s i)) - 1"
    by (rule unat_pred_ref [OF h(5)])
  have clean: "b_data (bc_buf s i) = disk s b" if "b_refcnt (bc_buf s i) - 1 = 0"
  proof -
    have "pins s b \<le> 1" using that r pins_of_slot [OF h(6)] by simp
    with assms(3) have "view s b = disk s b" by (simp add: droppable_def)
    with view_of_handle [OF assms(1,2)] show ?thesis by (simp add: get_data_def)
  qed
  have ok: "buf_ok s1 i"
    using h clean by (auto simp: s1_def buf_ok_def Let_def releasesleep_def)
  then have inv: "bio_inv s1"
    unfolding s1_def by (intro bio_inv_upd_buf [OF assms(1) k])
  have "view s1 = view s"
    using view_upd_buf [OF k _ _ h(1,3,4)] assms(1) h(2) view_of_handle [OF assms(1,2)]
    by (simp add: s1_def bio_inv_def get_data_def fun_upd_idem)
  moreover have "pins s1 = (pins s)(b := pins s b - 1)"
    using pins_upd_buf [OF k h(6)] pins_of_slot [OF h(6)] r by (simp add: s1_def)
  moreover have "handle s1 = (handle s)(i := None)"
    using handle_upd_buf [OF k h(1), of s] by (simp add: s1_def releasesleep_def)
  ultimately have abs: "bio_abs s1 = unhold i b (bio_abs s)"
    by (simp add: bio_abs_def unhold_def s1_def)
  have "brelse i s = Ret (if b_refcnt (bc_buf s1 i) = 0 then link_front i (unlink_buf i s1) else s1)"
    using h(7) by (simp add: brelse_def s1_def Let_def) (simp add: upd_buf_def)
  with inv abs bio_inv_move_front [OF inv h(1)] show ?thesis by auto
qed

lemma upd_buf_eqI: "f (bc_buf s i) = g (bc_buf s i) \<Longrightarrow> upd_buf i f s = upd_buf i g s"
  by (simp add: upd_buf_def)

lemma upd_buf_upd_buf: "upd_buf i f (upd_buf i g s) = upd_buf i (\<lambda>x. f (g x)) s"
  by (simp add: upd_buf_def)

lemma read_uncached:
  assumes inv: "bio_inv s" and none: "slot s b = None" and free: "\<exists>i<NBUF. b_refcnt (bc_buf s i) = 0"
  shows "\<exists>i s'. bread ROOTDEV b s = Ret (i, s') \<and> bio_inv s' \<and> handle s i = None \<and>
    bio_abs s' = hold i b (bio_abs s)"
proof -
  obtain i where i: "i < NBUF" "b_refcnt (bc_buf s i) = 0"
    and g: "bget ROOTDEV b s = Ret (i, upd_buf i (\<lambda>x. x\<lparr>b_dev := ROOTDEV, b_blockno := b,
      b_valid := False, b_refcnt := 1,
      b_lock := (b_lock x)\<lparr>sl_locked := True, sl_pid := cur_pid s\<rparr>\<rparr>) s)"
    using bget_miss [OF inv none free] by blast
  define f where "f = (\<lambda>x::buf. x\<lparr>b_dev := ROOTDEV, b_blockno := b,
      b_valid := True, b_refcnt := 1, b_data := disk s b,
      b_lock := (b_lock x)\<lparr>sl_locked := True, sl_pid := cur_pid s\<rparr>\<rparr>)"
  define s' where "s' = upd_buf i f s"
  have r: "bread ROOTDEV b s = Ret (i, s')"
    unfolding s'_def
    by (simp add: bread_def g virtio_disk_rw_def Let_def upd_buf_upd_buf)
      (rule upd_buf_eqI, rule buf.equality, simp_all add: f_def)
  have fi: "b_dev (bc_buf s' i) = ROOTDEV" "b_blockno (bc_buf s' i) = b" "b_valid (bc_buf s' i)"
      "b_refcnt (bc_buf s' i) = 1" "b_data (bc_buf s' i) = disk s b"
      "sl_locked (b_lock (bc_buf s' i))" "sl_pid (b_lock (bc_buf s' i)) = cur_pid s"
    by (simp_all add: s'_def f_def)
  have fj: "bc_buf s' j = bc_buf s j" if "j \<noteq> i" for j using that by (simp add: s'_def)
  have fr: "disk s' = disk s" "writes s' = writes s" "cur_pid s' = cur_pid s" "lru_ok s' = lru_ok s"
    by (simp_all add: s'_def)
  have one: "one_slot s" and ok: "buf_ok s i" using inv i by (auto simp: bio_inv_def)
  have nb: "b_blockno (bc_buf s j) \<noteq> b" if "j < NBUF" "b_dev (bc_buf s j) = ROOTDEV" for j
    using none that by (auto simp: slot_None_iff)
  have one': "one_slot s'"
    unfolding one_slot_def
  proof (intro allI impI)
    fix j k assume h: "j < NBUF" "k < NBUF" "b_dev (bc_buf s' j) = ROOTDEV"
      "b_dev (bc_buf s' k) = ROOTDEV" "b_blockno (bc_buf s' j) = b_blockno (bc_buf s' k)"
    show "j = k"
    proof (cases "j = i \<or> k = i")
      case True
      with h nb [of j] nb [of k] fi(2) fj [of j] fj [of k] show ?thesis by metis
    next
      case False
      with h fj [of j] fj [of k] one show ?thesis by (simp add: one_slot_def)
    qed
  qed
  have "buf_ok s' j" if "j < NBUF" for j
  proof (cases "j = i")
    case True
    then show ?thesis using fi fr by (simp add: buf_ok_def)
  next
    case False
    with inv that fj [OF False] fr show ?thesis by (simp add: bio_inv_def buf_ok_def)
  qed
  with one' inv fr have inv': "bio_inv s'" by (simp add: bio_inv_def)
  have slotb: "slot s' b = Some i"
    using i fi by (simp add: slot_Some_iff [OF one'])
  have slotc: "slot s' c = (if slot s c = Some i then None else slot s c)" if c: "c \<noteq> b" for c
  proof -
    have ni: "slot s' c \<noteq> Some i" using slot_SomeD [of s' c i] fi(2) c by auto
    have eq: "slot s' c = Some j \<longleftrightarrow> slot s c = Some j" if "j \<noteq> i" for j
      using fj [OF that] by (simp add: slot_Some_iff [OF one'] slot_Some_iff [OF one])
    show ?thesis
    proof (cases "slot s' c")
      case None
      with eq show ?thesis by (cases "slot s c") auto
    next
      case (Some j)
      with ni eq [of j] show ?thesis by auto
    qed
  qed
  have evicted: "view s c = disk s c \<and> pins s c = 0" if c: "slot s c = Some i" for c
  proof -
    have "b_valid (bc_buf s i) \<Longrightarrow> b_data (bc_buf s i) = disk s c"
      using ok i slot_SomeD [OF c] by (simp add: buf_ok_def Let_def)
    with c i show ?thesis by (simp add: view_def pins_def)
  qed
  have other: "view s' c = view s c \<and> pins s' c = pins s c" if c: "c \<noteq> b" for c
  proof (cases "slot s c = Some i")
    case True
    with slotc [OF c] have "slot s' c = None" by simp
    with evicted [OF True] fr show ?thesis by (simp add: view_def [of s'] pins_def [of s'])
  next
    case False
    with slotc [OF c] have eq: "slot s' c = slot s c" by simp
    show ?thesis
    proof (cases "slot s c")
      case (Some j)
      with False have "j \<noteq> i" by auto
      from fj [OF this] Some eq fr show ?thesis by (simp add: view_def pins_def)
    qed (use eq fr in \<open>simp add: view_def pins_def\<close>)
  qed
  have "view s' b = view s b" "pins s' b = pins s b + 1"
    using slotb none fi by (simp_all add: view_def pins_def)
  note at_b = this
  have "view s' = view s"
    by (rule ext) (metis at_b(1) other)
  moreover have "pins s' = (pins s)(b := pins s b + 1)"
    by (rule ext) (use at_b(2) other in auto)
  moreover have "handle s i = None" using ok i by (auto simp: handle_def buf_ok_def Let_def)
  moreover have "handle s' = (handle s)(i \<mapsto> b)"
  proof
    fix j show "handle s' j = ((handle s)(i \<mapsto> b)) j"
      using i fi fj [of j] by (cases "j = i") (simp_all add: handle_def)
  qed
  ultimately show ?thesis using r inv' fr
    by (intro exI [of _ i] exI [of _ s']) (simp add: bio_abs_def hold_def)
qed

lemma read_cached:
  assumes inv: "bio_inv s" and slot: "slot s b = Some i" and nh: "b \<notin> ran (handle s)"
    and small: "pins s b < 1000"
  shows "\<exists>i s'. bread ROOTDEV b s = Ret (i, s') \<and> bio_inv s' \<and> handle s i = None \<and>
    bio_abs s' = hold i b (bio_abs s)"
proof -
  note sd = slot_SomeD [OF slot]
  have hi: "handle s i = None"
  proof (rule ccontr)
    assume "handle s i \<noteq> None"
    then obtain c where c: "handle s i = Some c" by blast
    with handle_facts(2) [OF inv c] sd have "c = b" by simp
    with c nh show False by (auto simp: ran_def)
  qed
  then have nl: "\<not> sl_locked (b_lock (bc_buf s i))" using sd by (auto simp: handle_def split: if_splits)
  have ref: "unat (b_refcnt (bc_buf s i)) < 1000" using small pins_of_slot [OF slot] by simp
  define x where "x = bc_buf s i"
  define f where "f = (\<lambda>x::buf. x\<lparr>b_refcnt := b_refcnt x + 1,
     b_lock := (b_lock x)\<lparr>sl_locked := True, sl_pid := cur_pid s\<rparr>,
     b_valid := True, b_data := if b_valid x then b_data x else disk s b\<rparr>)"
  define s' where "s' = upd_buf i f s"
  have g: "bget ROOTDEV b s = Ret (i, upd_buf i (\<lambda>x. x\<lparr>b_refcnt := b_refcnt x + 1,
     b_lock := (b_lock x)\<lparr>sl_locked := True, sl_pid := cur_pid s\<rparr>\<rparr>) s)"
    by (rule bget_hit [OF inv slot nl])
  have r: "bread ROOTDEV b s = Ret (i, s')"
  proof (cases "b_valid (bc_buf s i)")
    case True
    then show ?thesis unfolding s'_def
      by (simp add: bread_def g) (rule upd_buf_eqI, rule buf.equality, simp_all add: f_def)
  next
    case False
    then show ?thesis using sd unfolding s'_def
      by (simp add: bread_def g virtio_disk_rw_def Let_def upd_buf_upd_buf)
        (rule upd_buf_eqI, rule buf.equality, simp_all add: f_def)
  qed
  have fi: "b_dev (bc_buf s' i) = ROOTDEV" "b_blockno (bc_buf s' i) = b" "b_valid (bc_buf s' i)"
      "b_refcnt (bc_buf s' i) = b_refcnt (bc_buf s i) + 1" "b_data (bc_buf s' i) = view s b"
      "sl_locked (b_lock (bc_buf s' i))" "sl_pid (b_lock (bc_buf s' i)) = cur_pid s"
    using sd slot by (simp_all add: s'_def f_def view_def)
  have fj: "bc_buf s' j = bc_buf s j" if "j \<noteq> i" for j using that by (simp add: s'_def)
  have fr: "disk s' = disk s" "writes s' = writes s" "cur_pid s' = cur_pid s"
    by (simp_all add: s'_def)
  have k: "keeps_id f" by (simp add: keeps_id_def f_def)
  have ok: "buf_ok s' i"
    using fi fr unat_Suc_ref(2) [OF ref] by (simp add: buf_ok_def)
  then have inv': "bio_inv s'" unfolding s'_def by (intro bio_inv_upd_buf [OF inv k])
  have slot': "slot s' = slot s" unfolding s'_def by (rule slot_upd_buf [OF k])
  have view: "view s' c = view s c" for c
  proof (cases "slot s c")
    case (Some j)
    show ?thesis
    proof (cases "j = i")
      case True
      with Some slot_SomeD [OF Some] sd have "c = b" by simp
      with slot slot' fi show ?thesis by (simp add: view_def [of s'])
    next
      case False
      from fj [OF this] Some slot' fr show ?thesis by (simp add: view_def)
    qed
  qed (simp add: view_def slot' fr)
  have pins: "pins s' = (pins s)(b := pins s b + 1)"
    using pins_upd_buf [OF k slot] pins_of_slot [OF slot] unat_Suc_ref(1) [OF ref]
    by (simp add: s'_def f_def)
  have "handle s' = (handle s)(i \<mapsto> b)"
  proof
    fix j show "handle s' j = ((handle s)(i \<mapsto> b)) j"
      using sd fi fj [of j] by (cases "j = i") (simp_all add: handle_def)
  qed
  moreover have "view s' = view s" by (rule ext) (rule view)
  ultimately show ?thesis using r inv' pins hi fr
    by (intro exI [of _ i] exI [of _ s']) (simp add: bio_abs_def hold_def)
qed

lemma bio_read_law:
  assumes "bio_inv s" and "room (bio_abs s) b"
  shows "\<exists>i s'. bread ROOTDEV b s = Ret (i, s') \<and> bio_inv s' \<and> handle s i = None \<and>
    bio_abs s' = hold i b (bio_abs s)"
proof (cases "slot s b")
  case None
  then have "pins s b = 0" by (simp add: pins_def)
  with assms(2) have "card {c. pins s c > 0} < NBUF" by (auto simp: room_def)
  from read_uncached [OF assms(1) None free_buffer [OF assms(1) this]] show ?thesis .
next
  case (Some i)
  with read_cached [OF assms(1) Some] assms(2) show ?thesis by (auto simp: room_def)
qed

interpretation bio: block_cache "bread ROOTDEV" bwrite brelse bpin bunpin get_data put_data bio_inv bio_abs
proof unfold_locales
  show "\<exists>i s'. bread ROOTDEV b s = Ret (i, s') \<and> bio_inv s' \<and> a_held (bio_abs s) i = None \<and>
      bio_abs s' = hold i b (bio_abs s)" if "bio_inv s" "room (bio_abs s) b" for s b
    using bio_read_law [OF that] by simp
qed (auto intro: bio_write_law bio_release_law bio_get_law handle_inj
  simp: bio_pin_law bio_unpin_law bio_put_law)

section \<open>Initialisation and replacement order\<close>

text \<open>The statically allocated cache before binit(): every field is zero.\<close>

definition zero_buf :: buf where
  "zero_buf = \<lparr>b_valid = False, b_dev = 0, b_blockno = 0, b_lock = initsleeplock, b_refcnt = 0,
     b_data = (\<lambda>_. 0)\<rparr>"

definition bss_cache :: "(u32 \<Rightarrow> bytes) \<Rightarrow> int \<Rightarrow> bcache" where
  "bss_cache d pid = \<lparr>bc_buf = (\<lambda>_. zero_buf), bc_prev = (\<lambda>_. 0), bc_next = (\<lambda>_. 0), disk = d,
     writes = [], cur_pid = pid\<rparr>"

definition lru :: "bcache \<Rightarrow> nat list \<Rightarrow> bool" where
  "lru s xs \<longleftrightarrow> dll (bc_next s) (bc_prev s) bhead xs \<and> set xs = {0..<NBUF}"

lemma binit_fold:
  assumes "dll (bc_next s) (bc_prev s) bhead []" and "k \<le> NBUF"
  shows "dll (bc_next (fold (\<lambda>b s. link_front b (upd_buf b g s)) [0..<k] s))
      (bc_prev (fold (\<lambda>b s. link_front b (upd_buf b g s)) [0..<k] s)) bhead (rev [0..<k])"
  using assms(2)
proof (induction k)
  case (Suc k)
  let ?s = "fold (\<lambda>b s. link_front b (upd_buf b g s)) [0..<k] s"
  have "dll (bc_next ?s) (bc_prev ?s) bhead (rev [0..<k])" using Suc by simp
  moreover have "k \<notin> set (bhead # rev [0..<k])" using Suc.prems by auto
  ultimately show ?case using dll_push [of "bc_next ?s" "bc_prev ?s" bhead "rev [0..<k]" k]
    by (simp add: link_front_def)
qed (use assms(1) in simp)

lemma binit_bufs:
  "g zero_buf = zero_buf \<Longrightarrow> bc_buf s = (\<lambda>_. zero_buf) \<Longrightarrow>
   bc_buf (fold (\<lambda>b s. link_front b (upd_buf b g s)) xs s) = (\<lambda>_. zero_buf) \<and>
   disk (fold (\<lambda>b s. link_front b (upd_buf b g s)) xs s) = disk s \<and>
   writes (fold (\<lambda>b s. link_front b (upd_buf b g s)) xs s) = writes s \<and>
   cur_pid (fold (\<lambda>b s. link_front b (upd_buf b g s)) xs s) = cur_pid s"
proof (induction xs arbitrary: s)
  case (Cons x xs)
  have "bc_buf (link_front x (upd_buf x g s)) = (\<lambda>_. zero_buf)"
    using Cons.prems by (simp add: fun_eq_iff)
  from Cons.IH [OF Cons.prems(1) this] show ?case by simp
qed simp

lemma binit_bss:
  "lru (binit (bss_cache d pid)) (rev [0..<NBUF])"
  "bc_buf (binit (bss_cache d pid)) = (\<lambda>_. zero_buf)"
  "disk (binit (bss_cache d pid)) = d" "writes (binit (bss_cache d pid)) = []"
  "cur_pid (binit (bss_cache d pid)) = pid"
proof -
  let ?g = "\<lambda>x::buf. x\<lparr>b_lock := initsleeplock\<rparr>"
  define s0 where "s0 = (bss_cache d pid)\<lparr>bc_prev := (bc_prev (bss_cache d pid))(bhead := bhead),
    bc_next := (bc_next (bss_cache d pid))(bhead := bhead)\<rparr>"
  have b: "binit (bss_cache d pid) = fold (\<lambda>b s. link_front b (upd_buf b ?g s)) [0..<NBUF] s0"
    by (simp only: binit_def s0_def Let_def)
  have "dll (bc_next s0) (bc_prev s0) bhead []" by (simp add: s0_def dll_def)
  from binit_fold [OF this, of NBUF ?g] show "lru (binit (bss_cache d pid)) (rev [0..<NBUF])"
    unfolding b lru_def by (simp only: set_rev set_upt)
  have "?g zero_buf = zero_buf" by (simp add: zero_buf_def)
  moreover have "bc_buf s0 = (\<lambda>_. zero_buf)" by (simp add: s0_def bss_cache_def)
  ultimately have f: "bc_buf (binit (bss_cache d pid)) = (\<lambda>_. zero_buf) \<and>
      disk (binit (bss_cache d pid)) = disk s0 \<and> writes (binit (bss_cache d pid)) = writes s0 \<and>
      cur_pid (binit (bss_cache d pid)) = cur_pid s0"
    unfolding b by (rule binit_bufs)
  then show "bc_buf (binit (bss_cache d pid)) = (\<lambda>_. zero_buf)"
    "disk (binit (bss_cache d pid)) = d" "writes (binit (bss_cache d pid)) = []"
    "cur_pid (binit (bss_cache d pid)) = pid"
    by (simp_all add: s0_def bss_cache_def)
qed

lemma binit_inv: "bio_inv (binit (bss_cache d pid))"
proof -
  let ?s = "binit (bss_cache d pid)"
  have "lru_ok ?s" using binit_bss(1) unfolding lru_ok_def lru_def by blast
  moreover have "one_slot ?s" by (simp add: one_slot_def binit_bss zero_buf_def)
  moreover have "buf_ok ?s i" for i
    by (simp add: buf_ok_def binit_bss zero_buf_def initsleeplock_def)
  ultimately show ?thesis by (simp add: bio_inv_def)
qed

lemma binit_abs:
  "bio_abs (binit (bss_cache d pid)) =
     \<lparr>a_view = d, a_disk = d, a_writes = [], a_pins = (\<lambda>_. 0), a_held = (\<lambda>_. None)\<rparr>"
proof -
  let ?s = "binit (bss_cache d pid)"
  have "slot ?s b = None" for b by (simp add: slot_None_iff binit_bss zero_buf_def)
  then show ?thesis
    by (simp add: bio_abs_def view_def pins_def handle_def binit_bss zero_buf_def
        initsleeplock_def fun_eq_iff)
qed

lemma lru_scans:
  assumes "lru s xs"
  shows "link_scan (bc_next s) P bhead walk_fuel (bc_next s bhead) = Ret (find P xs)"
    and "link_scan (bc_prev s) P bhead walk_fuel (bc_prev s bhead) = Ret (find P (rev xs))"
proof -
  have d: "dll (bc_next s) (bc_prev s) bhead xs" "set xs = {0..<NBUF}" "distinct xs"
    using assms by (auto simp: lru_def dll_def)
  then have "length xs < walk_fuel" using distinct_card [of xs] by simp
  then show "link_scan (bc_next s) P bhead walk_fuel (bc_next s bhead) = Ret (find P xs)"
    "link_scan (bc_prev s) P bhead walk_fuel (bc_prev s bhead) = Ret (find P (rev xs))"
    using link_scan_dll [OF d(1)] link_scan_dll_back [OF d(1)] by blast+
qed

lemma lru_move_front:
  assumes "lru s xs" and "i < NBUF"
  shows "lru (link_front i (unlink_buf i s)) (i # remove1 i xs)"
proof -
  from assms obtain us vs where uv: "xs = us @ i # vs" "i \<notin> set us"
    by (metis atLeastLessThan_iff le0 lru_def split_list_first)
  have d: "dll (bc_next s) (bc_prev s) bhead (us @ i # vs)" using assms uv by (simp add: lru_def)
  have u: "dll (bc_next (unlink_buf i s)) (bc_prev (unlink_buf i s)) bhead (us @ vs)"
    using dll_unlink [OF d] by (simp add: unlink_buf_def)
  have "i \<notin> set (bhead # us @ vs)" using d assms(2) by (auto simp: dll_def)
  from dll_push [OF u this] uv assms show ?thesis
    by (auto simp: link_front_def lru_def remove1_append)
qed

text \<open>When block \<open>b\<close> is not cached, bget() takes the first unreferenced buffer from the end of the list.\<close>

lemma bget_takes_last:
  assumes "bio_inv s" and "lru s xs" and "slot s b = None"
    and "find (\<lambda>i. b_refcnt (bc_buf s i) = 0) (rev xs) = Some i"
  shows "\<exists>s'. bget ROOTDEV b s = Ret (i, s') \<and> lru s' xs \<and> b_blockno (bc_buf s' i) = b \<and>
    handle s' i = Some b \<and> (\<forall>j. j \<noteq> i \<longrightarrow> bc_buf s' j = bc_buf s j)"
proof -
  have xs: "set xs = {0..<NBUF}" using assms(2) by (simp add: lru_def)
  have "find (\<lambda>i. b_dev (bc_buf s i) = ROOTDEV \<and> b_blockno (bc_buf s i) = b) xs = None"
    using assms(3) xs by (auto simp: find_None_iff slot_None_iff)
  with lru_scans [OF assms(2)] assms(4)
  have g: "bget ROOTDEV b s = block_lock i (upd_buf i (\<lambda>x. x\<lparr>b_dev := ROOTDEV, b_blockno := b,
      b_valid := False, b_refcnt := 1\<rparr>) s)"
    unfolding bget_def by simp
  have i: "i < NBUF" "b_refcnt (bc_buf s i) = 0" using find_in [OF assms(4)] xs by auto
  then have "\<not> sl_locked (b_lock (bc_buf s i))"
    using assms(1) by (auto simp: bio_inv_def buf_ok_def Let_def)
  with g i assms(2) show ?thesis by (simp add: block_lock_def handle_def lru_def)
qed

text \<open>
  The uses of the cache since binit(), with the buffers whose last reference brelse() has dropped, in
  the order in which it did. A call that would panic or wait, for a buffer or for its lock, is no
  step.
\<close>

inductive cache_run :: "(u32 \<Rightarrow> bytes) \<Rightarrow> int \<Rightarrow> nat list \<Rightarrow> bcache \<Rightarrow> bool" for d pid where
  start: "cache_run d pid [] (binit (bss_cache d pid))"
| read: "\<lbrakk>cache_run d pid h s; room (bio_abs s) b; bread ROOTDEV b s = Ret (i, s')\<rbrakk> \<Longrightarrow> cache_run d pid h s'"
| change: "\<lbrakk>cache_run d pid h s; handle s i = Some b\<rbrakk> \<Longrightarrow> cache_run d pid h (put_data i x s)"
| store: "\<lbrakk>cache_run d pid h s; handle s i = Some b; bwrite i s = Ret s'\<rbrakk> \<Longrightarrow> cache_run d pid h s'"
| pin: "\<lbrakk>cache_run d pid h s; handle s i = Some b; pins s b < 1000\<rbrakk> \<Longrightarrow> cache_run d pid h (bpin i s)"
| unpin: "\<lbrakk>cache_run d pid h s; handle s i = Some b; pins s b > 1\<rbrakk> \<Longrightarrow> cache_run d pid h (bunpin i s)"
| release: "\<lbrakk>cache_run d pid h s; handle s i = Some b; droppable (bio_abs s) b; brelse i s = Ret s'\<rbrakk> \<Longrightarrow>
    cache_run d pid (if b_refcnt (bc_buf s' i) = 0 then h @ [i] else h) s'"

text \<open>The buffers by their last release, the oldest first; those never released come first.\<close>

definition by_release :: "nat list \<Rightarrow> nat list" where
  "by_release h = remdups ([0..<NBUF] @ h)"

lemma remdups_snoc: "remdups (xs @ [x]) = filter (\<lambda>y. y \<noteq> x) (remdups xs) @ [x]"
  by (induction xs) auto

lemma same_links: "\<lbrakk>lru s xs; bc_next s' = bc_next s; bc_prev s' = bc_prev s\<rbrakk> \<Longrightarrow> lru s' xs"
  by (simp add: lru_def)

lemma disk_rw_links [simp]:
  "bc_next (virtio_disk_rw i wr s) = bc_next s" "bc_prev (virtio_disk_rw i wr s) = bc_prev s"
  by (simp_all add: virtio_disk_rw_def Let_def)

lemma block_lock_links: "block_lock i s = Ret (j, s') \<Longrightarrow> bc_next s' = bc_next s \<and> bc_prev s' = bc_prev s"
  by (auto simp: block_lock_def outcome_simps)

lemma bread_links:
  assumes "bread dev b s = Ret (i, s')"
  shows "bc_next s' = bc_next s" "bc_prev s' = bc_prev s"
proof -
  obtain j t where t: "bget dev b s = Ret (j, t)" "bc_next s' = bc_next t" "bc_prev s' = bc_prev t"
    using assms by (auto simp: bread_def outcome_simps split: if_splits)
  then have "bc_next t = bc_next s \<and> bc_prev t = bc_prev s"
    by (auto simp: bget_def outcome_simps dest!: block_lock_links split: option.splits)
  with t show "bc_next s' = bc_next s" "bc_prev s' = bc_prev s" by simp_all
qed

lemma brelse_cases:
  assumes "brelse i s = Ret s'"
  obtains t where "bc_next t = bc_next s" "bc_prev t = bc_prev s"
    "s' = (if b_refcnt (bc_buf s' i) = 0 then link_front i (unlink_buf i t) else t)"
    "\<And>j. j \<noteq> i \<Longrightarrow> bc_buf s' j = bc_buf s j"
  by (rule that [of "upd_buf i (\<lambda>b. b\<lparr>b_refcnt := b_refcnt b - 1\<rparr>) (upd_buf i (\<lambda>b. b\<lparr>b_lock := releasesleep (b_lock b)\<rparr>) s)"])
    (use assms in \<open>auto simp: brelse_def Let_def split: if_splits\<close>)

lemma cache_run_inv:
  "cache_run d pid h s \<Longrightarrow> bio_inv s \<and> lru s (rev (by_release h))"
proof (induction rule: cache_run.induct)
  case start
  have "remdups [0..<NBUF] = [0..<NBUF]" by (simp add: distinct_remdups_id)
  then show ?case using binit_inv binit_bss(1) by (simp add: by_release_def)
next
  case (read h s b i s')
  then have "bio_inv s'" using bio.read_law [of s b] by auto
  with read show ?case using bread_links same_links by blast
next
  case (change h s i b x)
  then show ?case using bio_put_law [of s i b x] by (auto intro: same_links simp: put_data_def)
next
  case (store h s i b s')
  then have "bio_inv s'" using bio_write_law [of s i b] by auto
  moreover have "s' = virtio_disk_rw i True s" using store(3) by (simp add: bwrite_def split: if_splits)
  ultimately show ?case using store(4) by (auto intro: same_links)
next
  case (pin h s i b)
  then show ?case using bio_pin_law [of s i b] by (auto intro: same_links simp: bpin_def)
next
  case (unpin h s i b)
  then show ?case using bio_unpin_law [of s i b] by (auto intro: same_links simp: bunpin_def)
next
  case (release h s i b s')
  have i: "i < NBUF" using release(2) by (simp add: handle_def split: if_splits)
  have "bio_inv s'" using bio_release_law [of s i b] release by auto
  moreover obtain t where t: "bc_next t = bc_next s" "bc_prev t = bc_prev s"
    "s' = (if b_refcnt (bc_buf s' i) = 0 then link_front i (unlink_buf i t) else t)"
    by (rule brelse_cases [OF release(4)])
  have l: "lru t (rev (by_release h))" using release(5) t(1,2) by (blast intro: same_links)
  have "lru s' (rev (by_release (h @ [i])))" if "b_refcnt (bc_buf s' i) = 0"
  proof -
    have "by_release (h @ [i]) = filter (\<lambda>y. y \<noteq> i) (by_release h) @ [i]"
      unfolding by_release_def append_assoc [symmetric] by (rule remdups_snoc)
    moreover have "distinct (by_release h)" by (simp add: by_release_def)
    then have "remove1 i (rev (by_release h)) = rev (filter (\<lambda>y. y \<noteq> i) (by_release h))"
      by (simp add: distinct_remove1_removeAll removeAll_filter_not_eq rev_filter eq_commute)
    ultimately have "rev (by_release (h @ [i])) = i # remove1 i (rev (by_release h))" by simp
    with lru_move_front [OF l i] t(3) that show ?thesis by simp
  qed
  ultimately show ?case using l t(3) by auto
qed

text \<open>
  C25. However the cache has been used since binit(), when block \<open>b\<close> is not cached bget() gives it the
  unreferenced buffer that was released longest ago: of the buffers in the order of the last brelse()
  that dropped their last reference, those never used first, it is the first one that is
  free, and no other buffer changes.
\<close>

theorem bget_recycles_lru:
  assumes "cache_run d pid h s" and "slot s b = None"
    and "find (\<lambda>i. b_refcnt (bc_buf s i) = 0) (by_release h) = Some i"
  shows "\<exists>s'. bget ROOTDEV b s = Ret (i, s') \<and> b_blockno (bc_buf s' i) = b \<and>
    handle s' i = Some b \<and> (\<forall>j. j \<noteq> i \<longrightarrow> bc_buf s' j = bc_buf s j)"
proof -
  from cache_run_inv [OF assms(1)] have v: "bio_inv s" and l: "lru s (rev (by_release h))" by blast+
  have "find (\<lambda>i. b_refcnt (bc_buf s i) = 0) (rev (rev (by_release h))) = Some i" using assms(3) by simp
  from bget_takes_last [OF v l assms(2) this] show ?thesis by blast
qed

text \<open>After reading block 5 into buffer 0 and releasing it, block 6 gets buffer 1.\<close>

theorem bget_recycles_lru_witness:
  "\<exists>s s'. cache_run (\<lambda>_ _. 0) 1 [0] s \<and> bget ROOTDEV 6 s = Ret (1, s') \<and> handle s' 1 = Some 6"
proof -
  let ?s = "binit (bss_cache (\<lambda>_ _. 0) 1)"
  have st: "cache_run (\<lambda>_ _. 0) 1 [] ?s" by (rule cache_run.start)
  have n: "slot ?s 5 = None" by (simp add: slot_None_iff binit_bss zero_buf_def)
  have "find (\<lambda>i. b_refcnt (bc_buf ?s i) = 0) (rev (rev [0..<NBUF])) = Some 0"
    by (simp add: binit_bss zero_buf_def upt_conv_Cons)
  from bget_takes_last [OF binit_inv binit_bss(1) n this] obtain t where
    t: "bget ROOTDEV 5 ?s = Ret (0, t)" "handle t 0 = Some 5" "\<And>j. j \<noteq> 0 \<Longrightarrow> bc_buf t j = zero_buf"
    by (auto simp: binit_bss)
  define s1 where "s1 = (if \<not> b_valid (bc_buf t 0)
    then upd_buf 0 (\<lambda>b. b\<lparr>b_valid := True\<rparr>) (virtio_disk_rw 0 False t) else t)"
  have r: "bread ROOTDEV 5 ?s = Ret (0, s1)" by (simp add: bread_def t(1) s1_def)
  have b1: "bc_buf s1 j = zero_buf" if "j \<noteq> 0" for j
    using t(3) that by (simp add: s1_def virtio_disk_rw_def Let_def upd_buf_def)
  have room: "room (bio_abs ?s) 5" by (simp add: room_def binit_abs del: bio_abs_sel)
  have c1: "cache_run (\<lambda>_ _. 0) 1 [] s1" by (rule cache_run.read [OF st room r])
  from bio.read_law [OF binit_inv room] r have
    a1: "bio_inv s1" "bio_abs s1 = hold 0 5 (bio_abs ?s)" by (auto simp del: bio_abs_sel)
  have "droppable (bio_abs s1) 5" unfolding a1(2) by (simp add: droppable_def binit_abs del: bio_abs_sel)
  moreover have h1: "handle s1 0 = Some 5" using arg_cong [OF a1(2), of a_held] by simp
  ultimately obtain s2 where s2: "brelse 0 s1 = Ret s2" "bio_abs s2 = unhold 0 5 (bio_abs s1)"
    using bio_release_law [OF a1(1)] by blast
  have b2: "bc_buf s2 j = zero_buf" if "j \<noteq> 0" for j
    by (rule brelse_cases [OF s2(1)]) (use b1 that in simp)
  have c2: "cache_run (\<lambda>_ _. 0) 1 (if b_refcnt (bc_buf s2 0) = 0 then [0] else []) s2"
    using cache_run.release [OF c1 h1 \<open>droppable (bio_abs s1) 5\<close> s2(1)] by (simp only: append_Nil)
  have "pins s1 5 = 1" using arg_cong [OF a1(2), of a_pins] by (simp add: binit_abs del: bio_abs_sel) (simp)
  then have "b_refcnt (bc_buf s1 0) = 1"
    using pins_of_slot [OF handle_facts(6) [OF a1(1) h1]] by (simp add: word_unat_eq_iff)
  then have z: "b_refcnt (bc_buf s2 0) = 0 \<and> b_blockno (bc_buf s2 0) = 5"
    using s2(1) h1 by (auto simp: brelse_def Let_def handle_def split: if_splits)
  have "\<not> (b_dev (bc_buf s2 j) = ROOTDEV \<and> b_blockno (bc_buf s2 j) = 6)" for j
    using b2 [of j] z by (cases "j = 0") (simp_all add: zero_buf_def)
  then have "slot s2 6 = None" by (auto simp: slot_None_iff)
  moreover have "by_release [0] = [1..<NBUF] @ [0]" unfolding by_release_def by (simp add: upt_conv_Cons)
  then have "find (\<lambda>i. b_refcnt (bc_buf s2 i) = 0) (by_release [0]) = Some 1"
    using b2 [of 1] by (simp add: zero_buf_def upt_conv_Cons)
  moreover have "cache_run (\<lambda>_ _. 0) 1 [0] s2" using c2 z by simp
  ultimately show ?thesis using bget_recycles_lru by blast
qed

text \<open>
  C24. bread() returns the locked buffer of the block with the block's contents and changes what no
  block reads as, whether the block was cached, cached but not valid, or had to displace another.
\<close>

theorem bread_contents:
  assumes "bio_inv s" and "room (bio_abs s) b"
  shows "\<exists>i s'. bread ROOTDEV b s = Ret (i, s') \<and> bio_inv s' \<and> get_data i s' = view s b \<and>
    handle s i = None \<and> handle s' = (handle s)(i \<mapsto> b) \<and> view s' = view s \<and> disk s' = disk s \<and>
    writes s' = writes s"
proof -
  obtain i s' where r: "bread ROOTDEV b s = Ret (i, s')" "bio_inv s'" "a_held (bio_abs s) i = None"
    "bio_abs s' = hold i b (bio_abs s)"
    using bio.read_law [OF assms] by blast
  have "get_data i s' = a_view (bio_abs s') b" by (rule bio.get_law [OF r(2)]) (simp add: r(4) del: bio_abs_sel)
  then have "get_data i s' = view s b" by (simp add: r(4) del: bio_abs_sel) (simp)
  moreover have "view s' = view s" "disk s' = disk s" "writes s' = writes s"
    "handle s' = (handle s)(i \<mapsto> b)"
    using arg_cong [OF r(4), of a_view] arg_cong [OF r(4), of a_disk] arg_cong [OF r(4), of a_writes]
      arg_cong [OF r(4), of a_held] by simp_all
  ultimately show ?thesis using r(1-3) by auto
qed

theorem bread_contents_witness:
  "\<exists>i s'. bread ROOTDEV 5 (binit (bss_cache (\<lambda>b _. ucast b) 1)) = Ret (i, s') \<and> get_data i s' 0 = 5"
proof -
  let ?s = "binit (bss_cache (\<lambda>b _. ucast b) 1)"
  have "room (bio_abs ?s) 5" by (simp add: room_def binit_abs del: bio_abs_sel)
  from bread_contents [OF binit_inv this] obtain i s' where
    "bread ROOTDEV 5 ?s = Ret (i, s')" "get_data i s' = view ?s 5" by blast
  moreover have "view ?s 5 = (\<lambda>_. 5)" using arg_cong [OF binit_abs, of a_view] by (simp add: fun_eq_iff)
  ultimately show ?thesis by auto
qed

text \<open>
  C23. Modifying a block through the cache: after bread(), a change of the data, bwrite() and
  brelse(), the block reads as the new contents and is on the disk, and nothing else changed.
\<close>

theorem bwrite_through:
  assumes "bio_inv s" and "room (bio_abs s) b"
  shows "\<exists>i s1 s2 s3. bread ROOTDEV b s = Ret (i, s1) \<and> bwrite i (put_data i x s1) = Ret s2 \<and>
    brelse i s2 = Ret s3 \<and> bio_inv s3 \<and> view s3 = (view s)(b := x) \<and> disk s3 = (disk s)(b := x) \<and>
    writes s3 = writes s @ [(b, x)] \<and> handle s3 = handle s \<and> pins s3 = pins s"
proof -
  obtain i s1 where "bread ROOTDEV b s = Ret (i, s1)"
    and "\<exists>s2 s3. bwrite i (put_data i x s1) = Ret s2 \<and> brelse i s2 = Ret s3 \<and>
        bio_inv s3 \<and> bio_abs s3 = flush b (see b x (bio_abs s))"
    using bio.read_put_write_release [OF assms] by metis
  then obtain s2 s3 where r: "bwrite i (put_data i x s1) = Ret s2" "brelse i s2 = Ret s3" "bio_inv s3"
      "bio_abs s3 = flush b (see b x (bio_abs s))" "bread ROOTDEV b s = Ret (i, s1)" by blast
  have "view s3 = (view s)(b := x)" "disk s3 = (disk s)(b := x)" "pins s3 = pins s"
    "writes s3 = writes s @ [(b, x)]" "handle s3 = handle s"
    using arg_cong [OF r(4), of a_view] arg_cong [OF r(4), of a_disk] arg_cong [OF r(4), of a_writes]
      arg_cong [OF r(4), of a_held] arg_cong [OF r(4), of a_pins] by simp_all
  with r show ?thesis by blast
qed

theorem bwrite_through_witness:
  "\<exists>i s1 s2 s3. bread ROOTDEV 5 (binit (bss_cache (\<lambda>_ _. 0) 1)) = Ret (i, s1) \<and>
     bwrite i (put_data i (\<lambda>_. 9) s1) = Ret s2 \<and> brelse i s2 = Ret s3 \<and> disk s3 5 7 = 9 \<and> disk s3 6 7 = 0"
proof -
  let ?s = "binit (bss_cache (\<lambda>_ _. 0) 1)"
  have "room (bio_abs ?s) 5" by (simp add: room_def binit_abs del: bio_abs_sel)
  from bwrite_through [OF binit_inv this, of "\<lambda>_. 9"] obtain i s1 s2 s3 where
    "bread ROOTDEV 5 ?s = Ret (i, s1)" "bwrite i (put_data i (\<lambda>_. 9) s1) = Ret s2"
    "brelse i s2 = Ret s3" "disk s3 = (disk ?s)(5 := \<lambda>_. 9)" by blast
  then show ?thesis by (auto simp: binit_bss)
qed

end
