(* ===== verification/Xv6_Log.thy ===== *)
theory Xv6_Log
  imports Xv6_Bio
begin

text \<open>
  The redo log of kernel/log.c over the buffer cache. \<open>log.lock\<close> makes the critical sections of
  begin_op, end_op and log_write atomic; a process that would sleep on the log is \<open>Blocked\<close>.
  \<open>struct logheader\<close> is the count followed by \<open>LOGSIZE\<close> block numbers, both in memory and at the
  start of the header block. An index past \<open>LOGSIZE\<close> is out of the array's bounds: \<open>Undef\<close>.
\<close>

section \<open>State and operations\<close>

record xlog =
  lg_bc :: bcache
  lg_start :: u32
  lg_size :: int
  lg_outstanding :: int
  lg_committing :: bool
  lg_dev :: u32
  lg_n :: int
  lg_block :: "nat \<Rightarrow> u32"

abbreviation log_blocks :: nat where "log_blocks \<equiv> 30"

definition logheader_size :: nat where "logheader_size = 4 + 4 * log_blocks"

text \<open>The loop of install_trans: \<open>k\<close> iterations are left, the next one is \<open>tail\<close>.\<close>

fun install_loop :: "u32 \<Rightarrow> u32 \<Rightarrow> (nat \<Rightarrow> u32) \<Rightarrow> bool \<Rightarrow> nat \<Rightarrow> nat \<Rightarrow> bcache \<Rightarrow> bcache outcome" where
  "install_loop dev start blk recovering 0 tail s = Ret s"
| "install_loop dev start blk recovering (Suc k) tail s =
     (if log_blocks \<le> tail then Fail Undef
      else obind (bread dev (start + of_nat tail + 1) s) (\<lambda>(l, s).
           obind (bread dev (blk tail) s) (\<lambda>(d, s).
           let s = put_data d (get_data l s) s in
           obind (bwrite d s) (\<lambda>s.
           let s = (if recovering then s else bunpin d s) in
           obind (brelse l s) (\<lambda>s.
           obind (brelse d s) (\<lambda>s.
           install_loop dev start blk recovering k (Suc tail) s))))))"

definition install_trans :: "bool \<Rightarrow> xlog \<Rightarrow> xlog outcome" where
  "install_trans recovering s =
     obind (install_loop (lg_dev s) (lg_start s) (lg_block s) recovering (nat (lg_n s)) 0 (lg_bc s))
       (\<lambda>bc. Ret (s\<lparr>lg_bc := bc\<rparr>))"

fun head_in :: "bytes \<Rightarrow> nat \<Rightarrow> nat \<Rightarrow> (nat \<Rightarrow> u32) \<Rightarrow> (nat \<Rightarrow> u32) outcome" where
  "head_in lh 0 i blk = Ret blk"
| "head_in lh (Suc k) i blk =
     (if log_blocks \<le> i then Fail Undef
      else head_in lh k (Suc i) (blk(i := load32 lh (4 + 4 * i))))"

definition read_head :: "xlog \<Rightarrow> xlog outcome" where
  "read_head s =
     obind (bread (lg_dev s) (lg_start s) (lg_bc s)) (\<lambda>(i, bc).
       let lh = get_data i bc; n = sint (load32 lh 0) in
       obind (head_in lh (nat n) 0 (lg_block s)) (\<lambda>blk.
       obind (brelse i bc) (\<lambda>bc.
       Ret (s\<lparr>lg_bc := bc, lg_n := n, lg_block := blk\<rparr>))))"

fun head_out :: "(nat \<Rightarrow> u32) \<Rightarrow> nat \<Rightarrow> nat \<Rightarrow> bytes \<Rightarrow> bytes outcome" where
  "head_out blk 0 i hb = Ret hb"
| "head_out blk (Suc k) i hb =
     (if log_blocks \<le> i then Fail Undef
      else head_out blk k (Suc i) (store32 hb (4 + 4 * i) (blk i)))"

definition write_head :: "xlog \<Rightarrow> xlog outcome" where
  "write_head s =
     obind (bread (lg_dev s) (lg_start s) (lg_bc s)) (\<lambda>(i, bc).
       obind (head_out (lg_block s) (nat (lg_n s)) 0
           (store32 (get_data i bc) 0 (word_of_int (lg_n s)))) (\<lambda>hb.
       obind (bwrite i (put_data i hb bc)) (\<lambda>bc.
       obind (brelse i bc) (\<lambda>bc.
       Ret (s\<lparr>lg_bc := bc\<rparr>)))))"

definition recover_from_log :: "xlog \<Rightarrow> xlog outcome" where
  "recover_from_log s =
     obind (read_head s) (\<lambda>s.
     obind (install_trans True s) (\<lambda>s.
     write_head (s\<lparr>lg_n := 0\<rparr>)))"

definition initlog :: "u32 \<Rightarrow> u32 \<Rightarrow> u32 \<Rightarrow> xlog \<Rightarrow> xlog outcome" where
  "initlog dev logstart nlog s =
     (if BSIZE \<le> logheader_size then opanic ''initlog: too big logheader''
      else recover_from_log (s\<lparr>lg_start := logstart, lg_size := sint nlog, lg_dev := dev\<rparr>))"

definition begin_op :: "xlog \<Rightarrow> xlog outcome" where
  "begin_op s =
     (if lg_committing s then Fail Blocked
      else if lg_n s + (lg_outstanding s + 1) * MAXOPBLOCKS > LOGSIZE then Fail Blocked
      else Ret (s\<lparr>lg_outstanding := lg_outstanding s + 1\<rparr>))"

fun write_log_loop :: "u32 \<Rightarrow> u32 \<Rightarrow> (nat \<Rightarrow> u32) \<Rightarrow> nat \<Rightarrow> nat \<Rightarrow> bcache \<Rightarrow> bcache outcome" where
  "write_log_loop dev start blk 0 tail s = Ret s"
| "write_log_loop dev start blk (Suc k) tail s =
     (if log_blocks \<le> tail then Fail Undef
      else obind (bread dev (start + of_nat tail + 1) s) (\<lambda>(t, s).
           obind (bread dev (blk tail) s) (\<lambda>(f, s).
           obind (bwrite t (put_data t (get_data f s) s)) (\<lambda>s.
           obind (brelse f s) (\<lambda>s.
           obind (brelse t s) (\<lambda>s.
           write_log_loop dev start blk k (Suc tail) s))))))"

definition write_log :: "xlog \<Rightarrow> xlog outcome" where
  "write_log s =
     obind (write_log_loop (lg_dev s) (lg_start s) (lg_block s) (nat (lg_n s)) 0 (lg_bc s))
       (\<lambda>bc. Ret (s\<lparr>lg_bc := bc\<rparr>))"

definition commit :: "xlog \<Rightarrow> xlog outcome" where
  "commit s =
     (if lg_n s > 0 then
        obind (write_log s) (\<lambda>s.
        obind (write_head s) (\<lambda>s.
        obind (install_trans False s) (\<lambda>s.
        write_head (s\<lparr>lg_n := 0\<rparr>))))
      else Ret s)"

definition end_op :: "xlog \<Rightarrow> xlog outcome" where
  "end_op s =
     (let s1 = s\<lparr>lg_outstanding := lg_outstanding s - 1\<rparr> in
      if lg_committing s1 then opanic ''log.committing''
      else if lg_outstanding s1 = 0 then
        obind (commit (s1\<lparr>lg_committing := True\<rparr>)) (\<lambda>s2.
        Ret (s2\<lparr>lg_committing := False\<rparr>))
      else Ret s1)"

definition log_write :: "nat \<Rightarrow> xlog \<Rightarrow> xlog outcome" where
  "log_write b s =
     (if lg_n s \<ge> LOGSIZE \<or> lg_n s \<ge> lg_size s - 1 then opanic ''too big a transaction''
      else if lg_outstanding s < 1 then opanic ''log_write outside of trans''
      else
        let blockno = b_blockno (bc_buf (lg_bc s) b);
            found = scan (\<lambda>i. lg_block s i = blockno) 0 (nat (lg_n s))
        in case found of
             Some i \<Rightarrow> Ret (s\<lparr>lg_block := (lg_block s)(i := blockno)\<rparr>)
           | None \<Rightarrow> Ret (s\<lparr>lg_block := (lg_block s)(nat (lg_n s) := blockno),
               lg_bc := bpin b (lg_bc s), lg_n := lg_n s + 1\<rparr>))"

section \<open>The header\<close>

text \<open>What head_in and head_out compute: the first \<open>k\<close> entries.\<close>

lemma head_in_eq:
  "i + k \<le> log_blocks \<Longrightarrow>
   head_in lh k i blk = Ret (\<lambda>j. if i \<le> j \<and> j < i + k then load32 lh (4 + 4 * j) else blk j)"
proof (induction k arbitrary: i blk)
  case 0
  show ?case by (auto intro!: ext)
next
  case (Suc k)
  then have "head_in lh (Suc k) i blk = Ret (\<lambda>j. if Suc i \<le> j \<and> j < Suc i + k
      then load32 lh (4 + 4 * j) else (blk(i := load32 lh (4 + 4 * i))) j)"
    by simp
  also have "(\<lambda>j. if Suc i \<le> j \<and> j < Suc i + k
      then load32 lh (4 + 4 * j) else (blk(i := load32 lh (4 + 4 * i))) j)
     = (\<lambda>j. if i \<le> j \<and> j < i + Suc k then load32 lh (4 + 4 * j) else blk j)"
    by (rule ext) auto
  finally show ?case .
qed

lemma head_out_load:
  "i + k \<le> log_blocks \<Longrightarrow> \<exists>hb'. head_out blk k i hb = Ret hb' \<and>
     (\<forall>j. i \<le> j \<and> j < i + k \<longrightarrow> load32 hb' (4 + 4 * j) = blk j) \<and>
     (\<forall>a. a < 4 + 4 * i \<longrightarrow> hb' a = hb a)"
proof (induction k arbitrary: i hb)
  case (Suc k)
  let ?hb = "store32 hb (4 + 4 * i) (blk i)"
  from Suc obtain hb' where h: "head_out blk k (Suc i) ?hb = Ret hb'"
    "\<forall>j. Suc i \<le> j \<and> j < Suc i + k \<longrightarrow> load32 hb' (4 + 4 * j) = blk j"
    "\<forall>a. a < 4 + 4 * Suc i \<longrightarrow> hb' a = ?hb a"
    using Suc.IH [of "Suc i" ?hb] by auto
  have "load32 hb' (4 + 4 * i) = load32 ?hb (4 + 4 * i)"
    by (rule load32_cong) (use h(3) in auto)
  then have "load32 hb' (4 + 4 * i) = blk i" by simp
  with h(2) have "\<forall>j. i \<le> j \<and> j < i + Suc k \<longrightarrow> load32 hb' (4 + 4 * j) = blk j"
    by (metis Suc_leI add_Suc add_Suc_right le_neq_implies_less)
  moreover have "\<forall>a. a < 4 + 4 * i \<longrightarrow> hb' a = hb a"
    using h(3) by (simp add: store32_other)
  ultimately show ?case using h(1) Suc.prems by auto
qed auto

text \<open>A header block that says \<open>n\<close> and lists \<open>blk 0 \<dots> blk (n - 1)\<close>.\<close>

definition header_says :: "bytes \<Rightarrow> nat \<Rightarrow> (nat \<Rightarrow> u32) \<Rightarrow> bool" where
  "header_says hb n blk \<longleftrightarrow> load32 hb 0 = of_nat n \<and> (\<forall>j<n. load32 hb (4 + 4 * j) = blk j)"

lemma head_out_says:
  assumes "n \<le> log_blocks"
  obtains hb' where "head_out blk n 0 (store32 hb 0 (of_nat n)) = Ret hb'" and "header_says hb' n blk"
proof -
  obtain hb' where h: "head_out blk n 0 (store32 hb 0 (of_nat n)) = Ret hb'"
    "\<forall>j. 0 \<le> j \<and> j < 0 + n \<longrightarrow> load32 hb' (4 + 4 * j) = blk j"
    "\<forall>a. a < 4 + 4 * 0 \<longrightarrow> hb' a = store32 hb 0 (of_nat n) a"
    using head_out_load [of 0 n blk "store32 hb 0 (of_nat n)"] assms by auto
  have "load32 hb' 0 = load32 (store32 hb 0 (of_nat n)) 0"
    by (rule load32_cong) (use h(3) in auto)
  with h show ?thesis by (intro that [of hb']) (simp_all add: header_says_def)
qed


section \<open>Sequences of disk writes\<close>

type_synonym disk_trace = "(u32 \<times> bytes) list"

fun put_writes :: "disk_trace \<Rightarrow> (u32 \<Rightarrow> bytes) \<Rightarrow> u32 \<Rightarrow> bytes" where
  "put_writes [] d = d"
| "put_writes ((b, x) # ws) d = put_writes ws (d(b := x))"

lemma put_writes_append [simp]: "put_writes (u @ v) d = put_writes v (put_writes u d)"
  by (induction u d rule: put_writes.induct) (simp_all add: fun_upd_def)

lemma put_writes_other: "b \<notin> fst ` set ws \<Longrightarrow> put_writes ws d b = d b"
  by (induction ws d rule: put_writes.induct) auto

lemma put_writes_distinct:
  "distinct (map fst ws) \<Longrightarrow> (b, x) \<in> set ws \<Longrightarrow> put_writes ws d b = x"
proof (induction ws d rule: put_writes.induct)
  case (2 c y ws d)
  show ?case
  proof (cases "(b, x) \<in> set ws")
    case False
    with 2 have "b = c" "x = y" "b \<notin> fst ` set ws" by (auto simp: image_iff)
    then show ?thesis by (simp add: put_writes_other)
  qed (use 2 in \<open>simp add: fun_upd_def\<close>)
qed simp

lemma put_writes_agree: "d b = e b \<Longrightarrow> put_writes ws d b = put_writes ws e b"
proof (induction ws arbitrary: d e)
  case (Cons w ws)
  obtain c x where w: "w = (c, x)" by (cases w)
  have "(d(c := x)) b = (e(c := x)) b" using Cons.prems by simp
  then have "put_writes ws (d(c := x)) b = put_writes ws (e(c := x)) b" by (rule Cons.IH)
  then show ?case by (simp only: w put_writes.simps)
qed simp

text \<open>The cache after a sequence of write-through writes.\<close>

definition run_writes :: "disk_trace \<Rightarrow> cache_abs \<Rightarrow> cache_abs" where
  "run_writes ws a = a\<lparr>a_view := put_writes ws (a_view a), a_disk := put_writes ws (a_disk a),
     a_writes := a_writes a @ ws\<rparr>"

lemma run_writes_sel [simp]:
  "a_view (run_writes ws a) = put_writes ws (a_view a)"
  "a_disk (run_writes ws a) = put_writes ws (a_disk a)"
  "a_writes (run_writes ws a) = a_writes a @ ws"
  "a_pins (run_writes ws a) = a_pins a" "a_held (run_writes ws a) = a_held a"
  by (simp_all add: run_writes_def)

lemma run_writes_Nil [simp]: "run_writes [] a = a"
  by (simp add: run_writes_def)

lemma run_writes_append [simp]: "run_writes v (run_writes u a) = run_writes (u @ v) a"
  by (simp add: run_writes_def)

lemma flush_see: "flush b (see b x a) = run_writes [(b, x)] a"
  by (simp add: flush_def see_def run_writes_def)

lemma unpin_run: "run_writes ws (unpin b a) = unpin b (run_writes ws a)"
  by (simp add: unpin_def run_writes_def)

section \<open>One iteration of the copying loops\<close>

text \<open>No buffer is held, nothing is pinned twice and a buffer is free.\<close>

definition calm :: "cache_abs \<Rightarrow> bool" where
  "calm a \<longleftrightarrow> a_held a = (\<lambda>_. None) \<and> (\<forall>c. a_pins a c \<le> 1) \<and> card {c. a_pins a c > 0} < NBUF"

lemma calm_run_writes [simp]: "calm (run_writes ws a) = calm a"
  by (simp add: calm_def)

lemma card_pinned_mono:
  "(\<And>c. a_pins b c > 0 \<Longrightarrow> a_pins a c > 0) \<Longrightarrow>
   card {c. a_pins b c > 0} \<le> card {c. a_pins a c > 0}"
  by (rule card_mono) (rule finite, blast)

lemma calm_unpin:
  assumes "calm a"
  shows "calm (unpin b a)"
  unfolding calm_def
proof (intro conjI allI)
  show "a_held (unpin b a) = (\<lambda>_. None)" using assms by (simp add: calm_def)
  show "a_pins (unpin b a) c \<le> 1" for c
    using assms by (cases "c = b") (simp_all add: calm_def le_diff_conv)
  have "card {c. a_pins (unpin b a) c > 0} \<le> card {c. a_pins a c > 0}"
    by (rule card_pinned_mono) (simp split: if_splits)
  also have "\<dots> < NBUF" using assms unfolding calm_def by (elim conjE)
  finally show "card {c. a_pins (unpin b a) c > 0} < NBUF" .
qed

lemma calm_room: "calm a \<Longrightarrow> room a b"
  by (auto simp: calm_def room_def intro: le_less_trans [of _ 1])

lemma calm_room_two:
  assumes "calm a" and "l \<noteq> d" and "a_pins a d > 0 \<or> card {c. a_pins a c > 0} + 1 < NBUF"
  shows "room (hold i l a) d"
proof -
  have "{c. a_pins (hold i l a) c > 0} = insert l {c. a_pins a c > 0}" by auto
  then have "card {c. a_pins (hold i l a) c > 0} \<le> card {c. a_pins a c > 0} + 1"
    by (simp add: card_insert_if)
  then have "a_pins (hold i l a) d > 0 \<or> card {c. a_pins (hold i l a) c > 0} < NBUF"
    using assms(3) by (elim disjE) (simp, linarith)
  moreover have "a_pins a d \<le> 1" "a_held a = (\<lambda>_. None)" using assms(1) by (auto simp: calm_def)
  ultimately show ?thesis using assms(2) by (simp add: room_def)
qed

lemma install_step:
  assumes "bio_inv s" and "calm (bio_abs s)" and "l \<noteq> d"
    and "a_pins (bio_abs s) d > 0 \<or> card {c. a_pins (bio_abs s) c > 0} + 1 < NBUF"
    and "a_view (bio_abs s) l = a_disk (bio_abs s) l"
    and "recovering \<or> a_pins (bio_abs s) d > 0"
  obtains i s1 j s2 s3 s4 s5 where "bread ROOTDEV l s = Ret (i, s1)"
    and "bread ROOTDEV d s1 = Ret (j, s2)" and "bwrite j (put_data j (get_data i s2) s2) = Ret s3"
    and "brelse i (if recovering then s3 else bunpin j s3) = Ret s4" and "brelse j s4 = Ret s5"
    and "bio_inv s5" and "bio_abs s5 = run_writes [(d, a_view (bio_abs s) l)]
      (if recovering then bio_abs s else unpin d (bio_abs s))"
proof -
  let ?a = "bio_abs s"
  have "room (hold i l ?a) d \<or> a_held ?a i \<noteq> None" for i
    using calm_room_two [OF assms(2-4)] by blast
  then obtain i s1 j s2 where r: "bread ROOTDEV l s = Ret (i, s1)" "bread ROOTDEV d s1 = Ret (j, s2)"
      "i \<noteq> j" "a_held ?a i = None" "a_held ?a j = None" "bio_inv s2"
      "bio_abs s2 = hold j d (hold i l ?a)"
    using bio.read_two [OF assms(1) calm_room [OF assms(2)] assms(3)] by metis
  have hi: "a_held (bio_abs s2) i = Some l" and hj: "a_held (bio_abs s2) j = Some d"
    using r by simp_all
  have g: "get_data i s2 = a_view ?a l" using bio.get_law [OF r(6) hi] r(7) by simp
  let ?p = "put_data j (get_data i s2) s2"
  have p: "bio_inv ?p" "bio_abs ?p = see d (a_view ?a l) (bio_abs s2)"
    using bio.put_law [OF r(6) hj] g by auto
  then have "a_held (bio_abs ?p) j = Some d" using hj by simp
  then obtain s3 where w: "bwrite j ?p = Ret s3" "bio_inv s3" "bio_abs s3 = flush d (bio_abs ?p)"
    using bio.write_law [OF p(1)] by blast
  define s3' where "s3' = (if recovering then s3 else bunpin j s3)"
  have h3: "a_held (bio_abs s3) j = Some d" using w p hj by simp
  have a3: "bio_abs s3 = hold j d (hold i l (run_writes [(d, a_view ?a l)] ?a))"
    using w(3) p(2) r(7) by (simp add: abs_ops run_writes_def)
  have u: "bio_inv s3'" "bio_abs s3' = (if recovering then bio_abs s3 else unpin d (bio_abs s3))"
    using bio.unpin_law [OF w(2) h3] assms(6) a3 w(2) by (auto simp: s3'_def)
  have "a_held (bio_abs s3') i = Some l" using u a3 r(3) by simp
  moreover have "droppable (bio_abs s3') l"
    using u a3 assms(3,5) by (auto simp: droppable_def)
  ultimately obtain s4 where f: "brelse i s3' = Ret s4" "bio_inv s4" "bio_abs s4 = unhold i l (bio_abs s3')"
    using bio.release_law [OF u(1)] by blast
  have "a_held (bio_abs s4) j = Some d" using f u a3 r(3) by simp
  moreover have "droppable (bio_abs s4) d" using f u a3 by (simp add: droppable_def)
  ultimately obtain s5 where e: "brelse j s4 = Ret s5" "bio_inv s5" "bio_abs s5 = unhold j d (bio_abs s4)"
    using bio.release_law [OF f(2)] by blast
  have hn: "(a_held ?a)(i := None, j := None) = a_held ?a" using r(4,5) by auto
  have fin: "unhold j d (unhold i l (hold j d (hold i l b))) = b"
    if "a_held b i = None" "a_held b j = None" for b
    using that r(3) assms(3) by (auto simp: abs_ops fun_upd_twist [of i] intro!: cache_abs.equality)
  have "unhold j d (unhold i l (unpin d (hold j d (hold i l b)))) = unpin d b"
    if "a_held b i = None" "a_held b j = None" for b
    using that r(3) assms(3) by (auto simp: abs_ops fun_upd_twist [of i] intro!: cache_abs.equality)
  then have "bio_abs s5 = run_writes [(d, a_view ?a l)] (if recovering then ?a else unpin d ?a)"
    using e f u a3 fin r(4,5) by (simp add: unpin_run)
  with r w f e show ?thesis unfolding s3'_def by (intro that) auto
qed

lemma write_step:
  assumes "bio_inv s" and "calm (bio_abs s)" and "t \<noteq> d" and "a_pins (bio_abs s) d > 0"
  obtains i s1 j s2 s3 s4 s5 where "bread ROOTDEV t s = Ret (i, s1)"
    and "bread ROOTDEV d s1 = Ret (j, s2)" and "bwrite i (put_data i (get_data j s2) s2) = Ret s3"
    and "brelse j s3 = Ret s4" and "brelse i s4 = Ret s5"
    and "bio_inv s5" and "bio_abs s5 = run_writes [(t, a_view (bio_abs s) d)] (bio_abs s)"
proof -
  let ?a = "bio_abs s"
  have "room (hold i t ?a) d \<or> a_held ?a i \<noteq> None" for i
    using calm_room_two [OF assms(2,3)] assms(4) by blast
  then obtain i s1 j s2 where r: "bread ROOTDEV t s = Ret (i, s1)" "bread ROOTDEV d s1 = Ret (j, s2)"
      "i \<noteq> j" "a_held ?a i = None" "a_held ?a j = None" "bio_inv s2"
      "bio_abs s2 = hold j d (hold i t ?a)"
    using bio.read_two [OF assms(1) calm_room [OF assms(2)] assms(3)] by metis
  have hi: "a_held (bio_abs s2) i = Some t" and hj: "a_held (bio_abs s2) j = Some d"
    using r by simp_all
  have g: "get_data j s2 = a_view ?a d" using bio.get_law [OF r(6) hj] r(7) by simp
  let ?p = "put_data i (get_data j s2) s2"
  have p: "bio_inv ?p" "bio_abs ?p = see t (a_view ?a d) (bio_abs s2)"
    using bio.put_law [OF r(6) hi] g by auto
  then have "a_held (bio_abs ?p) i = Some t" using hi by simp
  then obtain s3 where w: "bwrite i ?p = Ret s3" "bio_inv s3" "bio_abs s3 = flush t (bio_abs ?p)"
    using bio.write_law [OF p(1)] by blast
  have a3: "bio_abs s3 = hold j d (hold i t (run_writes [(t, a_view ?a d)] ?a))"
    using w(3) p(2) r(7) by (simp add: abs_ops run_writes_def)
  have "a_held (bio_abs s3) j = Some d" using a3 by simp
  moreover have "droppable (bio_abs s3) d"
    using a3 assms(3,4) by (auto simp: droppable_def)
  ultimately obtain s4 where f: "brelse j s3 = Ret s4" "bio_inv s4" "bio_abs s4 = unhold j d (bio_abs s3)"
    using bio.release_law [OF w(2)] by blast
  have "a_held (bio_abs s4) i = Some t" using f a3 r(3) by simp
  moreover have "droppable (bio_abs s4) t" using f a3 assms(3) by (simp add: droppable_def)
  ultimately obtain s5 where e: "brelse i s4 = Ret s5" "bio_inv s5" "bio_abs s5 = unhold i t (bio_abs s4)"
    using bio.release_law [OF f(2)] by blast
  have "bio_abs s5 = run_writes [(t, a_view ?a d)] ?a"
    using e f a3 r(3,4,5) by simp
  with r w f e show ?thesis by (intro that) auto
qed

section \<open>The copying loops\<close>

text \<open>The \<open>t\<close>th data block of the log.\<close>

definition lblk :: "u32 \<Rightarrow> nat \<Rightarrow> u32" where
  "lblk start t = start + of_nat t + 1"

definition log_area :: "u32 \<Rightarrow> u32 set" where
  "log_area start = (\<lambda>i. start + of_nat i) ` {..<30}"

lemma area_inj:
  assumes "i < 30" and "j < 30" and "start + of_nat i = start + (of_nat j :: u32)"
  shows "i = j"
proof -
  have "(of_nat i :: u32) = of_nat j" using assms(3) by simp
  then have "unat (of_nat i :: u32) = unat (of_nat j :: u32)" by simp
  moreover have "unat (of_nat k :: u32) = k" if "k < 30" for k
    using that by (simp add: unat_of_nat take_bit_nat_eq_self)
  ultimately show ?thesis using assms(1,2) by simp
qed

lemma lblk_alt: "lblk start t = start + of_nat (Suc t)"
  by (simp add: lblk_def)

lemma lblk_area: "t < 29 \<Longrightarrow> lblk start t \<in> log_area start"
  by (auto simp: lblk_alt log_area_def intro!: image_eqI [of _ _ "Suc t"])

lemma start_area [simp]: "start \<in> log_area start"
  by (auto simp: log_area_def intro!: image_eqI [of _ _ 0])

lemma lblk_inj: "t < 29 \<Longrightarrow> u < 29 \<Longrightarrow> lblk start t = lblk start u \<Longrightarrow> t = u"
  using area_inj [of "Suc t" "Suc u" start] by (simp add: lblk_alt)

lemma lblk_start: "t < 29 \<Longrightarrow> lblk start t \<noteq> start"
  using area_inj [of "Suc t" 0 start] by (auto simp: lblk_alt)

text \<open>The writes of the loops.\<close>

definition home_writes :: "u32 \<Rightarrow> (nat \<Rightarrow> u32) \<Rightarrow> (u32 \<Rightarrow> bytes) \<Rightarrow> nat \<Rightarrow> nat \<Rightarrow> disk_trace" where
  "home_writes start blk v i n = map (\<lambda>t. (blk t, v (lblk start t))) [i..<n]"

definition data_writes :: "u32 \<Rightarrow> (nat \<Rightarrow> u32) \<Rightarrow> (u32 \<Rightarrow> bytes) \<Rightarrow> nat \<Rightarrow> nat \<Rightarrow> disk_trace" where
  "data_writes start blk v i n = map (\<lambda>t. (lblk start t, v (blk t))) [i..<n]"

lemma home_writes_cong:
  "(\<And>t. i \<le> t \<Longrightarrow> t < n \<Longrightarrow> v (lblk start t) = w (lblk start t)) \<Longrightarrow>
   home_writes start blk v i n = home_writes start blk w i n"
  by (simp add: home_writes_def)

lemma data_writes_cong:
  "(\<And>t. i \<le> t \<Longrightarrow> t < n \<Longrightarrow> v (blk t) = w (blk t)) \<Longrightarrow>
   data_writes start blk v i n = data_writes start blk w i n"
  by (simp add: data_writes_def)

definition unpin_all :: "(nat \<Rightarrow> u32) \<Rightarrow> nat \<Rightarrow> nat \<Rightarrow> cache_abs \<Rightarrow> cache_abs" where
  "unpin_all blk i n a = fold (\<lambda>t a. unpin (blk t) a) [i..<n] a"

lemma unpin_all_sel [simp]:
  "a_view (unpin_all blk i n a) = a_view a" "a_disk (unpin_all blk i n a) = a_disk a"
  "a_writes (unpin_all blk i n a) = a_writes a" "a_held (unpin_all blk i n a) = a_held a"
proof -
  have "a_view (fold (\<lambda>t a. unpin (blk t) a) xs a) = a_view a \<and>
    a_disk (fold (\<lambda>t a. unpin (blk t) a) xs a) = a_disk a \<and>
    a_writes (fold (\<lambda>t a. unpin (blk t) a) xs a) = a_writes a \<and>
    a_held (fold (\<lambda>t a. unpin (blk t) a) xs a) = a_held a" for xs
    by (induction xs arbitrary: a) auto
  then show "a_view (unpin_all blk i n a) = a_view a" "a_disk (unpin_all blk i n a) = a_disk a"
    "a_writes (unpin_all blk i n a) = a_writes a" "a_held (unpin_all blk i n a) = a_held a"
    by (simp_all add: unpin_all_def)
qed

lemma unpin_all_pins:
  assumes "distinct (map blk xs)"
  shows "a_pins (fold (\<lambda>t a. unpin (blk t) a) xs a) c =
    a_pins a c - (if c \<in> blk ` set xs then 1 else 0)"
  using assms by (induction xs arbitrary: a) auto

lemma unpin_all_run: "unpin_all blk i n (run_writes ws a) = run_writes ws (unpin_all blk i n a)"
proof -
  have "fold (\<lambda>t a. unpin (blk t) a) xs (run_writes ws a) =
    run_writes ws (fold (\<lambda>t a. unpin (blk t) a) xs a)" for xs
    by (induction xs arbitrary: a) (simp_all add: unpin_run [symmetric])
  then show ?thesis by (simp add: unpin_all_def)
qed

lemma upt_Suc_left: "i < n \<Longrightarrow> [i..<n] = i # [Suc i..<n]"
  by (rule upt_conv_Cons)

lemma install_loop_commit:
  assumes "bio_inv s" and "calm (bio_abs s)" and "i + k \<le> 29"
    and "\<And>t. i \<le> t \<Longrightarrow> t < i + k \<Longrightarrow> blk t \<notin> log_area start \<and> a_pins (bio_abs s) (blk t) > 0"
    and "inj_on blk {i..<i + k}"
    and "\<And>t. t < 29 \<Longrightarrow> a_view (bio_abs s) (lblk start t) = a_disk (bio_abs s) (lblk start t)"
  shows "\<exists>s'. install_loop ROOTDEV start blk False k i s = Ret s' \<and> bio_inv s' \<and>
    bio_abs s' = run_writes (home_writes start blk (a_view (bio_abs s)) i (i + k))
      (unpin_all blk i (i + k) (bio_abs s))"
  using assms
proof (induction k arbitrary: i s)
  case 0
  then show ?case by (simp add: home_writes_def unpin_all_def)
next
  case (Suc k)
  let ?a = "bio_abs s" and ?l = "lblk start i"
  have i: "i < 29" "blk i \<notin> log_area start" "a_pins ?a (blk i) > 0"
    using Suc.prems(3,4) by auto
  have ld: "?l \<noteq> blk i" using i lblk_area [of i start] by auto
  obtain x s1 y s2 s3 s4 s5 where st: "bread ROOTDEV ?l s = Ret (x, s1)"
      "bread ROOTDEV (blk i) s1 = Ret (y, s2)" "bwrite y (put_data y (get_data x s2) s2) = Ret s3"
      "brelse x (if False then s3 else bunpin y s3) = Ret s4" "brelse y s4 = Ret s5" "bio_inv s5"
      "bio_abs s5 = run_writes [(blk i, a_view ?a ?l)] (if False then ?a else unpin (blk i) ?a)"
    by (rule install_step [OF Suc.prems(1,2) ld, where recovering = False])
      (use i Suc.prems(6) in auto)
  then have a5: "bio_abs s5 = run_writes [(blk i, a_view ?a ?l)] (unpin (blk i) ?a)" by simp
  have out: "blk i \<noteq> lblk start t" if "t < 29" for t using i lblk_area [OF that, of start] by auto
  have dist: "blk t \<noteq> blk i" if "Suc i \<le> t" "t < i + Suc k" for t
    using inj_onD [OF Suc.prems(5), of t i] that by auto
  have IH: "\<exists>s'. install_loop ROOTDEV start blk False k (Suc i) s5 = Ret s' \<and> bio_inv s' \<and>
    bio_abs s' = run_writes (home_writes start blk (a_view (bio_abs s5)) (Suc i) (Suc i + k))
      (unpin_all blk (Suc i) (Suc i + k) (bio_abs s5))"
  proof (rule Suc.IH [OF st(6)])
    show "calm (bio_abs s5)" using Suc.prems(2) by (simp add: a5 calm_unpin)
    show "Suc i + k \<le> 29" using Suc.prems(3) by simp
    show "blk t \<notin> log_area start \<and> 0 < a_pins (bio_abs s5) (blk t)" if "Suc i \<le> t" "t < Suc i + k" for t
      using Suc.prems(4) [of t] dist [of t] that by (simp add: a5)
    show "inj_on blk {Suc i..<Suc i + k}" by (rule inj_on_subset [OF Suc.prems(5)]) auto
    show "a_view (bio_abs s5) (lblk start t) = a_disk (bio_abs s5) (lblk start t)" if "t < 29" for t
      using Suc.prems(6) [OF that] out [OF that] by (simp add: a5)
  qed
  have "home_writes start blk (a_view (bio_abs s5)) (Suc i) (Suc i + k) =
    home_writes start blk (a_view ?a) (Suc i) (Suc i + k)"
    using out [symmetric] Suc.prems(3) by (intro home_writes_cong) (auto simp: a5)
  moreover have "unpin_all blk (Suc i) (Suc i + k) (bio_abs s5) =
      run_writes [(blk i, a_view ?a ?l)] (unpin_all blk i (i + Suc k) ?a)"
    by (simp add: a5 unpin_all_run) (simp add: unpin_all_def upt_Suc_left del: upt_Suc)
  moreover have "(blk i, a_view ?a ?l) # home_writes start blk (a_view ?a) (Suc i) (Suc i + k) =
      home_writes start blk (a_view ?a) i (i + Suc k)"
    by (simp add: home_writes_def upt_Suc_left del: upt_Suc)
  ultimately show ?case using IH st(1-5) i(1) by (simp add: lblk_def Let_def)
qed

lemma install_loop_recover:
  assumes "bio_inv s" and "calm (bio_abs s)" and "a_pins (bio_abs s) = (\<lambda>_. 0)" and "i + k \<le> 29"
    and "\<And>t. i \<le> t \<Longrightarrow> t < i + k \<Longrightarrow> blk t \<notin> log_area start"
    and "\<And>t. t < 29 \<Longrightarrow> a_view (bio_abs s) (lblk start t) = a_disk (bio_abs s) (lblk start t)"
  shows "\<exists>s'. install_loop ROOTDEV start blk True k i s = Ret s' \<and> bio_inv s' \<and>
    bio_abs s' = run_writes (home_writes start blk (a_view (bio_abs s)) i (i + k)) (bio_abs s)"
  using assms
proof (induction k arbitrary: i s)
  case 0
  then show ?case by (simp add: home_writes_def)
next
  case (Suc k)
  let ?a = "bio_abs s" and ?l = "lblk start i"
  have i: "i < 29" "blk i \<notin> log_area start" using Suc.prems(4,5) by auto
  have ld: "?l \<noteq> blk i" using i lblk_area [of i start] by auto
  obtain x s1 y s2 s3 s4 s5 where st: "bread ROOTDEV ?l s = Ret (x, s1)"
      "bread ROOTDEV (blk i) s1 = Ret (y, s2)" "bwrite y (put_data y (get_data x s2) s2) = Ret s3"
      "brelse x (if True then s3 else bunpin y s3) = Ret s4" "brelse y s4 = Ret s5" "bio_inv s5"
      "bio_abs s5 = run_writes [(blk i, a_view ?a ?l)] (if True then ?a else unpin (blk i) ?a)"
    by (rule install_step [OF Suc.prems(1,2) ld, where recovering = True])
      (use i Suc.prems(3,6) in auto)
  then have a5: "bio_abs s5 = run_writes [(blk i, a_view ?a ?l)] ?a" by simp
  have out: "blk i \<noteq> lblk start t" if "t < 29" for t using i lblk_area [OF that, of start] by auto
  have IH: "\<exists>s'. install_loop ROOTDEV start blk True k (Suc i) s5 = Ret s' \<and> bio_inv s' \<and>
    bio_abs s' = run_writes (home_writes start blk (a_view (bio_abs s5)) (Suc i) (Suc i + k)) (bio_abs s5)"
  proof (rule Suc.IH [OF st(6)])
    show "calm (bio_abs s5)" using Suc.prems(2) by (simp add: a5)
    show "a_pins (bio_abs s5) = (\<lambda>_. 0)" using Suc.prems(3) by (simp add: a5)
    show "Suc i + k \<le> 29" using Suc.prems(4) by simp
    show "blk t \<notin> log_area start" if "Suc i \<le> t" "t < Suc i + k" for t
      using Suc.prems(5) [of t] that by simp
    show "a_view (bio_abs s5) (lblk start t) = a_disk (bio_abs s5) (lblk start t)" if "t < 29" for t
      using Suc.prems(6) [OF that] out [OF that] by (simp add: a5)
  qed
  have "home_writes start blk (a_view (bio_abs s5)) (Suc i) (Suc i + k) =
    home_writes start blk (a_view ?a) (Suc i) (Suc i + k)"
    using out [symmetric] Suc.prems(4) by (intro home_writes_cong) (auto simp: a5)
  moreover have "(blk i, a_view ?a ?l) # home_writes start blk (a_view ?a) (Suc i) (Suc i + k) =
      home_writes start blk (a_view ?a) i (i + Suc k)"
    by (simp add: home_writes_def upt_Suc_left del: upt_Suc)
  ultimately show ?case using IH st(1-5) i(1) a5 by (simp add: lblk_def Let_def)
qed

lemma write_log_loop_eq:
  assumes "bio_inv s" and "calm (bio_abs s)" and "i + k \<le> 29"
    and "\<And>t. i \<le> t \<Longrightarrow> t < i + k \<Longrightarrow> blk t \<notin> log_area start \<and> a_pins (bio_abs s) (blk t) > 0"
  shows "\<exists>s'. write_log_loop ROOTDEV start blk k i s = Ret s' \<and> bio_inv s' \<and>
    bio_abs s' = run_writes (data_writes start blk (a_view (bio_abs s)) i (i + k)) (bio_abs s)"
  using assms
proof (induction k arbitrary: i s)
  case 0
  then show ?case by (simp add: data_writes_def)
next
  case (Suc k)
  let ?a = "bio_abs s" and ?l = "lblk start i"
  have i: "i < 29" "blk i \<notin> log_area start" "a_pins ?a (blk i) > 0" using Suc.prems(3,4) by auto
  have ld: "?l \<noteq> blk i" using i lblk_area [of i start] by auto
  obtain x s1 y s2 s3 s4 s5 where st: "bread ROOTDEV ?l s = Ret (x, s1)"
      "bread ROOTDEV (blk i) s1 = Ret (y, s2)" "bwrite x (put_data x (get_data y s2) s2) = Ret s3"
      "brelse y s3 = Ret s4" "brelse x s4 = Ret s5" "bio_inv s5"
      "bio_abs s5 = run_writes [(?l, a_view ?a (blk i))] ?a"
    by (rule write_step [OF Suc.prems(1,2) ld i(3)])
  have out: "blk t \<noteq> ?l" if "Suc i \<le> t" "t < i + Suc k" for t
    using Suc.prems(4) [of t] that lblk_area [OF i(1), of start] by auto
  have IH: "\<exists>s'. write_log_loop ROOTDEV start blk k (Suc i) s5 = Ret s' \<and> bio_inv s' \<and>
    bio_abs s' = run_writes (data_writes start blk (a_view (bio_abs s5)) (Suc i) (Suc i + k)) (bio_abs s5)"
  proof (rule Suc.IH [OF st(6)])
    show "calm (bio_abs s5)" using Suc.prems(2) by (simp add: st(7))
    show "Suc i + k \<le> 29" using Suc.prems(3) by simp
    show "blk t \<notin> log_area start \<and> 0 < a_pins (bio_abs s5) (blk t)" if "Suc i \<le> t" "t < Suc i + k" for t
      using Suc.prems(4) [of t] that by (simp add: st(7))
  qed
  have "data_writes start blk (a_view (bio_abs s5)) (Suc i) (Suc i + k) =
    data_writes start blk (a_view ?a) (Suc i) (Suc i + k)"
    using out by (intro data_writes_cong) (auto simp: st(7))
  moreover have "(?l, a_view ?a (blk i)) # data_writes start blk (a_view ?a) (Suc i) (Suc i + k) =
      data_writes start blk (a_view ?a) i (i + Suc k)"
    by (simp add: data_writes_def upt_Suc_left del: upt_Suc)
  ultimately show ?case using IH st i(1) by (simp add: lblk_def Let_def)
qed

section \<open>Reading and writing the header\<close>

lemma write_head_eq:
  assumes "bio_inv (lg_bc s)" and "calm (bio_abs (lg_bc s))" and "lg_dev s = ROOTDEV"
    and "lg_n s = int n" and "n \<le> log_blocks"
  obtains bc hb where "write_head s = Ret (s\<lparr>lg_bc := bc\<rparr>)" and "bio_inv bc"
    and "header_says hb n (lg_block s)"
    and "bio_abs bc = run_writes [(lg_start s, hb)] (bio_abs (lg_bc s))"
proof -
  let ?a = "bio_abs (lg_bc s)"
  obtain i s1 where r: "bread ROOTDEV (lg_start s) (lg_bc s) = Ret (i, s1)"
    "\<And>x. \<exists>s2 s3. bwrite i (put_data i x s1) = Ret s2 \<and> brelse i s2 = Ret s3 \<and>
        bio_inv s3 \<and> bio_abs s3 = flush (lg_start s) (see (lg_start s) x ?a)"
    using bio.read_put_write_release [OF assms(1) calm_room [OF assms(2), of "lg_start s"]] by metis
  obtain hb where hb: "head_out (lg_block s) n 0 (store32 (get_data i s1) 0 (of_nat n)) = Ret hb"
      "header_says hb n (lg_block s)"
    using head_out_says [OF assms(5)] by blast
  from r(2) [of hb] obtain s2 s3 where "bwrite i (put_data i hb s1) = Ret s2" "brelse i s2 = Ret s3"
      "bio_inv s3" "bio_abs s3 = run_writes [(lg_start s, hb)] ?a"
    by (auto simp: flush_see)
  with r(1) hb assms(3,4) show ?thesis
    by (intro that [of s3 hb]) (simp_all add: write_head_def)
qed

lemma sint_of_small: "n \<le> log_blocks \<Longrightarrow> sint (of_nat n :: u32) = int n"
  by (simp add: signed_of_nat signed_take_bit_int_eq_self)

lemma read_head_eq:
  assumes "bio_inv (lg_bc s)" and "calm (bio_abs (lg_bc s))" and "lg_dev s = ROOTDEV"
    and "a_view (bio_abs (lg_bc s)) (lg_start s) = a_disk (bio_abs (lg_bc s)) (lg_start s)"
    and "header_says (a_view (bio_abs (lg_bc s)) (lg_start s)) n blk" and "n \<le> log_blocks"
  obtains bc blk' where "read_head s = Ret (s\<lparr>lg_bc := bc, lg_n := int n, lg_block := blk'\<rparr>)"
    and "bio_inv bc" and "bio_abs bc = bio_abs (lg_bc s)" and "\<And>t. t < n \<Longrightarrow> blk' t = blk t"
proof -
  let ?a = "bio_abs (lg_bc s)"
  obtain i s1 s2 where r: "bread ROOTDEV (lg_start s) (lg_bc s) = Ret (i, s1)"
    "get_data i s1 = a_view ?a (lg_start s)" "brelse i s1 = Ret s2" "bio_inv s2" "bio_abs s2 = ?a"
    using bio.read_release [OF assms(1) calm_room [OF assms(2), of "lg_start s"]] assms(4) by metis
  let ?lh = "get_data i s1"
  have n: "sint (load32 ?lh 0) = int n" and b: "\<And>t. t < n \<Longrightarrow> load32 ?lh (4 + 4 * t) = blk t"
    using assms(5,6) r(2) sint_of_small [of n] by (auto simp: header_says_def)
  let ?blk = "\<lambda>j. if 0 \<le> j \<and> j < 0 + n then load32 ?lh (4 + 4 * j) else lg_block s j"
  have "head_in ?lh n 0 (lg_block s) = Ret ?blk" by (rule head_in_eq) (use assms(6) in simp)
  with r n assms(3) have "read_head s = Ret (s\<lparr>lg_bc := s2, lg_n := int n, lg_block := ?blk\<rparr>)"
    by (simp add: read_head_def Let_def)
  with r b show ?thesis by (intro that [where bc = s2 and blk' = ?blk]) auto
qed

section \<open>Recovery\<close>

text \<open>The kernel's log before initlog(), on a disk \<open>d\<close>.\<close>

definition boot :: "int \<Rightarrow> (u32 \<Rightarrow> bytes) \<Rightarrow> xlog" where
  "boot pid d = \<lparr>lg_bc = binit (bss_cache d pid), lg_start = 0, lg_size = 0, lg_outstanding = 0,
     lg_committing = False, lg_dev = 0, lg_n = 0, lg_block = (\<lambda>_. 0)\<rparr>"

lemma calm_boot [simp]: "calm (bio_abs (binit (bss_cache d pid)))"
  by (simp add: calm_def binit_abs del: bio_abs_sel)

lemma initlog_eq:
  assumes "header_says (d start) n blk" and "n \<le> 29"
    and "\<And>t. t < n \<Longrightarrow> blk t \<notin> log_area start"
  obtains r hb where "initlog ROOTDEV start nlog (boot pid d) = Ret r" and "load32 hb 0 = 0"
    and "bio_inv (lg_bc r)" and "bio_abs (lg_bc r) =
      run_writes (home_writes start blk d 0 n @ [(start, hb)]) (bio_abs (binit (bss_cache d pid)))"
    and "lg_n r = 0" and "lg_outstanding r = 0" and "\<not> lg_committing r"
    and "lg_start r = start" and "lg_dev r = ROOTDEV" and "lg_size r = sint nlog"
proof -
  let ?bc = "binit (bss_cache d pid)"
  define s where "s = (boot pid d)\<lparr>lg_start := start, lg_size := sint nlog, lg_dev := ROOTDEV\<rparr>"
  have bc: "lg_bc s = ?bc" "lg_dev s = ROOTDEV" "lg_start s = start" "lg_outstanding s = 0"
      "\<not> lg_committing s" "lg_size s = sint nlog"
    by (simp_all add: s_def boot_def)
  note abs = binit_abs [of d pid]
  obtain bc1 blk1 where h: "read_head s = Ret (s\<lparr>lg_bc := bc1, lg_n := int n, lg_block := blk1\<rparr>)"
      "bio_inv bc1" "bio_abs bc1 = bio_abs ?bc" "\<And>t. t < n \<Longrightarrow> blk1 t = blk t"
    by (rule read_head_eq [of s n blk])
      (use assms(1,2) in \<open>simp_all add: bc binit_inv abs calm_def del: bio_abs_sel\<close>)
  have "\<exists>s'. install_loop ROOTDEV start blk1 True n 0 bc1 = Ret s' \<and> bio_inv s' \<and>
      bio_abs s' = run_writes (home_writes start blk1 (a_view (bio_abs bc1)) 0 (0 + n)) (bio_abs bc1)"
    by (rule install_loop_recover [OF h(2)])
      (use assms(2,3) h(4) in \<open>auto simp: h(3) abs calm_def simp del: bio_abs_sel\<close>)
  then obtain bc2 where i: "install_loop ROOTDEV start blk1 True n 0 bc1 = Ret bc2" "bio_inv bc2"
      "bio_abs bc2 = run_writes (home_writes start blk1 d 0 n) (bio_abs ?bc)"
    by (auto simp: h(3) abs simp del: bio_abs_sel)
  have hw: "home_writes start blk1 d 0 n = home_writes start blk d 0 n"
    using h(4) by (simp add: home_writes_def)
  define s2 where "s2 = s\<lparr>lg_block := blk1, lg_bc := bc2, lg_n := 0\<rparr>"
  obtain bc3 hb where w: "write_head s2 = Ret (s2\<lparr>lg_bc := bc3\<rparr>)" "bio_inv bc3"
      "header_says hb 0 (lg_block s2)" "bio_abs bc3 = run_writes [(start, hb)] (bio_abs bc2)"
    using write_head_eq [of s2 0] i by (auto simp: s2_def bc simp del: bio_abs_sel)
  have "initlog ROOTDEV start nlog (boot pid d) = Ret (s2\<lparr>lg_bc := bc3\<rparr>)"
    using w(1) h(1) i(1)
    by (simp add: initlog_def logheader_size_def recover_from_log_def install_trans_def s2_def
        s_def [symmetric] bc)
  with w i hw show ?thesis
    by (intro that [of "s2\<lparr>lg_bc := bc3\<rparr>" hb])
      (auto simp: s2_def bc header_says_def simp del: bio_abs_sel)
qed

section \<open>Commit\<close>

text \<open>
  The log between transactions and inside one: the logged blocks are exactly the pinned ones,
  each pinned once, outside the log area, and every other block agrees with the disk; the
  header on the disk is empty.
\<close>

definition logged :: "xlog \<Rightarrow> u32 set" where
  "logged s = lg_block s ` {..<nat (lg_n s)}"

definition log_ready :: "xlog \<Rightarrow> bool" where
  "log_ready s \<longleftrightarrow> bio_inv (lg_bc s) \<and> a_held (bio_abs (lg_bc s)) = (\<lambda>_. None) \<and> lg_dev s = ROOTDEV \<and>
     0 \<le> lg_n s \<and> lg_n s \<le> 29 \<and> inj_on (lg_block s) {..<nat (lg_n s)} \<and>
     logged s \<inter> log_area (lg_start s) = {} \<and>
     (\<forall>c. pins (lg_bc s) c = (if c \<in> logged s then 1 else 0)) \<and>
     (\<forall>c. c \<notin> logged s \<longrightarrow> view (lg_bc s) c = disk (lg_bc s) c) \<and>
     load32 (disk (lg_bc s) (lg_start s)) 0 = 0"

lemma log_ready_calm: "log_ready s \<Longrightarrow> calm (bio_abs (lg_bc s))"
proof -
  assume r: "log_ready s"
  have "{c. pins (lg_bc s) c > 0} = logged s" using r by (auto simp: log_ready_def)
  moreover have "card (logged s) \<le> nat (lg_n s)"
    unfolding logged_def using card_image_le [of "{..<nat (lg_n s)}" "lg_block s"] by simp
  moreover have "nat (lg_n s) \<le> 29" using r by (auto simp: log_ready_def)
  ultimately have "card {c. pins (lg_bc s) c > 0} < NBUF" by (simp only:)
  with r show ?thesis unfolding calm_def by (simp add: log_ready_def)
qed

definition new_writes :: "(nat \<Rightarrow> u32) \<Rightarrow> (u32 \<Rightarrow> bytes) \<Rightarrow> nat \<Rightarrow> disk_trace" where
  "new_writes blk v n = map (\<lambda>t. (blk t, v (blk t))) [0..<n]"

lemma data_then_lblk:
  assumes "t < n" and "n \<le> 29"
  shows "put_writes (data_writes start blk v 0 n) d (lblk start t) = v (blk t)"
proof (rule put_writes_distinct)
  show "distinct (map fst (data_writes start blk v 0 n))"
    using assms(2) lblk_inj by (auto simp: data_writes_def distinct_map o_def inj_on_def)
  show "(lblk start t, v (blk t)) \<in> set (data_writes start blk v 0 n)"
    using assms(1) by (auto simp: data_writes_def)
qed

lemma home_of_data:
  assumes "n \<le> 29"
  shows "home_writes start blk (put_writes (data_writes start blk v 0 n) d) 0 n = new_writes blk v n"
  using data_then_lblk [OF _ assms] by (simp add: home_writes_def new_writes_def)

lemma commit_trace:
  assumes "log_ready s" and "lg_n s = int n" and "0 < n"
  defines "v \<equiv> view (lg_bc s)" and "blk \<equiv> lg_block s" and "start \<equiv> lg_start s"
  obtains bc hb hb0 where "commit s = Ret (s\<lparr>lg_n := 0, lg_bc := bc\<rparr>)" and "bio_inv bc"
    and "header_says hb n blk" and "load32 hb0 0 = 0"
    and "bio_abs bc = unpin_all blk 0 n (run_writes
      (data_writes start blk v 0 n @ [(start, hb)] @ new_writes blk v n @ [(start, hb0)])
      (bio_abs (lg_bc s)))"
proof -
  let ?a = "bio_abs (lg_bc s)" and ?D = "data_writes start blk v 0 n"
  have r: "bio_inv (lg_bc s)" "lg_dev s = ROOTDEV" "n \<le> 29" "inj_on blk {0..<n}"
    using assms(1,2) by (simp_all add: log_ready_def blk_def lessThan_atLeast0)
  have "logged s = blk ` {0..<n}" using assms(2) by (simp add: logged_def blk_def lessThan_atLeast0)
  with assms(1) have dj: "blk ` {0..<n} \<inter> log_area start = {}"
    and pn: "\<And>c. pins (lg_bc s) c = (if c \<in> blk ` {0..<n} then 1 else 0)"
    and vd: "\<And>c. c \<notin> blk ` {0..<n} \<Longrightarrow> view (lg_bc s) c = disk (lg_bc s) c"
    by (simp_all add: log_ready_def start_def)
  have b: "\<And>t. t < n \<Longrightarrow> blk t \<notin> log_area start \<and> a_pins ?a (blk t) > 0"
    using dj by (fastforce simp: pn)
  have cl: "\<And>c. c \<in> log_area start \<Longrightarrow> a_view ?a c = a_disk ?a c"
    using dj unfolding bio_abs_sel by (intro vd) blast
  note calm = log_ready_calm [OF assms(1)]
  have "\<exists>s'. write_log_loop ROOTDEV start blk n 0 (lg_bc s) = Ret s' \<and> bio_inv s' \<and>
      bio_abs s' = run_writes (data_writes start blk (a_view ?a) 0 (0 + n)) ?a"
    by (rule write_log_loop_eq [OF r(1) calm]) (use r(3) b in auto)
  then obtain bc1 where 1: "write_log_loop ROOTDEV start blk n 0 (lg_bc s) = Ret bc1" "bio_inv bc1"
      "bio_abs bc1 = run_writes ?D ?a"
    by (auto simp: v_def)
  obtain bc2 hb where 2: "write_head (s\<lparr>lg_bc := bc1\<rparr>) = Ret (s\<lparr>lg_bc := bc2\<rparr>)" "bio_inv bc2"
      "header_says hb n blk" "bio_abs bc2 = run_writes [(start, hb)] (bio_abs bc1)"
    using write_head_eq [of "s\<lparr>lg_bc := bc1\<rparr>" n] 1(2,3) calm assms(2) r(2,3)
    by (auto simp: start_def blk_def simp del: bio_abs_sel)
  have a2: "bio_abs bc2 = run_writes (?D @ [(start, hb)]) ?a" using 2(4) 1(3) by simp
  have "\<exists>s'. install_loop ROOTDEV start blk False n 0 bc2 = Ret s' \<and> bio_inv s' \<and>
      bio_abs s' = run_writes (home_writes start blk (a_view (bio_abs bc2)) 0 (0 + n))
        (unpin_all blk 0 (0 + n) (bio_abs bc2))"
  proof (rule install_loop_commit [OF 2(2)])
    show "a_view (bio_abs bc2) (lblk start t) = a_disk (bio_abs bc2) (lblk start t)" if "t < 29" for t
      unfolding a2 run_writes_sel by (rule put_writes_agree) (rule cl [OF lblk_area [OF that]])
  qed (use r(3,4) b calm in \<open>simp_all add: a2 del: bio_abs_sel\<close>)
  moreover have "home_writes start blk (a_view (bio_abs bc2)) 0 n = new_writes blk v n"
  proof -
    have "home_writes start blk (a_view (bio_abs bc2)) 0 n = home_writes start blk (put_writes ?D v) 0 n"
      using lblk_start r(3) by (intro home_writes_cong) (auto simp: a2 v_def put_writes_other)
    then show ?thesis by (simp add: home_of_data [OF r(3)])
  qed
  ultimately obtain bc3 where 3: "install_loop ROOTDEV start blk False n 0 bc2 = Ret bc3" "bio_inv bc3"
      "bio_abs bc3 = run_writes (new_writes blk v n) (unpin_all blk 0 n (bio_abs bc2))"
    unfolding add_0 by metis
  have "calm (unpin_all blk i n a)" if "calm a" for i a
  proof -
    have "calm (fold (\<lambda>t a. unpin (blk t) a) xs a)" for xs
      using that by (induction xs arbitrary: a) (simp_all add: calm_unpin)
    then show ?thesis by (simp add: unpin_all_def)
  qed
  then have "calm (bio_abs bc3)" using calm unfolding 3(3) a2 by (simp only: calm_run_writes)
  then obtain bc4 hb0 where 4: "write_head (s\<lparr>lg_bc := bc3, lg_n := 0\<rparr>) = Ret (s\<lparr>lg_n := 0, lg_bc := bc4\<rparr>)"
      "bio_inv bc4" "header_says hb0 0 blk" "bio_abs bc4 = run_writes [(start, hb0)] (bio_abs bc3)"
    using write_head_eq [of "s\<lparr>lg_bc := bc3, lg_n := 0\<rparr>" 0] 3(2) r(2)
    by (auto simp: start_def blk_def simp del: bio_abs_sel)
  have "commit s = Ret (s\<lparr>lg_n := 0, lg_bc := bc4\<rparr>)"
    using 1(1) 2(1) 3(1) 4(1) assms(2,3) r(2)
    by (simp add: commit_def write_log_def install_trans_def start_def blk_def)
  moreover have "bio_abs bc4 = unpin_all blk 0 n (run_writes
      (?D @ [(start, hb)] @ new_writes blk v n @ [(start, hb0)]) ?a)"
    by (simp add: 4(4) 3(3) a2 unpin_all_run del: bio_abs_sel)
  ultimately show ?thesis using 2(3) 4(2,3) by (intro that) (auto simp: header_says_def)
qed

section \<open>Crashes\<close>

lemma put_writes_absorb:
  "b \<in> fst ` set ws \<Longrightarrow> put_writes ws d b = put_writes ws e b"
proof (induction ws arbitrary: d e)
  case (Cons w ws)
  obtain c x where w: "w = (c, x)" by (cases w)
  show ?case
  proof (cases "b \<in> fst ` set ws")
    case True
    from Cons.IH [OF this] show ?thesis unfolding w put_writes.simps .
  next
    case False
    then have "b = c" using Cons.prems w by auto
    then have "put_writes ws (d(c := x)) b = put_writes ws (e(c := x)) b"
      by (intro put_writes_agree) simp
    then show ?thesis by (simp only: w put_writes.simps)
  qed
qed simp

lemma not_in_take: "b \<notin> fst ` set ws \<Longrightarrow> b \<notin> fst ` set (take k ws)"
  by (auto dest: in_set_takeD)

lemma put_writes_redo: "put_writes ws (put_writes (take k ws) d) b = put_writes ws d b"
proof (cases "b \<in> fst ` set ws")
  case True
  then show ?thesis by (rule put_writes_absorb)
next
  case False
  then have "b \<notin> fst ` set (take k ws)" by (rule not_in_take)
  with False show ?thesis by (simp add: put_writes_other)
qed

lemma new_writes_get:
  assumes "inj_on blk {0..<n}"
  shows "put_writes (new_writes blk v n) d b = (if b \<in> blk ` {0..<n} then v b else d b)"
proof (cases "b \<in> blk ` {0..<n}")
  case True
  have "distinct (map fst (new_writes blk v n))"
    using assms by (simp add: new_writes_def distinct_map o_def)
  moreover have "(b, v b) \<in> set (new_writes blk v n)" using True by (auto simp: new_writes_def)
  ultimately show ?thesis using True put_writes_distinct by auto
next
  case False
  then show ?thesis by (simp add: new_writes_def put_writes_other image_image)
qed

lemma fst_new_writes: "fst ` set (new_writes blk v n) = blk ` {0..<n}"
  by (auto simp: new_writes_def image_image)

lemma fst_data_writes: "fst ` set (data_writes start blk v 0 n) = lblk start ` {0..<n}"
  by (auto simp: data_writes_def image_image)

lemma fst_home_writes: "fst ` set (home_writes start blk v 0 n) = blk ` {0..<n}"
  by (auto simp: home_writes_def image_image)

lemma put_data_writes_other:
  "n \<le> 29 \<Longrightarrow> b \<notin> lblk start ` {0..<n} \<Longrightarrow>
   put_writes (take k (data_writes start blk v 0 n)) d b = d b"
proof (rule put_writes_other)
  assume b: "b \<notin> lblk start ` {0..<n}"
  from b show "b \<notin> fst ` set (take k (data_writes start blk v 0 n))"
    by (intro not_in_take) (simp add: fst_data_writes)
qed

lemma initlog_recovers:
  assumes "header_says (d start) n blk" and "n \<le> 29"
    and "\<And>t. t < n \<Longrightarrow> blk t \<notin> log_area start"
  obtains r hb where "initlog ROOTDEV start nlog (boot pid d) = Ret r" and "log_ready r"
    and "writes (lg_bc r) = home_writes start blk d 0 n @ [(start, hb)]" and "load32 hb 0 = 0"
    and "\<And>b. b \<notin> log_area start \<Longrightarrow> view (lg_bc r) b = put_writes (home_writes start blk d 0 n) d b"
    and "lg_start r = start" and "lg_size r = sint nlog" and "lg_n r = 0" and "lg_outstanding r = 0"
    and "\<not> lg_committing r"
proof -
  obtain r hb where r: "initlog ROOTDEV start nlog (boot pid d) = Ret r" "load32 hb 0 = 0"
    "bio_inv (lg_bc r)" "bio_abs (lg_bc r) =
      run_writes (home_writes start blk d 0 n @ [(start, hb)]) (bio_abs (binit (bss_cache d pid)))"
    "lg_n r = 0" "lg_outstanding r = 0" "\<not> lg_committing r" "lg_start r = start"
    "lg_dev r = ROOTDEV" "lg_size r = sint nlog"
    by (rule initlog_eq [where nlog = nlog and pid = pid and d = d and start = start and n = n and blk = blk])
      (use assms in auto)
  have a: "view (lg_bc r) = put_writes (home_writes start blk d 0 n @ [(start, hb)]) d"
    "disk (lg_bc r) = put_writes (home_writes start blk d 0 n @ [(start, hb)]) d"
    "writes (lg_bc r) = home_writes start blk d 0 n @ [(start, hb)]"
    "pins (lg_bc r) = (\<lambda>_. 0)" "handle (lg_bc r) = (\<lambda>_. None)"
    using arg_cong [OF r(4), of a_view] arg_cong [OF r(4), of a_disk] arg_cong [OF r(4), of a_writes]
      arg_cong [OF r(4), of a_pins] arg_cong [OF r(4), of a_held]
    by (simp_all add: binit_abs [of d pid] bio_abs_def [of "lg_bc r"] del: bio_abs_sel put_writes_append)
  have ready: "log_ready r" using r(2,3,5-10) a by (simp add: log_ready_def logged_def)
  have "view (lg_bc r) b = put_writes (home_writes start blk d 0 n) d b" if "b \<notin> log_area start" for b
  proof -
    from that have "b \<noteq> start" by auto
    then show ?thesis by (simp add: a(1))
  qed
  with r ready a(3) show ?thesis by (intro that) auto
qed

text \<open>
  C2. Recovery can be interrupted: if the machine stops after any number of the writes of a
  recovery, recovering again leaves the blocks outside the log as the first recovery would.
\<close>

theorem recovery_restartable:
  assumes "header_says (d start) n blk" and "n \<le> 29"
    and "\<And>t. t < n \<Longrightarrow> blk t \<notin> log_area start"
  shows "\<exists>r. initlog ROOTDEV start nlog (boot pid d) = Ret r \<and>
    (\<forall>k \<le> length (writes (lg_bc r)). \<exists>r'.
       initlog ROOTDEV start nlog (boot pid (put_writes (take k (writes (lg_bc r))) d)) = Ret r' \<and>
       (\<forall>b. b \<notin> log_area start \<longrightarrow> view (lg_bc r') b = view (lg_bc r) b))"
proof -
  let ?H = "home_writes start blk d 0 n"
  obtain r hb where r: "initlog ROOTDEV start nlog (boot pid d) = Ret r"
    "writes (lg_bc r) = ?H @ [(start, hb)]" "load32 hb 0 = 0"
    "\<And>b. b \<notin> log_area start \<Longrightarrow> view (lg_bc r) b = put_writes ?H d b"
    by (rule initlog_recovers [where nlog = nlog and pid = pid and d = d and start = start and n = n
        and blk = blk]) (use assms in auto)
  have "\<exists>r'. initlog ROOTDEV start nlog (boot pid (put_writes (take k (writes (lg_bc r))) d)) = Ret r' \<and>
       (\<forall>b. b \<notin> log_area start \<longrightarrow> view (lg_bc r') b = view (lg_bc r) b)"
    if k: "k \<le> length (writes (lg_bc r))" for k
  proof (cases "k \<le> n")
    case True
    define e where "e = put_writes (take k ?H) d"
    have e: "put_writes (take k (writes (lg_bc r))) d = e"
      using True by (simp add: r(2) e_def home_writes_def)
    have out: "e c = d c" if "c \<in> log_area start" for c
    proof -
      have "c \<notin> fst ` set ?H" using assms(3) that by (auto simp: fst_home_writes)
      then have "c \<notin> fst ` set (take k ?H)" by (rule not_in_take)
      then show ?thesis by (simp add: e_def put_writes_other)
    qed
    have "home_writes start blk e 0 n = ?H"
      using out lblk_area assms(2) by (intro home_writes_cong) auto
    moreover have "header_says (e start) n blk" using out assms(1) by simp
    ultimately obtain r' where "initlog ROOTDEV start nlog (boot pid e) = Ret r'"
      "\<And>b. b \<notin> log_area start \<Longrightarrow> view (lg_bc r') b = put_writes ?H e b"
      using initlog_recovers [where nlog = nlog and pid = pid, of e start n blk] assms(2,3) by metis
    then show ?thesis using r(4) by (simp add: e put_writes_redo e_def)
  next
    case False
    define e where "e = put_writes (?H @ [(start, hb)]) d"
    have "k = Suc n" using False k by (simp add: r(2) home_writes_def)
    then have e: "put_writes (take k (writes (lg_bc r))) d = e"
      by (simp add: r(2) e_def home_writes_def)
    have "header_says (e start) 0 blk" using r(3) by (simp add: e_def header_says_def)
    then obtain r' where r': "initlog ROOTDEV start nlog (boot pid e) = Ret r'"
      "\<And>b. b \<notin> log_area start \<Longrightarrow> view (lg_bc r') b = put_writes (home_writes start blk e 0 0) e b"
      using initlog_recovers [where nlog = nlog and pid = pid, of e start 0 blk] by (metis not_less0 zero_le)
    have "view (lg_bc r') b = view (lg_bc r) b" if "b \<notin> log_area start" for b
    proof -
      from that have "b \<noteq> start" by auto
      with r'(2) [OF that] r(4) [OF that] show ?thesis by (simp add: home_writes_def e_def)
    qed
    with r'(1) show ?thesis by (simp add: e)
  qed
  with r(1) show ?thesis by blast
qed

text \<open>
  C1. Crash atomicity. Let commit() write the sequence \<open>W\<close> of blocks. A machine that stops after any
  number \<open>k\<close> of them and boots again sees, outside the log, the disk before the transaction if
  the header had not been written (\<open>k \<le> n\<close>), and all of the transaction otherwise.
\<close>

theorem commit_crash_atomic:
  assumes "log_ready s" and "lg_n s = int n" and "0 < n"
  shows "\<exists>s' W. commit s = Ret s' \<and> writes (lg_bc s') = writes (lg_bc s) @ W \<and>
    length W = 2 * n + 2 \<and> (\<forall>k \<le> length W. \<exists>r.
       initlog ROOTDEV (lg_start s) nlog (boot pid (put_writes (take k W) (disk (lg_bc s)))) = Ret r \<and>
       log_ready r \<and>
       (\<forall>b. b \<notin> log_area (lg_start s) \<longrightarrow> view (lg_bc r) b =
          (if k \<le> n then disk (lg_bc s) b else view (lg_bc s) b)))"
proof -
  define v where "v = view (lg_bc s)"
  define blk where "blk = lg_block s"
  define start where "start = lg_start s"
  define d where "d = disk (lg_bc s)"
  let ?D = "data_writes start blk v 0 n" and ?N = "new_writes blk v n"
  obtain bc hb hb0 where c: "commit s = Ret (s\<lparr>lg_n := 0, lg_bc := bc\<rparr>)" "header_says hb n blk"
    "load32 hb0 0 = 0"
    "bio_abs bc = unpin_all blk 0 n (run_writes (?D @ [(start, hb)] @ ?N @ [(start, hb0)]) (bio_abs (lg_bc s)))"
    by (rule commit_trace [OF assms]) (auto simp: v_def blk_def start_def simp del: bio_abs_sel)
  let ?W = "?D @ [(start, hb)] @ ?N @ [(start, hb0)]"
  have w: "writes bc = writes (lg_bc s) @ ?W"
    using arg_cong [OF c(4), of a_writes] by simp
  have n: "n \<le> 29" "inj_on blk {0..<n}" "load32 (d start) 0 = 0"
    using assms(1,2) by (simp_all add: log_ready_def blk_def lessThan_atLeast0 d_def start_def)
  have lg: "logged s = blk ` {0..<n}" using assms(2) by (simp add: logged_def blk_def lessThan_atLeast0)
  have out: "blk t \<notin> log_area start" if "t < n" for t
    using assms(1) lg that by (auto simp: log_ready_def start_def disjoint_iff)
  have unlogged: "v b = d b" if "b \<notin> blk ` {0..<n}" for b
    using assms(1) lg that by (simp add: log_ready_def v_def d_def)
  have dother: "b \<notin> lblk start ` {0..<n}" if "b \<notin> log_area start" for b
    using that lblk_area n(1) by fastforce
  have start: "start \<notin> lblk start ` {0..<n}" "start \<notin> blk ` {0..<n}"
    using lblk_start [symmetric] n(1) out by (auto, metis start_area)
  have len: "length ?D = n" "length ?N = n" by (simp_all add: data_writes_def new_writes_def)
  define P where "P r k \<longleftrightarrow> log_ready r \<and> (\<forall>b. b \<notin> log_area start \<longrightarrow> view (lg_bc r) b =
          (if k \<le> n then d b else v b))" for r k
  have crash: "\<exists>r. initlog ROOTDEV start nlog (boot pid (put_writes (take k ?W) d)) = Ret r \<and> P r k"
    if k: "k \<le> length ?W" for k
  proof -
    define e where "e = put_writes (take k ?W) d"
    consider (before) "k \<le> n" | (logged) "n < k" "k \<le> 2 * n + 1" | (erased) "k = 2 * n + 2"
      using k len by fastforce
    then have "\<exists>r. initlog ROOTDEV start nlog (boot pid e) = Ret r \<and> P r k"
    proof cases
      case before
      then have e: "e = put_writes (take k ?D) d" by (simp add: e_def len)
      have "header_says (e start) 0 blk"
        using n(3) start(1) by (simp add: e put_data_writes_other n(1) header_says_def)
      then obtain r where r: "initlog ROOTDEV start nlog (boot pid e) = Ret r" "log_ready r"
        "\<And>b. b \<notin> log_area start \<Longrightarrow> view (lg_bc r) b = put_writes (home_writes start blk e 0 0) e b"
        using initlog_recovers [where nlog = nlog and pid = pid, of e start 0 blk] by (metis not_less0 zero_le)
      moreover have "e b = d b" if "b \<notin> log_area start" for b
        using dother [OF that] by (simp add: e put_data_writes_other n(1))
      ultimately show ?thesis using before by (auto simp: P_def home_writes_def)
    next
      case logged
      define j where "j = k - Suc n"
      have "take k ?W = ?D @ [(start, hb)] @ take j ?N"
        using logged len by (simp add: j_def take_Cons')
      then have e: "e b = put_writes (take j ?N) ((put_writes ?D d)(start := hb)) b" for b
        by (simp add: e_def)
      have nj: "c \<notin> fst ` set (take j ?N)" if "c \<notin> blk ` {0..<n}" for c
        using that by (intro not_in_take) (simp add: fst_new_writes)
      have es: "e start = hb" using nj [OF start(2)] by (simp add: e put_writes_other)
      have el: "e (lblk start t) = v (blk t)" if "t < n" for t
      proof -
        have "lblk start t \<notin> blk ` {0..<n}" using out lblk_area [of t start] n(1) that by auto
        from nj [OF this] show ?thesis
          using lblk_start [of t start] that n(1) data_then_lblk [OF that n(1)]
          by (simp add: e put_writes_other)
      qed
      have "home_writes start blk e 0 n = ?N"
        using el by (simp add: home_writes_def new_writes_def)
      moreover have "header_says (e start) n blk" using c(2) es by simp
      ultimately obtain r where r: "initlog ROOTDEV start nlog (boot pid e) = Ret r" "log_ready r"
        "\<And>b. b \<notin> log_area start \<Longrightarrow> view (lg_bc r) b = put_writes ?N e b"
        using initlog_recovers [where nlog = nlog and pid = pid, of e start n blk] out n(1) by metis
      have "put_writes ?N e b = v b" if b: "b \<notin> log_area start" for b
      proof (cases "b \<in> blk ` {0..<n}")
        case False
        have "e b = d b"
          using put_data_writes_other [OF n(1) dother [OF b], of n blk v d] b len nj [OF False]
          by (auto simp: e put_writes_other)
        with False unlogged show ?thesis by (simp add: new_writes_get [OF n(2)])
      qed (simp add: new_writes_get [OF n(2)])
      with r logged show ?thesis by (auto simp: P_def)
    next
      case erased
      then have "take k ?W = ?W" by (simp add: len)
      then have e: "e b = ((put_writes ?N ((put_writes ?D d)(start := hb)))(start := hb0)) b" for b
        unfolding e_def by simp
      have "header_says (e start) 0 blk" using c(3) by (simp add: e header_says_def)
      then obtain r where r: "initlog ROOTDEV start nlog (boot pid e) = Ret r" "log_ready r"
        "\<And>b. b \<notin> log_area start \<Longrightarrow> view (lg_bc r) b = put_writes (home_writes start blk e 0 0) e b"
        using initlog_recovers [where nlog = nlog and pid = pid, of e start 0 blk] by (metis not_less0 zero_le)
      moreover have "e b = v b" if b: "b \<notin> log_area start" for b
      proof -
        have "put_writes ?D d b = d b"
          using put_data_writes_other [OF n(1) dother [OF b], of n blk v d] len by simp
        moreover have "b \<noteq> start" using b by auto
        ultimately show ?thesis using unlogged by (simp add: e new_writes_get [OF n(2)])
      qed
      ultimately show ?thesis using erased by (auto simp: P_def home_writes_def)
    qed
    then show ?thesis by (simp only: e_def)
  qed
  have "\<exists>s' W. commit s = Ret s' \<and> writes (lg_bc s') = writes (lg_bc s) @ W \<and>
      length W = 2 * n + 2 \<and> (\<forall>k \<le> length W.
      \<exists>r. initlog ROOTDEV start nlog (boot pid (put_writes (take k W) d)) = Ret r \<and> P r k)"
    by (rule exI [of _ "s\<lparr>lg_n := 0, lg_bc := bc\<rparr>"], rule exI [of _ ?W], intro conjI allI impI)
      (rule c(1), use w in simp, use len in simp, rule crash)
  then show ?thesis by (simp only: P_def start_def v_def d_def)
qed

section \<open>What a transaction does\<close>

text \<open>
  commit() brings the disk up to date: afterwards every block outside the log reads as before,
  is on the disk as it reads, and the log is empty.
\<close>

theorem commit_installs:
  assumes "log_ready s"
  shows "\<exists>s'. commit s = Ret s' \<and> log_ready s' \<and> lg_n s' = 0 \<and> lg_start s' = lg_start s \<and>
    lg_size s' = lg_size s \<and> lg_outstanding s' = lg_outstanding s \<and> lg_committing s' = lg_committing s \<and>
    (\<forall>b. b \<notin> log_area (lg_start s) \<longrightarrow>
       view (lg_bc s') b = view (lg_bc s) b \<and> disk (lg_bc s') b = view (lg_bc s) b)"
proof (cases "lg_n s = 0")
  case True
  with assms show ?thesis by (auto simp: commit_def log_ready_def logged_def)
next
  case False
  define n where "n = nat (lg_n s)"
  have n: "lg_n s = int n" "0 < n" using False assms by (auto simp: log_ready_def n_def)
  define v where "v = view (lg_bc s)"
  define blk where "blk = lg_block s"
  define start where "start = lg_start s"
  obtain bc hb hb0 where c: "commit s = Ret (s\<lparr>lg_n := 0, lg_bc := bc\<rparr>)" "bio_inv bc"
    "load32 hb0 0 = 0" "bio_abs bc = unpin_all blk 0 n (run_writes (data_writes start blk v 0 n @
        [(start, hb)] @ new_writes blk v n @ [(start, hb0)]) (bio_abs (lg_bc s)))"
    by (rule commit_trace [OF assms n]) (auto simp: v_def blk_def start_def simp del: bio_abs_sel)
  let ?W = "data_writes start blk v 0 n @ [(start, hb)] @ new_writes blk v n @ [(start, hb0)]"
  have r: "n \<le> 29" "inj_on blk {0..<n}" "logged s = blk ` {0..<n}"
    using assms n by (simp_all add: log_ready_def blk_def lessThan_atLeast0 logged_def)
  have out: "blk ` {0..<n} \<inter> log_area start = {}"
    using assms r by (simp add: log_ready_def start_def)
  have a: "view bc = put_writes ?W v" "disk bc = put_writes ?W (disk (lg_bc s))"
      "handle bc = handle (lg_bc s)" "pins bc = a_pins (unpin_all blk 0 n (bio_abs (lg_bc s)))"
    using arg_cong [OF c(4), of a_view] arg_cong [OF c(4), of a_disk] arg_cong [OF c(4), of a_pins]
      arg_cong [OF c(4), of a_held] by (simp_all add: unpin_all_run v_def)
  have pins: "pins bc x = 0" for x
  proof -
    have "pins bc x = pins (lg_bc s) x - (if x \<in> blk ` {0..<n} then 1 else 0)"
      unfolding a(4) unpin_all_def
      by (subst unpin_all_pins) (use r(2) in \<open>simp_all add: distinct_map\<close>)
    moreover have "pins (lg_bc s) x = (if x \<in> blk ` {0..<n} then 1 else 0)"
      using assms r(3) by (simp add: log_ready_def)
    ultimately show ?thesis by simp
  qed
  have same: "v b = disk (lg_bc s) b" if "b \<notin> blk ` {0..<n}" for b
    using assms r(3) that by (simp add: log_ready_def v_def)
  have late: "put_writes ?W d b = v b" if "b \<in> blk ` {0..<n}" for d b
  proof -
    have "b \<noteq> start" using that out by (metis disjoint_iff start_area)
    with that show ?thesis by (simp add: new_writes_get [OF r(2)])
  qed
  have vd: "view bc b = disk bc b" for b
  proof (cases "b \<in> blk ` {0..<n}")
    case False
    from put_writes_agree [of v b "disk (lg_bc s)" ?W] same [OF False] show ?thesis
      unfolding a(1,2) by blast
  qed (simp only: a(1,2) late)
  have vw: "view bc b = v b" if "b \<notin> log_area start" for b
  proof (cases "b \<in> blk ` {0..<n}")
    case False
    have "b \<noteq> start" "b \<notin> lblk start ` {0..<n}" using that lblk_area r(1) by fastforce+
    with False have "b \<notin> fst ` set ?W" by (auto simp: fst_new_writes fst_data_writes image_iff
        new_writes_def data_writes_def)
    then show ?thesis unfolding a(1) by (rule put_writes_other)
  qed (simp only: a(1) late)
  have "disk bc start = hb0" by (simp add: a(2))
  then have "log_ready (s\<lparr>lg_n := 0, lg_bc := bc\<rparr>)"
    using assms c(2,3) a(3) pins vd by (simp add: log_ready_def logged_def start_def)
  with c(1) vd vw show ?thesis by (simp add: v_def start_def)
qed

text \<open>How a client of the log reads, modifies and releases a block.\<close>

definition log_bread :: "u32 \<Rightarrow> xlog \<Rightarrow> (nat \<times> xlog) outcome" where
  "log_bread b s = obind (bread (lg_dev s) b (lg_bc s)) (\<lambda>(i, bc). Ret (i, s\<lparr>lg_bc := bc\<rparr>))"

definition log_brelse :: "nat \<Rightarrow> xlog \<Rightarrow> xlog outcome" where
  "log_brelse i s = obind (brelse i (lg_bc s)) (\<lambda>bc. Ret (s\<lparr>lg_bc := bc\<rparr>))"

definition log_put :: "nat \<Rightarrow> bytes \<Rightarrow> xlog \<Rightarrow> xlog" where
  "log_put i x s = s\<lparr>lg_bc := put_data i x (lg_bc s)\<rparr>"

lemma log_read_release:
  assumes "log_ready s"
  obtains i s1 s2 where "log_bread b s = Ret (i, s1)" and "get_data i (lg_bc s1) = view (lg_bc s) b"
    and "log_brelse i s1 = Ret s2" and "log_ready s2" and "s2 = s\<lparr>lg_bc := lg_bc s2\<rparr>"
    and "bio_abs (lg_bc s2) = bio_abs (lg_bc s)"
proof -
  let ?a = "bio_abs (lg_bc s)"
  have r: "bio_inv (lg_bc s)" "lg_dev s = ROOTDEV" using assms by (simp_all add: log_ready_def)
  have p: "a_pins ?a b > 0 \<or> a_view ?a b = a_disk ?a b" using assms by (simp add: log_ready_def)
  obtain i bc1 bc2 where b: "bread ROOTDEV b (lg_bc s) = Ret (i, bc1)" "get_data i bc1 = a_view ?a b"
      "brelse i bc1 = Ret bc2" "bio_inv bc2" "bio_abs bc2 = ?a"
    using bio.read_release [OF r(1) calm_room [OF log_ready_calm [OF assms]] p] by metis
  have "view bc2 = view (lg_bc s)" "disk bc2 = disk (lg_bc s)" "pins bc2 = pins (lg_bc s)"
      "handle bc2 = handle (lg_bc s)"
    using b(5) by (simp_all add: bio_abs_def)
  then have "log_ready (s\<lparr>lg_bc := bc2\<rparr>)" using assms b(4) by (simp add: log_ready_def logged_def)
  with b r(2) show ?thesis
    by (intro that [of i "s\<lparr>lg_bc := bc1\<rparr>" "s\<lparr>lg_bc := bc2\<rparr>"])
      (simp_all add: log_bread_def log_brelse_def del: bio_abs_sel, simp)
qed

text \<open>
  Updating a block in a transaction: the block joins the log, at most once; it reads as
  written; the disk does not change.
\<close>

lemma scan_logged:
  "scan (\<lambda>i. blk i = b) 0 n = None \<longleftrightarrow> b \<notin> blk ` {..<n}"
  by (auto simp: scan_simps)

theorem log_update:
  assumes "log_ready s" and "lg_n s < 29" and "lg_n s < lg_size s - 1" and "0 < lg_outstanding s"
    and "b \<notin> log_area (lg_start s)"
  shows "\<exists>i s1. log_bread b s = Ret (i, s1) \<and> get_data i (lg_bc s1) = view (lg_bc s) b \<and>
    (\<forall>x. \<exists>s2 s3. log_write i (log_put i x s1) = Ret s2 \<and> log_brelse i s2 = Ret s3 \<and>
      log_ready s3 \<and> view (lg_bc s3) = (view (lg_bc s))(b := x) \<and> disk (lg_bc s3) = disk (lg_bc s) \<and>
      logged s3 = insert b (logged s) \<and> lg_n s3 = lg_n s + (if b \<in> logged s then 0 else 1) \<and>
      lg_start s3 = lg_start s \<and> lg_size s3 = lg_size s \<and> lg_outstanding s3 = lg_outstanding s \<and>
      lg_committing s3 = lg_committing s)"
proof -
  let ?a = "bio_abs (lg_bc s)"
  have r: "bio_inv (lg_bc s)" "lg_dev s = ROOTDEV" "a_held ?a = (\<lambda>_. None)" "0 \<le> lg_n s"
    using assms(1) by (simp_all add: log_ready_def)
  have pin: "a_pins ?a c = (if c \<in> logged s then 1 else 0)" for c using assms(1) by (simp add: log_ready_def)
  obtain i bc1 where 1: "bread ROOTDEV b (lg_bc s) = Ret (i, bc1)" "bio_inv bc1" "bio_abs bc1 = hold i b ?a"
    using bio.read_law [OF r(1) calm_room [OF log_ready_calm [OF assms(1)]]] by metis
  have h: "a_held (bio_abs bc1) i = Some b" using 1 by simp
  have "\<exists>s2 s3. log_write i (log_put i x (s\<lparr>lg_bc := bc1\<rparr>)) = Ret s2 \<and> log_brelse i s2 = Ret s3 \<and>
      log_ready s3 \<and> view (lg_bc s3) = (view (lg_bc s))(b := x) \<and> disk (lg_bc s3) = disk (lg_bc s) \<and>
      logged s3 = insert b (logged s) \<and> lg_n s3 = lg_n s + (if b \<in> logged s then 0 else 1) \<and>
      lg_start s3 = lg_start s \<and> lg_size s3 = lg_size s \<and> lg_outstanding s3 = lg_outstanding s \<and>
      lg_committing s3 = lg_committing s" for x
  proof -
    let ?p = "put_data i x bc1" and ?n = "nat (lg_n s)"
    have p: "bio_inv ?p" "bio_abs ?p = see b x (bio_abs bc1)"
      using bio.put_law [OF 1(2) h] by auto
    have hp: "a_held (bio_abs ?p) i = Some b" using p h by simp
    then have bno: "b_blockno (bc_buf ?p i) = b" using handle_facts(2) [OF p(1)] by simp
    define blk where "blk = (lg_block s)(?n := b)"
    have fin: ?thesis
      if w: "log_write i (log_put i x (s\<lparr>lg_bc := bc1\<rparr>)) = Ret s2" and inv: "bio_inv (lg_bc s2)"
        and ab: "bio_abs (lg_bc s2) = (if b \<in> logged s then see b x (hold i b ?a) else pin b (see b x (hold i b ?a)))"
        and n: "lg_n s2 = lg_n s + (if b \<in> logged s then 0 else 1)"
        and lg: "logged s2 = insert b (logged s)" and inj: "inj_on (lg_block s2) {..<nat (lg_n s2)}"
        and fr: "lg_start s2 = lg_start s" "lg_size s2 = lg_size s" "lg_outstanding s2 = lg_outstanding s"
          "lg_committing s2 = lg_committing s" "lg_dev s2 = lg_dev s" for s2
    proof -
      have h2: "a_held (bio_abs (lg_bc s2)) i = Some b" using ab by simp
      have "droppable (bio_abs (lg_bc s2)) b" using ab pin [of b] by (simp add: droppable_def)
      then obtain bc3 where 3: "brelse i (lg_bc s2) = Ret bc3" "bio_inv bc3"
          "bio_abs bc3 = unhold i b (bio_abs (lg_bc s2))"
        using bio.release_law [OF inv h2] by blast
      have v: "view bc3 = (view (lg_bc s))(b := x)" "disk bc3 = disk (lg_bc s)"
        "handle bc3 = (\<lambda>_. None)" "pins bc3 = (pins (lg_bc s))(b := 1)"
        using arg_cong [OF 3(3), of a_view] arg_cong [OF 3(3), of a_disk] arg_cong [OF 3(3), of a_pins]
          arg_cong [OF 3(3), of a_held] ab r(3) pin [of b] by simp_all
      have lg3: "logged (s2\<lparr>lg_bc := bc3\<rparr>) = insert b (logged s)" using lg by (simp add: logged_def)
      have "log_ready (s2\<lparr>lg_bc := bc3\<rparr>)"
        unfolding log_ready_def lg3 using assms(1,2,5) 3(2) v n inj fr
        by (auto simp: log_ready_def)
      with w 3(1) v n lg3 fr show ?thesis
        by (intro exI [of _ s2] exI [of _ "s2\<lparr>lg_bc := bc3\<rparr>"]) (simp add: log_brelse_def)
    qed
    show ?thesis
    proof (cases "b \<in> logged s")
      case True
      then obtain k where k: "scan (\<lambda>i. lg_block s i = b) 0 ?n = Some k"
        using scan_logged [of "lg_block s" b ?n] by (auto simp: logged_def)
      then have "lg_block s k = b" by (simp add: scan_simps)
      then have "(lg_block s)(k := b) = lg_block s" by auto
      with k assms(2-4) bno have "log_write i (log_put i x (s\<lparr>lg_bc := bc1\<rparr>)) = Ret (s\<lparr>lg_bc := ?p\<rparr>)"
        by (simp add: log_write_def log_put_def Let_def)
      then show ?thesis
        by (rule fin) (use True p 1(3) assms(1) in
          \<open>simp_all add: logged_def insert_absorb log_ready_def del: bio_abs_sel\<close>)
    next
      case False
      then have "scan (\<lambda>i. lg_block s i = b) 0 ?n = None" by (simp add: scan_logged logged_def)
      with assms(2-4) bno have w: "log_write i (log_put i x (s\<lparr>lg_bc := bc1\<rparr>)) =
          Ret (s\<lparr>lg_bc := bpin i ?p, lg_block := blk, lg_n := lg_n s + 1\<rparr>)"
        by (simp add: log_write_def log_put_def Let_def blk_def)
      have pl: "bio_inv (bpin i ?p)" "bio_abs (bpin i ?p) = pin b (bio_abs ?p)"
        using bio.pin_law [OF p(1) hp] p(2) 1(3) pin [of b] by auto
      have img: "blk ` {..<nat (lg_n s + 1)} = insert b (logged s)"
        using r(4) by (auto simp: blk_def logged_def nat_add_distrib lessThan_Suc)
      have inj: "inj_on blk {..<nat (lg_n s + 1)}"
        using False assms(1) r(4)
        by (auto simp: blk_def log_ready_def logged_def nat_add_distrib lessThan_Suc inj_on_def)
      from w show ?thesis
        by (rule fin) (use False pl p(2) 1(3) img inj in \<open>simp_all add: logged_def del: bio_abs_sel\<close>)
    qed
  qed
  moreover have "log_bread b s = Ret (i, s\<lparr>lg_bc := bc1\<rparr>)" using 1(1) r(2) by (simp add: log_bread_def)
  moreover have "get_data i bc1 = view (lg_bc s) b" using bio.get_law [OF 1(2) h] 1(3) by simp
  ultimately show ?thesis by (intro exI [of _ i] exI [of _ "s\<lparr>lg_bc := bc1\<rparr>"]) simp
qed

section \<open>Whole transactions\<close>

text \<open>A sequence of block updates, each \<open>bread; modify; log_write; brelse\<close>.\<close>

fun log_updates :: "disk_trace \<Rightarrow> xlog \<Rightarrow> xlog outcome" where
  "log_updates [] s = Ret s"
| "log_updates ((b, x) # ws) s =
     obind (log_bread b s) (\<lambda>(i, s).
     obind (log_write i (log_put i x s)) (\<lambda>s.
     obind (log_brelse i s) (\<lambda>s. log_updates ws s)))"

lemma log_updates_append: "log_updates (u @ v) t = obind (log_updates u t) (log_updates v)"
proof (induction u arbitrary: t)
  case (Cons w u)
  obtain b x where w: "w = (b, x)" by (cases w)
  from Cons have "log_updates (u @ v) = (\<lambda>t. obind (log_updates u t) (log_updates v))" by (rule ext)
  then show ?case by (simp add: w obind_assoc split_beta')
qed simp

lemma log_updates_eq:
  assumes "log_ready s" and "lg_n s + int (length ws) \<le> 29"
    and "lg_n s + int (length ws) < lg_size s" and "0 < lg_outstanding s"
    and "fst ` set ws \<inter> log_area (lg_start s) = {}"
  shows "\<exists>s'. log_updates ws s = Ret s' \<and> log_ready s' \<and> view (lg_bc s') = put_writes ws (view (lg_bc s)) \<and>
    disk (lg_bc s') = disk (lg_bc s) \<and> logged s' = logged s \<union> fst ` set ws \<and>
    (distinct (map fst ws) \<longrightarrow> fst ` set ws \<inter> logged s = {} \<longrightarrow> lg_n s' = lg_n s + int (length ws)) \<and>
    lg_start s' = lg_start s \<and> lg_size s' = lg_size s \<and> lg_outstanding s' = lg_outstanding s \<and>
    lg_committing s' = lg_committing s"
  using assms
proof (induction ws arbitrary: s)
  case (Cons w ws)
  obtain b x where w: "w = (b, x)" by (cases w)
  have c: "lg_n s < 29" "lg_n s < lg_size s - 1" "b \<notin> log_area (lg_start s)"
    using Cons.prems(2,3,5) w by auto
  from log_update [OF Cons.prems(1) c(1,2) Cons.prems(4) c(3)]
  obtain i s1 s2 s3 where u: "log_bread b s = Ret (i, s1)" "log_write i (log_put i x s1) = Ret s2"
    "log_brelse i s2 = Ret s3" "log_ready s3" "view (lg_bc s3) = (view (lg_bc s))(b := x)"
    "disk (lg_bc s3) = disk (lg_bc s)" "logged s3 = insert b (logged s)"
    "lg_n s3 = lg_n s + (if b \<in> logged s then 0 else 1)"
    "lg_start s3 = lg_start s" "lg_size s3 = lg_size s" "lg_outstanding s3 = lg_outstanding s"
    "lg_committing s3 = lg_committing s"
    by blast
  have p: "lg_n s3 + int (length ws) \<le> 29" "lg_n s3 + int (length ws) < lg_size s3"
    using Cons.prems(2,3) u(8,10) by auto
  from Cons.IH [OF u(4) p] obtain s4 where s4: "log_updates ws s3 = Ret s4" "log_ready s4"
    "view (lg_bc s4) = put_writes ws (view (lg_bc s3))" "disk (lg_bc s4) = disk (lg_bc s3)"
    "logged s4 = logged s3 \<union> fst ` set ws"
    "distinct (map fst ws) \<longrightarrow> fst ` set ws \<inter> logged s3 = {} \<longrightarrow> lg_n s4 = lg_n s3 + int (length ws)"
    "lg_start s4 = lg_start s3" "lg_size s4 = lg_size s3" "lg_outstanding s4 = lg_outstanding s3"
    "lg_committing s4 = lg_committing s3"
    using Cons.prems(4,5) u(9,11) w by auto
  have "log_updates (w # ws) s = Ret s4" using u(1-3) s4(1) by (simp add: w)
  moreover have "view (lg_bc s4) = put_writes (w # ws) (view (lg_bc s))"
    by (simp only: s4(3) u(5) w put_writes.simps)
  moreover have "lg_n s4 = lg_n s + int (length (w # ws))"
    if "distinct (map fst (w # ws))" "fst ` set (w # ws) \<inter> logged s = {}"
  proof -
    from that have "distinct (map fst ws)" "fst ` set ws \<inter> logged s3 = {}" "b \<notin> logged s"
      by (auto simp: w u(7))
    with s4(6) u(8) show ?thesis by simp
  qed
  ultimately show ?case using s4 u by (intro exI [of _ s4]) (auto simp: w)
qed simp

text \<open>
  C3. A system call's transaction, run alone: begin_op(), its updates, end_op(). It returns, and then
  the updates are on the disk in their home places and the log is empty again.
\<close>

theorem transaction_commits:
  assumes "log_ready s" and "lg_n s = 0" and "lg_outstanding s = 0" and "\<not> lg_committing s"
    and "length ws \<le> 10" and "10 < lg_size s" and "fst ` set ws \<inter> log_area (lg_start s) = {}"
  shows "\<exists>s'. obind (begin_op s) (\<lambda>s. obind (log_updates ws s) end_op) = Ret s' \<and>
    log_ready s' \<and> lg_n s' = 0 \<and> lg_outstanding s' = 0 \<and> \<not> lg_committing s' \<and>
    (\<forall>b. b \<notin> log_area (lg_start s) \<longrightarrow> disk (lg_bc s') b = put_writes ws (disk (lg_bc s)) b \<and>
       view (lg_bc s') b = disk (lg_bc s') b)"
proof -
  define s1 where "s1 = s\<lparr>lg_outstanding := lg_outstanding s + 1\<rparr>"
  have b: "begin_op s = Ret s1" using assms(2-4) by (simp add: begin_op_def s1_def)
  have r1: "log_ready s1" "lg_n s1 = 0" "lg_outstanding s1 = 1" "\<not> lg_committing s1"
      "lg_start s1 = lg_start s" "lg_size s1 = lg_size s" "lg_bc s1 = lg_bc s"
    using assms(1-4) by (auto simp: log_ready_def logged_def s1_def)
  obtain s2 where s2: "log_updates ws s1 = Ret s2" "log_ready s2"
      "view (lg_bc s2) = put_writes ws (view (lg_bc s1))" "disk (lg_bc s2) = disk (lg_bc s1)"
      "lg_start s2 = lg_start s1" "lg_outstanding s2 = 1" "\<not> lg_committing s2"
    using log_updates_eq [OF r1(1), of ws] r1 assms(5-7) by auto
  define s3 where "s3 = s2\<lparr>lg_outstanding := 0, lg_committing := True\<rparr>"
  have "log_ready s3" using s2(2) by (simp add: log_ready_def logged_def s3_def)
  then obtain s4 where s4: "commit s3 = Ret s4" "log_ready s4" "lg_n s4 = 0"
      "lg_outstanding s4 = lg_outstanding s3"
      "\<forall>b. b \<notin> log_area (lg_start s3) \<longrightarrow>
         view (lg_bc s4) b = view (lg_bc s3) b \<and> disk (lg_bc s4) b = view (lg_bc s3) b"
    using commit_installs by blast
  have "view (lg_bc s) = disk (lg_bc s)" using assms(1,2) by (auto simp: log_ready_def logged_def)
  then have v: "view (lg_bc s3) = put_writes ws (disk (lg_bc s))" by (simp add: s3_def s2(3) r1(7))
  have st: "lg_start s3 = lg_start s" by (simp add: s3_def s2(5) r1(5))
  have "end_op s2 = Ret (s4\<lparr>lg_committing := False\<rparr>)"
    using s4(1) s2(6,7) by (simp add: end_op_def s3_def)
  moreover have "log_ready (s4\<lparr>lg_committing := False\<rparr>)"
    using s4(2) by (simp add: log_ready_def logged_def)
  ultimately show ?thesis using b s2(1) s4(3,4,5) v st by (simp add: s3_def)
qed

text \<open>
  C40. begin_op() admits three operations of \<open>MAXOPBLOCKS\<close> blocks to an empty log, but log_write()
  accepts one block less than the log's size, which mkfs sets to \<open>LOGSIZE\<close> with the header
  included: three admitted operations that each use their reservation make the kernel panic.
\<close>

theorem three_full_ops_panic:
  assumes "log_ready s" and "lg_n s = 0" and "lg_outstanding s = 0" and "\<not> lg_committing s"
    and "lg_size s = LOGSIZE" and "length ws = 30" and "distinct (map fst ws)"
    and "fst ` set ws \<inter> log_area (lg_start s) = {}"
  shows "obind (begin_op s) (\<lambda>s. obind (begin_op s) (\<lambda>s. obind (begin_op s) (log_updates ws)))
    = opanic ''too big a transaction''"
proof -
  define s1 where "s1 = s\<lparr>lg_outstanding := 3\<rparr>"
  have "obind (begin_op s) (\<lambda>s. obind (begin_op s) begin_op) = Ret s1"
    using assms(2-4) by (simp add: begin_op_def s1_def)
  then have b: "obind (begin_op s) (\<lambda>s. obind (begin_op s) (\<lambda>s. obind (begin_op s) (log_updates ws))) =
      log_updates ws s1"
    by (auto simp: outcome_simps begin_op_def)
  have r1: "log_ready s1" "lg_n s1 = 0" "lg_outstanding s1 = 3" "lg_start s1 = lg_start s" "lg_size s1 = 30"
    using assms(1,2,5) by (auto simp: log_ready_def logged_def s1_def)
  let ?u = "take 29 ws"
  have u: "length ?u = 29" "distinct (map fst ?u)" "fst ` set ?u \<inter> log_area (lg_start s1) = {}"
    using assms(6,8) r1(4) distinct_take [OF assms(7), of 29] by (auto simp: take_map dest: in_set_takeD)
  obtain s2 where s2: "log_updates ?u s1 = Ret s2" "log_ready s2" "lg_n s2 = 29" "lg_size s2 = 30"
      "lg_start s2 = lg_start s"
    using log_updates_eq [OF r1(1), of ?u] r1(2-5) u by (auto simp: logged_def)
  obtain b x where last: "ws = ?u @ [(b, x)]"
  proof -
    have "drop 29 ws = [ws ! 29]" using assms(6) by (simp add: Cons_nth_drop_Suc [symmetric])
    then have "ws = ?u @ [ws ! 29]" by (metis append_take_drop_id)
    then show ?thesis using that by (metis surj_pair)
  qed
  have "lg_dev s2 = ROOTDEV" using s2(2) by (simp add: log_ready_def)
  moreover obtain i s3 bc where "bread ROOTDEV b (lg_bc s2) = Ret (i, bc)"
    using bio.read_law [OF _ calm_room [OF log_ready_calm [OF s2(2)]]] s2(2) by (metis log_ready_def)
  ultimately have "log_updates [(b, x)] s2 = opanic ''too big a transaction''"
    using s2(3,4) by (simp add: log_bread_def log_write_def log_put_def)
  with s2(1) show ?thesis unfolding b by (subst last) (simp add: log_updates_append)
qed

section \<open>Admission\<close>

text \<open>
  The operations in progress with the number of log_write() calls each has made. An operation
  begins when begin_op() admits it, may write at most \<open>MAXOPBLOCKS\<close> times, and ends.
\<close>

inductive log_step :: "xlog \<times> nat list \<Rightarrow> xlog \<times> nat list \<Rightarrow> bool" where
  Begin: "begin_op s = Ret s' \<Longrightarrow> log_step (s, us) (s', us @ [0])"
| Write: "i < length us \<Longrightarrow> us ! i < 10 \<Longrightarrow> log_write b s = Ret s' \<Longrightarrow>
    log_step (s, us) (s', us[i := Suc (us ! i)])"
| Finish: "i < length us \<Longrightarrow> end_op s = Ret s' \<Longrightarrow> log_step (s, us) (s', take i us @ drop (Suc i) us)"

inductive_cases log_step_cases: "log_step (s, us) p"

definition budget :: "nat list \<Rightarrow> int" where
  "budget us = (\<Sum>u\<leftarrow>us. 10 - int u)"

definition admitted :: "xlog \<times> nat list \<Rightarrow> bool" where
  "admitted p \<longleftrightarrow> (case p of (s, us) \<Rightarrow> lg_outstanding s = int (length us) \<and> 0 \<le> lg_n s \<and>
     lg_n s + budget us \<le> LOGSIZE \<and> (\<forall>u \<in> set us. u \<le> 10) \<and> \<not> lg_committing s)"

lemma budget_split:
  "i < length us \<Longrightarrow> budget us = budget (take i us) + (10 - int (us ! i)) + budget (drop (Suc i) us)"
  by (subst id_take_nth_drop [of i us]) (simp_all add: budget_def)

lemma budget_nonneg: "(\<forall>u \<in> set us. u \<le> 10) \<Longrightarrow> 0 \<le> budget us"
  unfolding budget_def by (intro sum_list_nonneg) auto

lemma budget_le: "budget us \<le> 10 * int (length us)"
  by (induction us) (simp_all add: budget_def)

lemma budget_bump:
  assumes "i < length us"
  shows "budget (us[i := Suc (us ! i)]) = budget us - 1"
  using assms budget_split [of i us] budget_split [of i "us[i := Suc (us ! i)]"] by simp

lemma commit_frame:
  "commit s = Ret s' \<Longrightarrow> lg_outstanding s' = lg_outstanding s \<and> lg_committing s' = lg_committing s \<and>
   lg_n s' = (if lg_n s > 0 then 0 else lg_n s)"
  by (auto simp: commit_def write_log_def write_head_def install_trans_def outcome_simps Let_def
      split: if_splits)

lemma log_write_frame:
  "log_write b s = Ret s' \<Longrightarrow> lg_outstanding s' = lg_outstanding s \<and> lg_committing s' = lg_committing s \<and>
   lg_n s \<le> lg_n s' \<and> lg_n s' \<le> lg_n s + 1"
  by (auto simp: log_write_def Let_def split: if_splits option.splits)

lemma admitted_step: "log_step p q \<Longrightarrow> admitted p \<Longrightarrow> admitted q"
proof (induction rule: log_step.induct)
  case (Begin s s' us)
  then have s: "s' = s\<lparr>lg_outstanding := lg_outstanding s + 1\<rparr>"
      "lg_n s + (lg_outstanding s + 1) * 10 \<le> 30" "\<not> lg_committing s"
    by (auto simp: begin_op_def split: if_splits)
  have "budget (us @ [0]) = budget us + 10" by (simp add: budget_def)
  with Begin s budget_le [of us] show ?case by (auto simp: admitted_def)
next
  case (Write i us b s s')
  then show ?case using log_write_frame [OF Write(3)] budget_bump [OF Write(1)]
    by (auto simp: admitted_def dest!: subsetD [OF set_update_subset_insert])
next
  case (Finish i us s s')
  have le: "\<forall>u \<in> set us. u \<le> 10" and n: "lg_n s + budget us \<le> 30" "0 \<le> lg_n s"
    and o: "lg_outstanding s = int (length us)" and nc: "\<not> lg_committing s"
    using Finish by (auto simp: admitted_def)
  let ?vs = "take i us @ drop (Suc i) us"
  have vs: "\<forall>u \<in> set ?vs. u \<le> 10" using le by (auto dest: in_set_takeD in_set_dropD)
  have "budget ?vs = budget us - (10 - int (us ! i))"
    using budget_split [OF Finish(1)] by (simp add: budget_def)
  moreover have "us ! i \<le> 10" using le Finish(1) by simp
  ultimately have b: "budget ?vs \<le> budget us" by simp
  have len: "int (length ?vs) = int (length us) - 1" using Finish(1) by simp
  show ?case
  proof (cases "lg_outstanding s - 1 = 0")
    case True
    with Finish(2) nc obtain t where t: "commit (s\<lparr>lg_outstanding := 0, lg_committing := True\<rparr>) = Ret t"
        "s' = t\<lparr>lg_committing := False\<rparr>"
      by (auto simp: end_op_def Let_def outcome_simps)
    from commit_frame [OF t(1)] have "lg_outstanding s' = 0" "lg_n s' = 0 \<or> lg_n s' = lg_n s" "\<not> lg_committing s'"
      using t(2) by auto
    moreover have "?vs = []" using len True o by auto
    ultimately show ?thesis using n budget_nonneg [OF le] by (auto simp: admitted_def budget_def)
  next
    case False
    with Finish(2) nc have "s' = s\<lparr>lg_outstanding := lg_outstanding s - 1\<rparr>"
      by (auto simp: end_op_def Let_def)
    with vs b n len o nc show ?thesis by (simp add: admitted_def)
  qed
qed

text \<open>
  C8. How far the reservation of begin_op() goes: from an empty log of at least LOGSIZE blocks, in every
  state the operations can reach, an operation that has not used up its blocks finds room in
  the header, which never holds more than LOGSIZE blocks, with one exception. On a log of exactly
  LOGSIZE blocks, the one mkfs makes, log_write() panics when the header already holds
  LOGSIZE - 1 blocks.
\<close>

theorem admitted_log_write:
  assumes "rtranclp log_step (s0, []) (s, us)" and "lg_n s0 = 0" and "lg_outstanding s0 = 0"
    and "\<not> lg_committing s0" and "i < length us" and "us ! i < 10" and "LOGSIZE \<le> lg_size s"
  shows "if lg_size s = LOGSIZE \<and> lg_n s = LOGSIZE - 1 then log_write b s = opanic ''too big a transaction''
    else \<exists>s'. log_write b s = Ret s' \<and> lg_n s' \<le> LOGSIZE"
proof -
  have "admitted (s0, [])" using assms(2-4) by (simp add: admitted_def budget_def)
  with assms(1) have a: "admitted (s, us)"
    by (induction rule: rtranclp_induct) (auto intro: admitted_step)
  have "0 \<le> budget (take i us)" "0 \<le> budget (drop (Suc i) us)"
    using a by (auto simp: admitted_def intro!: budget_nonneg dest: in_set_takeD in_set_dropD)
  with budget_split [OF assms(5)] assms(6) a have "lg_n s < 30" "0 < lg_outstanding s"
    using assms(5) by (auto simp: admitted_def)
  with assms(7) show ?thesis by (auto simp: log_write_def Let_def split: option.splits)
qed

section \<open>Instances\<close>

text \<open>The log of a fresh file system, and the same log inside a transaction that wrote block 40.\<close>

lemma fresh_log:
  obtains r where "initlog ROOTDEV 2 30 (boot 1 (\<lambda>_ _. 0)) = Ret r" and "log_ready r" and "lg_n r = 0"
    and "lg_outstanding r = 0" and "\<not> lg_committing r" and "lg_size r = 30" and "lg_start r = 2"
    and "\<And>b. b \<notin> log_area 2 \<Longrightarrow> disk (lg_bc r) b = (\<lambda>_. 0)"
proof -
  have "header_says ((\<lambda>_ _. 0) (2::u32)) 0 (\<lambda>_. 0)" by (simp add: header_says_def load32_def)
  then obtain r where r: "initlog ROOTDEV 2 30 (boot 1 (\<lambda>_ _. 0)) = Ret r" "log_ready r" "lg_n r = 0"
    "lg_outstanding r = 0" "\<not> lg_committing r" "lg_size r = 30" "lg_start r = 2"
    "\<And>b. b \<notin> log_area 2 \<Longrightarrow> view (lg_bc r) b = (\<lambda>_. 0)"
    by (rule initlog_recovers [where nlog = 30 and pid = 1 and d = "\<lambda>_ _. 0" and start = 2])
      (auto simp: home_writes_def)
  moreover have "view (lg_bc r) b = disk (lg_bc r) b" for b
    using r(2,3) by (simp add: log_ready_def logged_def)
  ultimately show ?thesis by (intro that) auto
qed

lemma of_nat_u32_inj: "(of_nat i :: u32) = of_nat j \<Longrightarrow> i < 2000 \<Longrightarrow> j < 2000 \<Longrightarrow> i = j"
proof -
  have u: "unat (of_nat m :: u32) = m" if "m < 2000" for m
    using that by (simp add: unat_of_nat take_bit_nat_eq_self)
  assume "(of_nat i :: u32) = of_nat j" and b: "i < 2000" "j < 2000"
  then have "unat (of_nat i :: u32) = unat (of_nat j :: u32)" by (rule_tac arg_cong)
  then show ?thesis unfolding u [OF b(1)] u [OF b(2)] .
qed

lemma outside_area: "40 \<le> k \<Longrightarrow> k < 2000 \<Longrightarrow> (of_nat k :: u32) \<notin> log_area 2"
proof
  assume k: "40 \<le> k" "k < 2000" "(of_nat k :: u32) \<in> log_area 2"
  then obtain i where i: "i < 30" "(of_nat k :: u32) = of_nat (2 + i)" by (auto simp: log_area_def)
  have "k = 2 + i" using i k(2) by (intro of_nat_u32_inj) simp_all
  with k(1) i(1) show False by simp
qed

lemma open_log:
  obtains s where "log_ready s" and "lg_n s = 1" and "lg_start s = 2"
    and "view (lg_bc s) 40 = (\<lambda>_. 7)" and "disk (lg_bc s) 40 = (\<lambda>_. 0)"
proof -
  obtain r where r: "log_ready r" "lg_n r = 0" "lg_size r = 30" "lg_start r = 2"
    "\<And>b. b \<notin> log_area 2 \<Longrightarrow> disk (lg_bc r) b = (\<lambda>_. 0)"
    by (rule fresh_log) blast
  define t where "t = r\<lparr>lg_outstanding := 1\<rparr>"
  have t: "log_ready t" "lg_n t = 0" "lg_size t = 30" "lg_start t = 2" "lg_outstanding t = 1"
      "disk (lg_bc t) 40 = (\<lambda>_. 0)"
    using r outside_area [of 40] by (simp_all add: t_def log_ready_def logged_def)
  define ws :: disk_trace where "ws = [(40, \<lambda>_. 7)]"
  obtain s' where "log_updates ws t = Ret s'" "log_ready s'" "lg_n s' = 1" "lg_start s' = 2"
      "view (lg_bc s') = put_writes ws (view (lg_bc t))" "disk (lg_bc s') = disk (lg_bc t)"
  proof -
    have "fst ` set ws \<inter> log_area (lg_start t) = {}" "distinct (map fst ws)" "length ws = 1"
        "fst ` set ws \<inter> logged t = {}"
      using t(2,4) outside_area [of 40] by (simp_all add: ws_def logged_def)
    with log_updates_eq [OF t(1), of ws] t(2-5) that show ?thesis by auto
  qed
  then show ?thesis using that t(6) by (simp add: ws_def)
qed

theorem commit_crash_atomic_witness:
  "\<exists>s s' W r. log_ready s \<and> commit s = Ret s' \<and> writes (lg_bc s') = writes (lg_bc s) @ W \<and>
     initlog ROOTDEV 2 30 (boot 1 (put_writes (take 2 W) (disk (lg_bc s)))) = Ret r \<and>
     disk (lg_bc s) 40 = (\<lambda>_. 0) \<and> view (lg_bc r) 40 = (\<lambda>_. 7)"
proof -
  obtain s where s: "log_ready s" "lg_n s = int 1" "lg_start s = 2"
    "view (lg_bc s) 40 = (\<lambda>_. 7)" "disk (lg_bc s) 40 = (\<lambda>_. 0)"
    by (rule open_log) simp
  have out: "40 \<notin> log_area 2" using outside_area [of 40] by simp
  obtain s' W where w: "commit s = Ret s'" "writes (lg_bc s') = writes (lg_bc s) @ W"
    and len: "length W = 4"
    and cr: "\<And>k. k \<le> 4 \<Longrightarrow> \<exists>r. initlog ROOTDEV 2 30 (boot 1 (put_writes (take k W) (disk (lg_bc s)))) = Ret r \<and>
       log_ready r \<and> (\<forall>b. b \<notin> log_area 2 \<longrightarrow> view (lg_bc r) b =
          (if k \<le> 1 then disk (lg_bc s) b else view (lg_bc s) b))"
    using commit_crash_atomic [OF s(1,2), where nlog = 30 and pid = 1] s(3) by auto
  from cr [of 2] obtain r where "initlog ROOTDEV 2 30 (boot 1 (put_writes (take 2 W) (disk (lg_bc s)))) = Ret r"
      "view (lg_bc r) 40 = view (lg_bc s) 40"
    using out by auto
  with s w show ?thesis by metis
qed

theorem recovery_restartable_witness:
  "\<exists>d r. d 2 = store32 (store32 (\<lambda>_. 0) 0 1) 4 40 \<and>
     initlog ROOTDEV 2 30 (boot 1 d) = Ret r \<and> (\<forall>k \<le> length (writes (lg_bc r)). \<exists>r'.
       initlog ROOTDEV 2 30 (boot 1 (put_writes (take k (writes (lg_bc r))) d)) = Ret r' \<and>
       view (lg_bc r') 40 = view (lg_bc r) 40)"
proof -
  define d :: "u32 \<Rightarrow> bytes" where "d = ((\<lambda>_ _. 0)(3 := \<lambda>_. 7))(2 := store32 (store32 (\<lambda>_. 0) 0 1) 4 40)"
  have d2: "d 2 = store32 (store32 (\<lambda>_. 0) 0 1) 4 40" by (simp add: d_def)
  then have says: "header_says (d 2) 1 (\<lambda>_. 40)"
    by (simp add: header_says_def load32_store32_other)
  have out: "40 \<notin> log_area 2" using outside_area [of 40] by simp
  have "\<exists>r. initlog ROOTDEV 2 30 (boot 1 d) = Ret r \<and>
    (\<forall>k \<le> length (writes (lg_bc r)). \<exists>r'.
       initlog ROOTDEV 2 30 (boot 1 (put_writes (take k (writes (lg_bc r))) d)) = Ret r' \<and>
       (\<forall>b. b \<notin> log_area 2 \<longrightarrow> view (lg_bc r') b = view (lg_bc r) b))"
    by (rule recovery_restartable [where n = 1 and blk = "\<lambda>_. 40"]) (use says out in simp_all)
  with d2 out show ?thesis by blast
qed

theorem transaction_commits_witness:
  "\<exists>s s'. obind (begin_op s) (\<lambda>s. obind (log_updates [(40, \<lambda>_. 7)] s) end_op) = Ret s' \<and>
     disk (lg_bc s') 40 = (\<lambda>_. 7)"
proof -
  obtain r where r: "log_ready r" "lg_n r = 0" "lg_outstanding r = 0" "\<not> lg_committing r"
    "lg_size r = 30" "lg_start r = 2"
    by (rule fresh_log) blast
  have out: "40 \<notin> log_area 2" using outside_area [of 40] by simp
  with transaction_commits [OF r(1-4), of "[(40, \<lambda>_. 7)]"] r(5,6) show ?thesis by fastforce
qed

theorem three_full_ops_panic_witness:
  "\<exists>s. obind (begin_op s) (\<lambda>s. obind (begin_op s) (\<lambda>s. obind (begin_op s)
     (log_updates (map (\<lambda>k. (of_nat k, \<lambda>_. 7)) [100..<130])))) = opanic ''too big a transaction''"
proof -
  obtain r where r: "log_ready r" "lg_n r = 0" "lg_outstanding r = 0" "\<not> lg_committing r"
    "lg_size r = 30" "lg_start r = 2"
    by (rule fresh_log) blast
  define ws :: disk_trace where "ws = map (\<lambda>k. (of_nat k, \<lambda>_. 7)) [100..<130]"
  have "inj_on (\<lambda>k. of_nat k :: u32) {100..<130}"
    by (rule inj_onI) (auto intro: of_nat_u32_inj)
  then have "distinct (map fst ws)" by (simp add: ws_def distinct_map o_def)
  moreover have "fst ` set ws = of_nat ` {100..<130}"
    by (simp only: ws_def set_map set_upt image_image fst_conv)
  then have "fst ` set ws \<inter> log_area (lg_start r) = {}"
    using outside_area r(6) by (simp only: disjoint_iff) force
  moreover have "length ws = 30" by (simp add: ws_def)
  ultimately show ?thesis
    using three_full_ops_panic [OF r(1-5)] unfolding ws_def by blast
qed

theorem admitted_log_write_witness:
  "\<exists>s s'. lg_size s = LOGSIZE \<and> rtranclp log_step (s, []) (s', [0]) \<and> returns (log_write 3 s')"
proof -
  define s where "s = (boot 1 (\<lambda>_ _. 0))\<lparr>lg_size := LOGSIZE\<rparr>"
  define s' where "s' = s\<lparr>lg_outstanding := 1\<rparr>"
  have "begin_op s = Ret s'" by (simp add: begin_op_def s'_def s_def boot_def)
  then have "log_step (s, []) (s', [] @ [0])" by (rule log_step.Begin)
  then have st: "rtranclp log_step (s, []) (s', [0])" by simp
  have "if lg_size s' = LOGSIZE \<and> lg_n s' = LOGSIZE - 1 then log_write 3 s' = opanic ''too big a transaction''
    else \<exists>t. log_write 3 s' = Ret t \<and> lg_n t \<le> LOGSIZE"
    by (rule admitted_log_write [OF st, of 0]) (simp_all add: s'_def s_def boot_def)
  moreover have "lg_n s' = 0" "lg_size s = LOGSIZE" by (simp_all add: s'_def s_def boot_def)
  ultimately show ?thesis using st by (auto simp: returns_iff)
qed

end
