(* ===== verification/Xv6_Kalloc.thy ===== *)
theory Xv6_Kalloc
  imports Xv6_String Xv6_Param
begin

text \<open>
  The physical page allocator of kernel/kalloc.c. The free list is threaded through the free
  pages themselves, so the state is the RAM, the address of the first free page (0 at the end)
  and \<open>end\<close>, the first address after the kernel, which the linker script sets. A physical
  address is a 64-bit word; the RAM is indexed by its value. \<open>kmem.lock\<close> makes the critical
  sections atomic.
\<close>

section \<open>State and operations\<close>

record physmem =
  ram :: bytes
  freelist :: u64
  kend :: u64

definition PGROUNDUP :: "u64 \<Rightarrow> u64" where
  "PGROUNDUP sz = (sz + 4096 - 1) AND NOT (4096 - 1)"

definition PGROUNDDOWN :: "u64 \<Rightarrow> u64" where
  "PGROUNDDOWN a = a AND NOT (4096 - 1)"

abbreviation PHYSTOPw :: u64 where "PHYSTOPw \<equiv> 0x88000000"

definition kfree :: "u64 \<Rightarrow> physmem \<Rightarrow> physmem outcome" where
  "kfree pa s =
     (if pa mod 4096 \<noteq> 0 \<or> pa < kend s \<or> pa \<ge> PHYSTOPw then opanic ''kfree''
      else let m = memset (unat pa) 1 PGSIZE (ram s)
           in Ret (s\<lparr>ram := store64 m (unat pa) (freelist s), freelist := pa\<rparr>))"

definition kalloc :: "physmem \<Rightarrow> u64 \<times> physmem" where
  "kalloc s =
     (let r = freelist s;
          s1 = (if r \<noteq> 0 then s\<lparr>freelist := load64 (ram s) (unat r)\<rparr> else s);
          s2 = (if r \<noteq> 0 then s1\<lparr>ram := memset (unat r) 5 PGSIZE (ram s1)\<rparr> else s1)
      in (r, s2))"

text \<open>A page address that wraps around the address space is a pointer overflow.\<close>

function freerange_loop :: "u64 \<Rightarrow> u64 \<Rightarrow> physmem \<Rightarrow> physmem outcome" where
  "freerange_loop p pa_end s =
     (if p + 4096 < p then Fail Undef
      else if p + 4096 \<le> pa_end then
        (case kfree p s of Ret s' \<Rightarrow> freerange_loop (p + 4096) pa_end s' | Fail e \<Rightarrow> Fail e)
      else Ret s)"
  by pat_completeness auto
termination
proof (relation "measure (\<lambda>(p, pa_end, s). unat pa_end - unat p)")
  fix p pa_end :: u64 and s :: physmem and s'
  assume h: "\<not> p + 4096 < p" "p + 4096 \<le> pa_end"
  have "p \<noteq> p + 4096" by simp
  with h(1) have "p < p + 4096" by (meson linorder_neqE)
  with h(2) show "((p + 4096, pa_end, s'), p, pa_end, s) \<in> measure (\<lambda>(p, pa_end, s). unat pa_end - unat p)"
    by (auto simp: word_less_nat_alt word_le_nat_alt)
qed auto


declare freerange_loop.simps [simp del]

definition freerange :: "u64 \<Rightarrow> u64 \<Rightarrow> physmem \<Rightarrow> physmem outcome" where
  "freerange pa_start pa_end s = freerange_loop (PGROUNDUP pa_start) pa_end s"

definition kinit :: "physmem \<Rightarrow> physmem outcome" where
  "kinit s = freerange (kend s) PHYSTOPw s"

section \<open>Pages\<close>

definition page_range :: "u64 \<Rightarrow> nat set" where
  "page_range p = {unat p..<unat p + PGSIZE}"

definition aligned :: "u64 \<Rightarrow> bool" where
  "aligned p \<longleftrightarrow> unat p mod PGSIZE = 0"

definition page_ok :: "u64 \<Rightarrow> u64 \<Rightarrow> bool" where
  "page_ok k p \<longleftrightarrow> aligned p \<and> k \<le> p \<and> p < PHYSTOPw"

lemma mod_4096_iff: "(p :: u64) mod 4096 = 0 \<longleftrightarrow> aligned p"
proof -
  have "unat (p mod 4096) = unat p mod 4096" by (simp add: unat_mod_distrib)
  then show ?thesis unfolding aligned_def by (metis unat_eq_zero)
qed

lemma page_disjoint:
  assumes "aligned p" and "aligned q" and "p \<noteq> q"
  shows "page_range p \<inter> page_range q = {}"
proof -
  obtain i j where i: "unat p = PGSIZE * i" and j: "unat q = PGSIZE * j"
    using assms(1,2) unfolding aligned_def by (metis dvdE mod_eq_0_iff_dvd)
  have "i \<noteq> j" using assms(3) i j by (auto simp: word_unat_eq_iff)
  then show ?thesis unfolding page_range_def i j by (cases "i < j") auto
qed

text \<open>The free list as the list of its pages.\<close>

primrec free_chain :: "bytes \<Rightarrow> u64 \<Rightarrow> u64 list \<Rightarrow> bool" where
  "free_chain m p [] \<longleftrightarrow> p = 0"
| "free_chain m p (x # xs) \<longleftrightarrow> p = x \<and> free_chain m (load64 m (unat x)) xs"

definition kmem_list :: "physmem \<Rightarrow> u64 list \<Rightarrow> bool" where
  "kmem_list s xs \<longleftrightarrow> 0 < kend s \<and> free_chain (ram s) (freelist s) xs \<and> distinct xs \<and>
     (\<forall>x \<in> set xs. page_ok (kend s) x)"

lemma page_ok_nz: "0 < k \<Longrightarrow> page_ok k p \<Longrightarrow> p \<noteq> 0"
  by (auto simp: page_ok_def)

lemma free_chain_cong:
  "(\<And>x a. x \<in> set xs \<Longrightarrow> a \<in> page_range x \<Longrightarrow> m a = m' a) \<Longrightarrow>
   free_chain m p xs = free_chain m' p xs"
proof (induction xs arbitrary: p)
  case (Cons x xs)
  have "load64 m (unat x) = load64 m' (unat x)"
    by (rule load64_cong) (use Cons.prems [of x] in \<open>simp add: page_range_def\<close>)
  moreover have "free_chain m q xs = free_chain m' q xs" for q
    using Cons.prems by (intro Cons.IH) auto
  ultimately show ?case by simp
qed simp

lemma free_chain_unique: "0 \<notin> set xs \<Longrightarrow> 0 \<notin> set ys \<Longrightarrow> free_chain m p xs \<Longrightarrow> free_chain m p ys \<Longrightarrow> xs = ys"
proof (induction xs arbitrary: p ys)
  case Nil
  then show ?case by (cases ys) auto
next
  case (Cons x xs)
  then obtain ys' where "ys = x # ys'" by (cases ys) auto
  with Cons show ?case by auto
qed

lemma kfree_eq:
  assumes "kmem_list s xs" and "page_ok (kend s) p" and "p \<notin> set xs"
  shows "\<exists>s'. kfree p s = Ret s' \<and> kmem_list s' (p # xs) \<and> kend s' = kend s \<and>
    (\<forall>a. a \<notin> page_range p \<longrightarrow> ram s' a = ram s a)"
proof -
  let ?m = "store64 (memset (unat p) 1 PGSIZE (ram s)) (unat p) (freelist s)"
  have k: "kfree p s = Ret (s\<lparr>ram := ?m, freelist := p\<rparr>)"
    using assms(2) by (auto simp: kfree_def page_ok_def mod_4096_iff Let_def)
  have out: "?m a = ram s a" if "a \<notin> page_range p" for a
    using that by (auto simp: page_range_def memset_eq store64_other fill_range_def)
  have "free_chain ?m (freelist s) xs = free_chain (ram s) (freelist s) xs"
  proof (rule free_chain_cong)
    fix x a assume "x \<in> set xs" "a \<in> page_range x"
    moreover have "page_range x \<inter> page_range p = {}"
      using assms \<open>x \<in> set xs\<close> by (intro page_disjoint) (auto simp: kmem_list_def page_ok_def)
    ultimately show "?m a = ram s a" using out by blast
  qed
  with assms k out show ?thesis by (auto simp: kmem_list_def)
qed

lemma kalloc_Cons:
  assumes "kmem_list s (p # xs)"
  shows "\<exists>s'. kalloc s = (p, s') \<and> kmem_list s' xs \<and> kend s' = kend s \<and>
    (\<forall>a. a \<notin> page_range p \<longrightarrow> ram s' a = ram s a) \<and> (\<forall>a \<in> page_range p. ram s' a = 5)"
proof -
  have p: "freelist s = p" "p \<noteq> 0" "free_chain (ram s) (load64 (ram s) (unat p)) xs"
    using assms page_ok_nz [of "kend s" p] by (auto simp: kmem_list_def)
  let ?m = "memset (unat p) 5 PGSIZE (ram s)"
  have k: "kalloc s = (p, s\<lparr>freelist := load64 (ram s) (unat p), ram := ?m\<rparr>)"
    using p by (simp add: kalloc_def Let_def)
  have out: "?m a = ram s a" if "a \<notin> page_range p" for a
    using that by (auto simp: page_range_def memset_eq fill_range_def)
  have "free_chain ?m q xs = free_chain (ram s) q xs" for q
  proof (rule free_chain_cong)
    fix x a assume "x \<in> set xs" "a \<in> page_range x"
    moreover have "page_range x \<inter> page_range p = {}"
      using assms \<open>x \<in> set xs\<close> by (intro page_disjoint) (auto simp: kmem_list_def page_ok_def)
    ultimately show "?m a = ram s a" using out by blast
  qed
  moreover have "\<forall>a \<in> page_range p. ?m a = 5" by (auto simp: page_range_def memset_eq fill_range_def)
  ultimately show ?thesis using assms k out p by (auto simp: kmem_list_def)
qed

lemma kalloc_Nil:
  assumes "kmem_list s []"
  shows "kalloc s = (0, s)"
  using assms by (simp add: kmem_list_def kalloc_def)


section \<open>The contract of a page allocator\<close>

text \<open>
  What the clients rely on: a page handed out was free and is not free any more; a page given
  back is free; no operation touches memory outside the page it is about; an allocation fails
  exactly when nothing is free.
\<close>

locale page_allocator =
  fixes alloc :: "'s \<Rightarrow> u64 \<times> 's"
    and free :: "u64 \<Rightarrow> 's \<Rightarrow> 's outcome"
    and inv :: "'s \<Rightarrow> bool"
    and frees :: "'s \<Rightarrow> u64 set"
    and mem :: "'s \<Rightarrow> bytes"
    and usable :: "'s \<Rightarrow> u64 \<Rightarrow> bool"
  assumes alloc_none: "inv s \<Longrightarrow> frees s = {} \<Longrightarrow> alloc s = (0, s)"
    and alloc_some: "inv s \<Longrightarrow> frees s \<noteq> {} \<Longrightarrow> \<exists>p s'. alloc s = (p, s') \<and> p \<noteq> 0 \<and> p \<in> frees s \<and>
      inv s' \<and> frees s' = frees s - {p} \<and> usable s' = usable s \<and>
      (\<forall>a. a \<notin> page_range p \<longrightarrow> mem s' a = mem s a)"
    and free_law: "inv s \<Longrightarrow> usable s p \<Longrightarrow> p \<notin> frees s \<Longrightarrow> \<exists>s'. free p s = Ret s' \<and> inv s' \<and>
      frees s' = insert p (frees s) \<and> usable s' = usable s \<and>
      (\<forall>a. a \<notin> page_range p \<longrightarrow> mem s' a = mem s a)"
    and frees_usable: "inv s \<Longrightarrow> p \<in> frees s \<Longrightarrow> usable s p"
    and usable_aligned: "inv s \<Longrightarrow> usable s p \<Longrightarrow> aligned p \<and> p \<noteq> 0"
    and frees_finite: "inv s \<Longrightarrow> finite (frees s)"
begin

text \<open>Taking a page and giving it back restores the set of free pages.\<close>

lemma alloc_free:
  assumes "inv s" and "alloc s = (p, s')" and "p \<noteq> 0"
  shows "\<exists>s''. free p s' = Ret s'' \<and> inv s'' \<and> frees s'' = frees s"
proof -
  have "frees s \<noteq> {}" using alloc_none [OF assms(1)] assms(2,3) by auto
  from alloc_some [OF assms(1) this] assms(2) have a: "p \<in> frees s" "inv s'" "frees s' = frees s - {p}"
    "usable s' = usable s" by auto
  have "usable s' p" using frees_usable [OF assms(1) a(1)] a(4) by simp
  from free_law [OF a(2) this] a(1,3) show ?thesis by auto
qed

text \<open>A page obtained by an allocation is usable and does not overlap a page still free.\<close>

lemma alloc_fresh:
  assumes "inv s" and "alloc s = (p, s')" and "p \<noteq> 0"
  shows "p \<in> frees s" and "usable s p" and "inv s'" and "frees s' = frees s - {p}"
    and "usable s' = usable s" and "\<And>a. a \<notin> page_range p \<Longrightarrow> mem s' a = mem s a"
    and "q \<in> frees s' \<Longrightarrow> page_range p \<inter> page_range q = {}"
proof -
  have "frees s \<noteq> {}" using alloc_none [OF assms(1)] assms(2,3) by auto
  from alloc_some [OF assms(1) this] assms(2) show f: "p \<in> frees s" "inv s'" "frees s' = frees s - {p}"
    "usable s' = usable s" "\<And>a. a \<notin> page_range p \<Longrightarrow> mem s' a = mem s a" by auto
  show "usable s p" by (rule frees_usable [OF assms(1) f(1)])
  show "page_range p \<inter> page_range q = {}" if "q \<in> frees s'"
  proof (rule page_disjoint)
    show "aligned p" using usable_aligned [OF assms(1) \<open>usable s p\<close>] by simp
    show "aligned q" using usable_aligned [OF f(2) frees_usable [OF f(2) that]] by simp
    show "p \<noteq> q" using that f(3) by auto
  qed
qed

text \<open>The number of allocations that succeed is the number of free pages.\<close>

lemma alloc_card:
  assumes "inv s" and "alloc s = (p, s')"
  shows "if p = 0 then frees s = {} \<and> s' = s else card (frees s) = Suc (card (frees s'))"
proof (cases "frees s = {}")
  case True
  with alloc_none [OF assms(1)] assms(2) show ?thesis by auto
next
  case False
  from alloc_some [OF assms(1) this] assms(2) have "p \<noteq> 0" "p \<in> frees s" "frees s' = frees s - {p}" by auto
  with card.remove [OF frees_finite [OF assms(1)], of p] show ?thesis by simp
qed

end

definition kmem_inv :: "physmem \<Rightarrow> bool" where
  "kmem_inv s \<longleftrightarrow> (\<exists>xs. kmem_list s xs)"

definition free_pages :: "physmem \<Rightarrow> u64 set" where
  "free_pages s = {x. \<exists>xs. kmem_list s xs \<and> x \<in> set xs}"

lemma kmem_list_nz: "kmem_list s xs \<Longrightarrow> 0 \<notin> set xs"
  by (auto simp: kmem_list_def page_ok_def)

lemma kmem_list_unique: "kmem_list s xs \<Longrightarrow> kmem_list s ys \<Longrightarrow> xs = ys"
  using free_chain_unique [OF kmem_list_nz kmem_list_nz, of s xs s ys "ram s" "freelist s"]
  by (simp add: kmem_list_def)

lemma free_pages_eq: "kmem_list s xs \<Longrightarrow> free_pages s = set xs"
  using kmem_list_unique by (auto simp: free_pages_def)

interpretation kmem: page_allocator kalloc kfree kmem_inv free_pages ram "\<lambda>s. page_ok (kend s)"
proof unfold_locales
  fix s p
  assume i: "kmem_inv s"
  then obtain xs where xs: "kmem_list s xs" by (auto simp: kmem_inv_def)
  note fp = free_pages_eq [OF xs]
  show "kalloc s = (0, s)" if "free_pages s = {}" using that fp kalloc_Nil xs by auto
  show "\<exists>p s'. kalloc s = (p, s') \<and> p \<noteq> 0 \<and> p \<in> free_pages s \<and> kmem_inv s' \<and>
      free_pages s' = free_pages s - {p} \<and> page_ok (kend s') = page_ok (kend s) \<and>
      (\<forall>a. a \<notin> page_range p \<longrightarrow> ram s' a = ram s a)" if "free_pages s \<noteq> {}"
  proof -
    from that fp obtain p ys where ys: "xs = p # ys" by (cases xs) auto
    from kalloc_Cons xs [unfolded ys] obtain s' where s': "kalloc s = (p, s')" "kmem_list s' ys"
      "kend s' = kend s" "\<forall>a. a \<notin> page_range p \<longrightarrow> ram s' a = ram s a" by blast
    moreover have "p \<notin> set ys" using xs ys by (simp add: kmem_list_def)
    ultimately show ?thesis using fp ys kmem_list_nz [OF xs] free_pages_eq [OF s'(2)]
      by (auto simp: kmem_inv_def)
  qed
  show "\<exists>s'. kfree p s = Ret s' \<and> kmem_inv s' \<and> free_pages s' = insert p (free_pages s) \<and>
      page_ok (kend s') = page_ok (kend s) \<and> (\<forall>a. a \<notin> page_range p \<longrightarrow> ram s' a = ram s a)"
    if "page_ok (kend s) p" "p \<notin> free_pages s"
  proof -
    from kfree_eq [OF xs that(1)] that(2) fp obtain s' where s': "kfree p s = Ret s'"
      "kmem_list s' (p # xs)" "kend s' = kend s" "\<forall>a. a \<notin> page_range p \<longrightarrow> ram s' a = ram s a" by auto
    with fp free_pages_eq [OF s'(2)] show ?thesis by (auto simp: kmem_inv_def)
  qed
  show "page_ok (kend s) p" if "p \<in> free_pages s" using that fp xs by (auto simp: kmem_list_def)
  show "aligned p \<and> p \<noteq> 0" if "page_ok (kend s) p"
    using that xs by (auto simp: page_ok_def kmem_list_def)
  show "finite (free_pages s)" using fp by simp
qed

section \<open>Initialisation\<close>

lemma unat_lt64: "unat (a :: u64) < 2 ^ 64"
  using unsigned_less [of a, where ?'a = nat] by simp

lemma PGROUNDDOWN_alt: "PGROUNDDOWN a = push_bit 12 (drop_bit 12 a)"
proof -
  have m: "(4096 - 1 :: u64) = mask 12" by (simp add: mask_eq_exp_minus_1)
  show ?thesis unfolding PGROUNDDOWN_def m by (rule bit_word_eqI) (auto simp: bit_simps)
qed

lemma PGROUNDUP_alt: "PGROUNDUP a = PGROUNDDOWN (a + 4095)"
  by (simp add: PGROUNDUP_def PGROUNDDOWN_def add.commute)

lemma unat_PGROUNDDOWN: "unat (PGROUNDDOWN a) = PGSIZE * (unat a div PGSIZE)"
proof -
  have "unat (drop_bit 12 a) = unat a div 2 ^ 12" by (simp add: unat_div_distrib drop_bit_eq_div)
  moreover have "unat a div 2 ^ 12 * 2 ^ 12 \<le> unat a" by simp
  then have "unat a div 2 ^ 12 * 2 ^ 12 < 2 ^ 64" using unat_lt64 [of a] by (rule le_less_trans)
  moreover have "unat (push_bit 12 (drop_bit 12 a)) = take_bit 64 (push_bit 12 (unat (drop_bit 12 a)))"
    by (subst unsigned_push_bit_eq) simp
  ultimately show ?thesis
    unfolding PGROUNDDOWN_alt by (simp add: push_bit_eq_mult take_bit_nat_eq_self)
qed

lemma aligned_PGROUNDDOWN [simp]: "aligned (PGROUNDDOWN a)"
  by (simp add: aligned_def unat_PGROUNDDOWN)

lemma aligned_PGROUNDUP [simp]: "aligned (PGROUNDUP a)"
  by (simp add: PGROUNDUP_alt)

lemma PGROUNDDOWN_aligned [simp]: "aligned a \<Longrightarrow> PGROUNDDOWN a = a"
  using mult_div_mod_eq [of PGSIZE "unat a"] by (simp add: word_unat_eq_iff unat_PGROUNDDOWN aligned_def)

lemma PGROUNDDOWN_le: "PGROUNDDOWN a \<le> a"
  by (simp add: word_le_nat_alt unat_PGROUNDDOWN)

lemma unat_add_small: "unat (a :: u64) + k < 2 ^ 64 \<Longrightarrow> unat (a + of_nat k) = unat a + k"
  by (simp add: unat_word_ariths unat_of_nat take_bit_nat_eq_self)

lemma unat_PGROUNDUP:
  assumes "unat a + 4095 < 2 ^ 64"
  shows "unat (PGROUNDUP a) = PGSIZE * ((unat a + 4095) div PGSIZE)"
  using unat_add_small [of a 4095] assms by (simp add: PGROUNDUP_alt unat_PGROUNDDOWN)

lemma PGROUNDUP_aligned [simp]:
  assumes "aligned a"
  shows "PGROUNDUP a = a"
proof -
  obtain i where i: "unat a = PGSIZE * i" using assms unfolding aligned_def by (metis dvdE mod_eq_0_iff_dvd)
  have "unat a < 2 ^ 64" by (rule unat_lt64)
  then have "i < 2 ^ 52" unfolding i by simp
  then have l: "unat a + 4095 < 2 ^ 64" unfolding i by simp
  have "(unat a + 4095) div PGSIZE = i" by (simp add: i)
  with unat_PGROUNDUP [OF l] i show ?thesis by (simp add: word_unat_eq_iff)
qed

text \<open>The pages of a range, in ascending order.\<close>

fun pages_from :: "u64 \<Rightarrow> nat \<Rightarrow> u64 list" where
  "pages_from p 0 = []"
| "pages_from p (Suc n) = p # pages_from (p + 4096) n"

lemma pages_from_snoc: "pages_from p (Suc n) = pages_from p n @ [p + of_nat n * 4096]"
proof (induction n arbitrary: p)
  case (Suc n)
  have "pages_from p (Suc (Suc n)) = p # pages_from (p + 4096) (Suc n)" by simp
  also have "\<dots> = pages_from p (Suc n) @ [p + of_nat (Suc n) * 4096]"
    by (subst Suc.IH) (simp add: algebra_simps)
  finally show ?case .
qed simp

lemma set_pages_from:
  assumes "aligned p" and "unat p + PGSIZE * n < 2 ^ 64"
  shows "x \<in> set (pages_from p n) \<longleftrightarrow> aligned x \<and> unat p \<le> unat x \<and> unat x < unat p + PGSIZE * n"
  using assms
proof (induction n arbitrary: p)
  case (Suc n)
  have up: "unat (p + of_nat 4096) = unat p + 4096" by (rule unat_add_small) (use Suc.prems in simp)
  then have "aligned (p + 4096)" using Suc.prems(1) by (simp add: aligned_def)
  then have IH: "x \<in> set (pages_from (p + 4096) n) \<longleftrightarrow>
      aligned x \<and> unat p + 4096 \<le> unat x \<and> unat x < unat p + PGSIZE * Suc n"
    using Suc.IH [of "p + 4096"] Suc.prems(2) up by (simp add: add.assoc)
  have "unat x < unat p + 4096 \<longrightarrow> x = p" if "aligned x" "unat p \<le> unat x"
  proof
    assume l: "unat x < unat p + 4096"
    show "x = p"
    proof (rule ccontr)
      assume "x \<noteq> p"
      from page_disjoint [OF that(1) Suc.prems(1) this] show False
        using l that(2) by (auto simp: page_range_def disjoint_iff)
    qed
  qed
  with IH Suc.prems(1) show ?case by auto
qed simp

lemma freerange_loop_eq:
  assumes "unat e = unat p + PGSIZE * n + r" and "r < PGSIZE" and "aligned p" and "kend s \<le> p" and "e \<le> PHYSTOPw"
    and "kmem_list s xs" and "\<forall>x \<in> set xs. x < p"
  shows "\<exists>s'. freerange_loop p e s = Ret s' \<and> kmem_list s' (rev (pages_from p n) @ xs)"
  using assms
proof (induction n arbitrary: p s xs)
  case 0
  have b: "unat e \<le> 0x88000000" using 0(5) by (simp add: word_le_nat_alt)
  have "unat (p + of_nat 4096) = unat p + 4096" by (rule unat_add_small) (use 0(1) b in simp)
  then have "\<not> p + 4096 < p" "\<not> p + 4096 \<le> e" using 0(1,2) by (simp_all add: word_less_nat_alt word_le_nat_alt)
  with 0(6) show ?case by (simp add: freerange_loop.simps [of p])
next
  case (Suc n)
  have b: "unat e \<le> 0x88000000" using Suc.prems(5) by (simp add: word_le_nat_alt)
  have up: "unat (p + of_nat 4096) = unat p + 4096" by (rule unat_add_small) (use Suc.prems(1) b in simp)
  then have step: "\<not> p + 4096 < p" "p + 4096 \<le> e" "p < p + 4096"
    using Suc.prems(1,2) by (simp_all add: word_less_nat_alt word_le_nat_alt)
  have "p < PHYSTOPw" using step Suc.prems(5) by (meson less_le_trans)
  then have ok: "page_ok (kend s) p" using Suc.prems(3,4) by (simp add: page_ok_def)
  have "p \<notin> set xs" using Suc.prems(7) by auto
  from kfree_eq [OF Suc.prems(6) ok this] obtain s1 where
    s1: "kfree p s = Ret s1" "kmem_list s1 (p # xs)" "kend s1 = kend s" by blast
  have "\<exists>s'. freerange_loop (p + 4096) e s1 = Ret s' \<and> kmem_list s' (rev (pages_from (p + 4096) n) @ (p # xs))"
  proof (rule Suc.IH)
    show "unat e = unat (p + 4096) + PGSIZE * n + r" using Suc.prems(1) up by simp
    show "aligned (p + 4096)" using Suc.prems(3) up by (simp add: aligned_def)
    show "kend s1 \<le> p + 4096" using Suc.prems(4) step(3) s1(3) by simp
    show "\<forall>x \<in> set (p # xs). x < p + 4096" using Suc.prems(7) step(3) by auto
  qed (use Suc.prems s1 in auto)
  then show ?case using step s1(1) by (simp add: freerange_loop.simps [of p])
qed

text \<open>
  C20. After kinit() every whole page between the end of the kernel and the top of the RAM is free,
  once, and the next page kalloc() hands out is the highest one.
\<close>

lemma pages_from_top:
  assumes "0 < n" and "unat p + PGSIZE * n = 0x88000000"
  shows "hd (rev (pages_from p n)) = 0x87fff000"
proof -
  obtain m where m: "n = Suc m" using assms(1) by (cases n) auto
  have s: "unat p + 4096 * m = 0x87fff000" using assms(2) by (simp add: m)
  then have "unat (p + of_nat (4096 * m)) = 0x87fff000" by (subst unat_add_small) simp_all
  then have "p + of_nat (4096 * m) = 0x87fff000" unfolding word_unat_eq_iff by simp
  then show ?thesis unfolding m pages_from_snoc by (simp add: mult.commute)
qed

lemma pages_above_end:
  assumes "0x80000000 \<le> unat k" and "unat k \<le> 0x87fff000"
  obtains n where "0 < n" and "unat (PGROUNDUP k) + PGSIZE * n = 0x88000000" and "k \<le> PGROUNDUP k"
    and "\<And>x. aligned x \<Longrightarrow> unat (PGROUNDUP k) \<le> unat x \<longleftrightarrow> unat k \<le> unat x"
proof -
  define q where "q = (unat k + 4095) div PGSIZE"
  have up: "unat (PGROUNDUP k) = PGSIZE * q"
    unfolding q_def by (rule unat_PGROUNDUP) (use assms in simp)
  have q: "q \<le> 0x87fff" "unat k \<le> PGSIZE * q" using assms(2) by (simp_all add: q_def)
  have "0 < 0x88000 - q" "PGSIZE * q + PGSIZE * (0x88000 - q) = 0x88000000" using q(1) by simp_all
  moreover have "k \<le> PGROUNDUP k" using q(2) by (simp only: word_le_nat_alt up)
  moreover have "unat (PGROUNDUP k) \<le> unat x \<longleftrightarrow> unat k \<le> unat x" if "aligned x" for x
  proof -
    obtain i where i: "unat x = PGSIZE * i" using \<open>aligned x\<close> unfolding aligned_def
      by (metis dvdE mod_eq_0_iff_dvd)
    have "PGSIZE * q \<le> PGSIZE * i \<longleftrightarrow> unat k \<le> PGSIZE * i" using q(2) by (auto simp: q_def)
    then show ?thesis by (simp only: up i)
  qed
  ultimately show ?thesis using up by (intro that [of "0x88000 - q"]) simp_all
qed

theorem kinit_frees_all:
  assumes "0x80000000 \<le> kend s" and "kend s \<le> 0x87fff000" and "freelist s = 0"
  shows "\<exists>s'. kinit s = Ret s' \<and> kmem_inv s' \<and>
    free_pages s' = {p. aligned p \<and> kend s \<le> p \<and> p < PHYSTOPw} \<and> fst (kalloc s') = 0x87fff000"
proof -
  let ?p = "PGROUNDUP (kend s)"
  have k: "0x80000000 \<le> unat (kend s)" "unat (kend s) \<le> 0x87fff000"
    using assms(1,2) by (simp_all add: word_le_nat_alt)
  obtain n where n: "0 < n" "unat ?p + PGSIZE * n = 0x88000000" "kend s \<le> ?p"
    "\<And>x. aligned x \<Longrightarrow> unat ?p \<le> unat x \<longleftrightarrow> unat (kend s) \<le> unat x"
    by (rule pages_above_end [OF k]) (rule that)
  have "0 < kend s" using k(1) by (simp add: word_less_nat_alt)
  then have "kmem_list s []" using assms(3) by (simp add: kmem_list_def)
  moreover have "unat PHYSTOPw = unat ?p + PGSIZE * n + 0" using n(2) by simp
  ultimately obtain s' where s': "kinit s = Ret s'" "kmem_list s' (rev (pages_from ?p n))"
    using freerange_loop_eq [of PHYSTOPw ?p n 0 s "[]"] n(3) by (auto simp: kinit_def freerange_def)
  have "x \<in> set (rev (pages_from ?p n)) \<longleftrightarrow> aligned x \<and> kend s \<le> x \<and> x < PHYSTOPw" for x
  proof -
    have "x \<in> set (pages_from ?p n) \<longleftrightarrow> aligned x \<and> unat ?p \<le> unat x \<and> unat x < 0x88000000"
      unfolding n(2) [symmetric] by (rule set_pages_from) (use n(2) in simp_all)
    moreover have "x < PHYSTOPw \<longleftrightarrow> unat x < 0x88000000" by (simp add: word_less_nat_alt)
    ultimately show ?thesis using n(4) [of x] by (simp only: set_rev word_le_nat_alt) blast
  qed
  then have "free_pages s' = {p. aligned p \<and> kend s \<le> p \<and> p < PHYSTOPw}"
    unfolding free_pages_eq [OF s'(2)] by blast
  moreover have "fst (kalloc s') = 0x87fff000"
  proof -
    obtain ps where hd: "rev (pages_from ?p n) = 0x87fff000 # ps"
      using pages_from_top [OF n(1,2)] n(1) by (cases n; cases "rev (pages_from ?p n)") auto
    show ?thesis using kalloc_Cons [OF s'(2) [unfolded hd]] by auto
  qed
  moreover have "kmem_inv s'" using s'(2) unfolding kmem_inv_def by blast
  ultimately show ?thesis using s'(1) by blast
qed

theorem kinit_frees_all_witness:
  "\<exists>s'. kinit \<lparr>ram = (\<lambda>_. 0), freelist = 0, kend = 0x80021d50\<rparr> = Ret s' \<and>
     0x80022000 \<in> free_pages s' \<and> 0x80021000 \<notin> free_pages s'"
proof -
  let ?s = "\<lparr>ram = (\<lambda>_. 0), freelist = 0, kend = 0x80021d50\<rparr> :: physmem"
  have "\<exists>s'. kinit ?s = Ret s' \<and> kmem_inv s' \<and>
    free_pages s' = {p. aligned p \<and> kend ?s \<le> p \<and> p < PHYSTOPw} \<and> fst (kalloc s') = 0x87fff000"
    by (rule kinit_frees_all) simp_all
  then show ?thesis by (auto simp: aligned_def)
qed

text \<open>
  C21. A page kalloc() returns is a page of the RAM above the kernel, overlaps no page that is still
  free and was filled with junk; nothing else changed; kfree() makes it free again.
\<close>

theorem kalloc_kfree:
  assumes "kmem_inv s" and "kalloc s = (p, s')" and "p \<noteq> 0"
  shows "page_ok (kend s) p \<and> p \<in> free_pages s \<and> kmem_inv s' \<and> free_pages s' = free_pages s - {p} \<and>
    (\<forall>q \<in> free_pages s'. page_range p \<inter> page_range q = {}) \<and>
    (\<forall>a. ram s' a = (if a \<in> page_range p then 5 else ram s a)) \<and>
    (\<exists>s''. kfree p s' = Ret s'' \<and> kmem_inv s'' \<and> free_pages s'' = free_pages s \<and> freelist s'' = p)"
proof -
  note f = kmem.alloc_fresh [OF assms]
  obtain xs where xs: "kmem_list s xs" using assms(1) by (auto simp: kmem_inv_def)
  have "xs \<noteq> []" using f(1) free_pages_eq [OF xs] by auto
  then obtain x ys where "xs = x # ys" by (cases xs) auto
  then have five: "\<forall>a \<in> page_range p. ram s' a = 5" using kalloc_Cons [of s x ys] xs assms(2) by auto
  obtain s'' where s'': "kfree p s' = Ret s''" "kmem_inv s''" "free_pages s'' = free_pages s"
    using kmem.alloc_free [OF assms] by blast
  then have "freelist s'' = p" by (auto simp: kfree_def Let_def split: if_splits)
  with f five s'' show ?thesis by auto
qed

theorem kalloc_kfree_witness:
  "\<exists>s s' s''. kalloc s = (0x87fff000, s') \<and> kfree 0x87fff000 s' = Ret s'' \<and> free_pages s'' = free_pages s"
proof -
  define m where "m = store64 (\<lambda>_. 0) 0x87fff000 0"
  let ?s = "\<lparr>ram = m, freelist = 0x87fff000, kend = 0x80021d50\<rparr> :: physmem"
  have "kmem_list ?s [0x87fff000]" by (simp add: kmem_list_def m_def page_ok_def aligned_def)
  then have i: "kmem_inv ?s" by (auto simp: kmem_inv_def)
  have k: "kalloc ?s = (0x87fff000, snd (kalloc ?s))" by (simp add: kalloc_def Let_def)
  show ?thesis using kalloc_kfree [OF i k] k by auto
qed

end
