(* ===== verification/Xv6_Vm.thy ===== *)
theory Xv6_Vm
  imports Xv6_Kalloc
begin

text \<open>
  Page tables and user memory (kernel/vm.c) over the physical memory of the page allocator. A
  page table is the address of a page of 512 64-bit entries in the RAM. A pointer to an entry
  is its physical address, 0 is the null pointer. The kernel's own buffers are byte functions:
  \<open>copyout\<close> reads one, \<open>copyin\<close> returns one updated. A length is a natural number, the value of
  the \<open>uint64\<close> argument.
\<close>

section \<open>Page-table arithmetic\<close>

abbreviation PTE_V :: u64 where "PTE_V \<equiv> 1"
abbreviation PTE_R :: u64 where "PTE_R \<equiv> 2"
abbreviation PTE_W :: u64 where "PTE_W \<equiv> 4"
abbreviation PTE_X :: u64 where "PTE_X \<equiv> 8"
abbreviation PTE_U :: u64 where "PTE_U \<equiv> 16"
abbreviation MAXVA :: u64 where "MAXVA \<equiv> 0x4000000000"

definition PA2PTE :: "u64 \<Rightarrow> u64" where
  "PA2PTE pa = push_bit 10 (drop_bit 12 pa)"

definition PTE2PA :: "u64 \<Rightarrow> u64" where
  "PTE2PA pte = push_bit 12 (drop_bit 10 pte)"

definition PTE_FLAGS :: "u64 \<Rightarrow> u64" where
  "PTE_FLAGS pte = pte AND 0x3FF"

definition PX :: "nat \<Rightarrow> u64 \<Rightarrow> u64" where
  "PX level va = drop_bit (12 + 9 * level) va AND 0x1FF"

definition load_pte :: "u64 \<Rightarrow> physmem \<Rightarrow> u64" where
  "load_pte a s = load64 (ram s) (unat a)"

definition store_pte :: "u64 \<Rightarrow> u64 \<Rightarrow> physmem \<Rightarrow> physmem" where
  "store_pte a e s = s\<lparr>ram := store64 (ram s) (unat a) e\<rparr>"

definition fill_page :: "u64 \<Rightarrow> u32 \<Rightarrow> physmem \<Rightarrow> physmem" where
  "fill_page p c s = s\<lparr>ram := memset (unat p) c PGSIZE (ram s)\<rparr>"

section \<open>Walking and mapping\<close>

text \<open>The loop of walk from a level down to level 0; the result is 0 when there is no entry.\<close>

fun walk_levels :: "nat \<Rightarrow> u64 \<Rightarrow> u64 \<Rightarrow> bool \<Rightarrow> physmem \<Rightarrow> u64 \<times> physmem" where
  "walk_levels 0 pagetable va alloc s = (pagetable + 8 * PX 0 va, s)"
| "walk_levels (Suc level) pagetable va alloc s =
     (let pte = pagetable + 8 * PX (Suc level) va in
      if load_pte pte s AND PTE_V \<noteq> 0 then walk_levels level (PTE2PA (load_pte pte s)) va alloc s
      else if \<not> alloc then (0, s)
      else let (np, s) = kalloc s in
        if np = 0 then (0, s)
        else walk_levels level np va alloc
          (store_pte pte (PA2PTE np OR PTE_V) (fill_page np 0 s)))"

definition walk :: "u64 \<Rightarrow> u64 \<Rightarrow> bool \<Rightarrow> physmem \<Rightarrow> (u64 \<times> physmem) outcome" where
  "walk pagetable va alloc s =
     (if va \<ge> MAXVA then opanic ''walk'' else Ret (walk_levels 2 pagetable va alloc s))"

definition walkaddr :: "u64 \<Rightarrow> u64 \<Rightarrow> physmem \<Rightarrow> u64 outcome" where
  "walkaddr pagetable va s =
     (if va \<ge> MAXVA then Ret 0
      else obind (walk pagetable va False s) (\<lambda>(pte, s).
        if pte = 0 then Ret 0
        else if load_pte pte s AND PTE_V = 0 then Ret 0
        else if load_pte pte s AND PTE_U = 0 then Ret 0
        else Ret (PTE2PA (load_pte pte s))))"

text \<open>
  The endless loop of mappages ends when \<open>a\<close> is the last page. Both are page-aligned, so the
  number of iterations is known; \<open>mappages_fuel\<close> is that number.
\<close>

fun mappages_loop :: "nat \<Rightarrow> u64 \<Rightarrow> u64 \<Rightarrow> u64 \<Rightarrow> u64 \<Rightarrow> u64 \<Rightarrow> physmem \<Rightarrow> (int \<times> physmem) outcome" where
  "mappages_loop 0 pagetable a lst pa perm s = Fail Diverged"
| "mappages_loop (Suc fuel) pagetable a lst pa perm s =
     obind (walk pagetable a True s) (\<lambda>(pte, s).
       if pte = 0 then Ret (-1, s)
       else if load_pte pte s AND PTE_V \<noteq> 0 then opanic ''mappages: remap''
       else
         let s = store_pte pte (PA2PTE pa OR perm OR PTE_V) s in
         if a = lst then Ret (0, s)
         else mappages_loop fuel pagetable (a + 4096) lst (pa + 4096) perm s)"

definition mappages_fuel :: "u64 \<Rightarrow> u64 \<Rightarrow> nat" where
  "mappages_fuel a lst = Suc (unat (lst - a) div PGSIZE)"

definition mappages :: "u64 \<Rightarrow> u64 \<Rightarrow> u64 \<Rightarrow> u64 \<Rightarrow> u64 \<Rightarrow> physmem \<Rightarrow> (int \<times> physmem) outcome" where
  "mappages pagetable va sz pa perm s =
     (if sz = 0 then opanic ''mappages: size''
      else let a = PGROUNDDOWN va; lst = PGROUNDDOWN (va + sz - 1)
           in mappages_loop (mappages_fuel a lst) pagetable a lst pa perm s)"

definition kvmmap :: "u64 \<Rightarrow> u64 \<Rightarrow> u64 \<Rightarrow> u64 \<Rightarrow> u64 \<Rightarrow> physmem \<Rightarrow> physmem outcome" where
  "kvmmap kpgtbl va pa sz perm s =
     obind (mappages kpgtbl va sz pa perm s) (\<lambda>(r, s). if r \<noteq> 0 then opanic ''kvmmap'' else Ret s)"

lemma walk_below_MAXVA: "walk pt va al s = Ret x \<Longrightarrow> va < MAXVA"
  by (auto simp: walk_def split: if_splits)

lemma unat_next_page: "a < MAXVA \<Longrightarrow> unat (a + 4096) = unat a + 4096"
  using unat_add_small [of a 4096] by (simp add: word_less_nat_alt)

function uvmunmap_loop :: "u64 \<Rightarrow> u64 \<Rightarrow> u64 \<Rightarrow> bool \<Rightarrow> physmem \<Rightarrow> physmem outcome" where
  "uvmunmap_loop pagetable a lim do_free s =
     (if a < lim then
        obind (walk pagetable a False s) (\<lambda>(pte, s).
          if pte = 0 then opanic ''uvmunmap: walk''
          else if load_pte pte s AND PTE_V = 0 then opanic ''uvmunmap: not mapped''
          else if PTE_FLAGS (load_pte pte s) = PTE_V then opanic ''uvmunmap: not a leaf''
          else obind (if do_free then kfree (PTE2PA (load_pte pte s)) s else Ret s) (\<lambda>s.
            uvmunmap_loop pagetable (a + 4096) lim do_free (store_pte pte 0 s)))
      else Ret s)"
  by pat_completeness auto
termination
  by (relation "measure (\<lambda>(pt, a, lim, f, s). unat lim - unat a)")
    (auto dest!: walk_below_MAXVA simp: unat_next_page word_less_nat_alt)

declare uvmunmap_loop.simps [simp del]

definition uvmunmap :: "u64 \<Rightarrow> u64 \<Rightarrow> u64 \<Rightarrow> bool \<Rightarrow> physmem \<Rightarrow> physmem outcome" where
  "uvmunmap pagetable va npages do_free s =
     (if va mod 4096 \<noteq> 0 then opanic ''uvmunmap: not aligned''
      else uvmunmap_loop pagetable va (va + npages * 4096) do_free s)"

definition uvmcreate :: "physmem \<Rightarrow> u64 \<times> physmem" where
  "uvmcreate s = (let (pagetable, s) = kalloc s in
     if pagetable = 0 then (0, s) else (pagetable, fill_page pagetable 0 s))"

text \<open>A copy between the kernel's image of initcode and the page is a copy between objects.\<close>

definition uvmfirst :: "u64 \<Rightarrow> bytes \<Rightarrow> nat \<Rightarrow> physmem \<Rightarrow> physmem outcome" where
  "uvmfirst pagetable src sz s =
     (if sz \<ge> PGSIZE then opanic ''uvmfirst: more than a page''
      else let (mem, s) = kalloc s; s = fill_page mem 0 s in
        obind (mappages pagetable 0 4096 mem (PTE_W OR PTE_R OR PTE_X OR PTE_U) s) (\<lambda>(_, s).
        Ret (s\<lparr>ram := copy_range (ram s) (unat mem) src 0 sz\<rparr>)))"

section \<open>Growing, shrinking and copying an address space\<close>

text \<open>The page count of uvmdealloc is an \<open>int\<close>: it is truncated to 32 bits and sign-extended.\<close>

definition uvmdealloc :: "u64 \<Rightarrow> u64 \<Rightarrow> u64 \<Rightarrow> physmem \<Rightarrow> (u64 \<times> physmem) outcome" where
  "uvmdealloc pagetable oldsz newsz s =
     (if newsz \<ge> oldsz then Ret (oldsz, s)
      else if PGROUNDUP newsz < PGROUNDUP oldsz then
        let npages = (ucast ((PGROUNDUP oldsz - PGROUNDUP newsz) div 4096) :: u32) in
        obind (uvmunmap pagetable (PGROUNDUP newsz) (scast npages) True s) (\<lambda>s. Ret (newsz, s))
      else Ret (newsz, s))"

lemma unat_page_offset: "unat (a - PGROUNDDOWN a) = unat a mod PGSIZE"
proof -
  have "PGROUNDDOWN a \<le> a" by (rule PGROUNDDOWN_le)
  then have "unat (a - PGROUNDDOWN a) = unat a - PGSIZE * (unat a div PGSIZE)"
    by (simp add: unat_sub unat_PGROUNDDOWN)
  then show ?thesis by (simp add: minus_mult_div_eq_mod)
qed

lemma mappages_below:
  assumes "mappages pt a sz pa perm s = Ret x"
  shows "unat a < 0x4000001000"
proof -
  have "PGROUNDDOWN a < MAXVA"
    using assms by (auto simp: mappages_def mappages_fuel_def Let_def obind_eq_Ret split: if_splits
        dest: walk_below_MAXVA)
  moreover have "unat a = unat (PGROUNDDOWN a) + unat a mod PGSIZE"
    by (simp add: unat_PGROUNDDOWN)
  moreover have "unat a mod PGSIZE < PGSIZE" by simp
  ultimately show ?thesis unfolding word_less_nat_alt by simp
qed

function uvmalloc_loop :: "u64 \<Rightarrow> u64 \<Rightarrow> u64 \<Rightarrow> u64 \<Rightarrow> u64 \<Rightarrow> physmem \<Rightarrow> (u64 \<times> physmem) outcome" where
  "uvmalloc_loop pagetable a oldsz newsz xperm s =
     (if a < newsz then
        (let (mem, s) = kalloc s in
         if mem = 0 then obind (uvmdealloc pagetable a oldsz s) (\<lambda>(_, s). Ret (0, s))
         else obind (mappages pagetable a 4096 mem (PTE_R OR PTE_U OR xperm) (fill_page mem 0 s)) (\<lambda>(r, s).
           if r \<noteq> 0 then
             obind (kfree mem s) (\<lambda>s. obind (uvmdealloc pagetable a oldsz s) (\<lambda>(_, s). Ret (0, s)))
           else uvmalloc_loop pagetable (a + 4096) oldsz newsz xperm s))
      else Ret (newsz, s))"
  by pat_completeness auto
termination
proof (relation "measure (\<lambda>(pt, a, old, new, x, s). unat new - unat a)", goal_cases)
  case (2 pagetable a oldsz newsz xperm s x mem s1 y r s2)
  then have "unat a < 0x4000001000" by (auto dest: mappages_below)
  then have "unat (a + 4096) = unat a + 4096" using unat_add_small [of a 4096] by simp
  with 2 show ?case by (simp add: word_less_nat_alt)
qed simp

declare uvmalloc_loop.simps [simp del]

definition uvmalloc :: "u64 \<Rightarrow> u64 \<Rightarrow> u64 \<Rightarrow> u64 \<Rightarrow> physmem \<Rightarrow> (u64 \<times> physmem) outcome" where
  "uvmalloc pagetable oldsz newsz xperm s =
     (if newsz < oldsz then Ret (oldsz, s)
      else uvmalloc_loop pagetable (PGROUNDUP oldsz) (PGROUNDUP oldsz) newsz xperm s)"

text \<open>
  freewalk recurses into the tables below; \<open>depth\<close> bounds the recursion, and the three levels
  walk() builds need depth 3.
\<close>

primrec freewalk :: "nat \<Rightarrow> u64 \<Rightarrow> physmem \<Rightarrow> physmem outcome" where
  "freewalk 0 pagetable s = Fail Diverged"
| "freewalk (Suc depth) pagetable s =
     obind (ofold (\<lambda>i s.
         let slot = pagetable + 8 * i; pte = load_pte slot s in
         if pte AND PTE_V \<noteq> 0 \<and> pte AND (PTE_R OR PTE_W OR PTE_X) = 0 then
           obind (freewalk depth (PTE2PA pte) s) (\<lambda>s. Ret (store_pte slot 0 s))
         else if pte AND PTE_V \<noteq> 0 then opanic ''freewalk: leaf''
         else Ret s) (map of_nat [0..<512]) s)
       (kfree pagetable)"

definition uvmfree :: "u64 \<Rightarrow> u64 \<Rightarrow> physmem \<Rightarrow> physmem outcome" where
  "uvmfree pagetable sz s =
     obind (if sz > 0 then uvmunmap pagetable 0 (PGROUNDUP sz div 4096) True s else Ret s)
       (freewalk 3 pagetable)"

definition copy_page :: "u64 \<Rightarrow> u64 \<Rightarrow> physmem \<Rightarrow> physmem" where
  "copy_page dst src s = s\<lparr>ram := memmove (unat dst) (unat src) PGSIZE (ram s)\<rparr>"

function uvmcopy_loop :: "u64 \<Rightarrow> u64 \<Rightarrow> u64 \<Rightarrow> u64 \<Rightarrow> physmem \<Rightarrow> (int \<times> physmem) outcome" where
  "uvmcopy_loop old new i sz s =
     (if i < sz then
        obind (walk old i False s) (\<lambda>(pte, s).
          if pte = 0 then opanic ''uvmcopy: pte should exist''
          else if load_pte pte s AND PTE_V = 0 then opanic ''uvmcopy: page not present''
          else
            let pa = PTE2PA (load_pte pte s); flags = PTE_FLAGS (load_pte pte s);
                (mem, s) = kalloc s in
            if mem = 0 then obind (uvmunmap new 0 (i div 4096) True s) (\<lambda>s. Ret (-1, s))
            else obind (mappages new i 4096 mem flags (copy_page mem pa s)) (\<lambda>(r, s).
              if r \<noteq> 0 then
                obind (kfree mem s) (\<lambda>s. obind (uvmunmap new 0 (i div 4096) True s) (\<lambda>s. Ret (-1, s)))
              else uvmcopy_loop old new (i + 4096) sz s))
      else Ret (0, s))"
  by pat_completeness auto
termination
  by (relation "measure (\<lambda>(old, new, i, sz, s). unat sz - unat i)")
    (auto dest!: walk_below_MAXVA simp: unat_next_page word_less_nat_alt)

declare uvmcopy_loop.simps [simp del]

definition uvmcopy :: "u64 \<Rightarrow> u64 \<Rightarrow> u64 \<Rightarrow> physmem \<Rightarrow> (int \<times> physmem) outcome" where
  "uvmcopy old new sz s = uvmcopy_loop old new 0 sz s"

definition uvmclear :: "u64 \<Rightarrow> u64 \<Rightarrow> physmem \<Rightarrow> physmem outcome" where
  "uvmclear pagetable va s =
     obind (walk pagetable va False s) (\<lambda>(pte, s).
       if pte = 0 then opanic ''uvmclear''
       else Ret (store_pte pte (load_pte pte s AND NOT PTE_U) s))"

section \<open>Copying between the kernel and a user address space\<close>

function copyout :: "u64 \<Rightarrow> u64 \<Rightarrow> bytes \<Rightarrow> nat \<Rightarrow> nat \<Rightarrow> physmem \<Rightarrow> (int \<times> physmem) outcome" where
  "copyout pagetable dstva src off len s =
     (if len > 0 then
        let va0 = PGROUNDDOWN dstva in
        obind (walkaddr pagetable va0 s) (\<lambda>pa0.
          if pa0 = 0 then Ret (-1, s)
          else
            let n = PGSIZE - unat (dstva - va0); n = (if n > len then len else n) in
            copyout pagetable (va0 + 4096) src (off + n) (len - n)
              (s\<lparr>ram := copy_range (ram s) (unat (pa0 + (dstva - va0))) src off n\<rparr>))
      else Ret (0, s))"
  by pat_completeness auto
termination
  by (relation "measure (\<lambda>(pt, dstva, src, off, len, s). len)") (auto simp: unat_page_offset)

declare copyout.simps [simp del]

function copyin :: "u64 \<Rightarrow> bytes \<Rightarrow> nat \<Rightarrow> u64 \<Rightarrow> nat \<Rightarrow> physmem \<Rightarrow> (int \<times> bytes) outcome" where
  "copyin pagetable dst off srcva len s =
     (if len > 0 then
        let va0 = PGROUNDDOWN srcva in
        obind (walkaddr pagetable va0 s) (\<lambda>pa0.
          if pa0 = 0 then Ret (-1, dst)
          else
            let n = PGSIZE - unat (srcva - va0); n = (if n > len then len else n) in
            copyin pagetable (copy_range dst off (ram s) (unat (pa0 + (srcva - va0))) n)
              (off + n) (va0 + 4096) (len - n) s)
      else Ret (0, dst))"
  by pat_completeness auto
termination
  by (relation "measure (\<lambda>(pt, dst, off, srcva, len, s). len)") (auto simp: unat_page_offset)

declare copyin.simps [simp del]

text \<open>The inner loop of copyinstr over \<open>n\<close> bytes at \<open>p\<close>, and whether it met the zero byte.\<close>

fun copystr_page :: "bytes \<Rightarrow> nat \<Rightarrow> bytes \<Rightarrow> nat \<Rightarrow> nat \<Rightarrow> bool \<times> bytes" where
  "copystr_page m p dst d 0 = (False, dst)"
| "copystr_page m p dst d (Suc n) =
     (if m p = 0 then (True, dst(d := 0)) else copystr_page m (p + 1) (dst(d := m p)) (d + 1) n)"

function copyinstr :: "u64 \<Rightarrow> bytes \<Rightarrow> nat \<Rightarrow> u64 \<Rightarrow> nat \<Rightarrow> physmem \<Rightarrow> (int \<times> bytes) outcome" where
  "copyinstr pagetable dst off srcva maxlen s =
     (if maxlen > 0 then
        let va0 = PGROUNDDOWN srcva in
        obind (walkaddr pagetable va0 s) (\<lambda>pa0.
          if pa0 = 0 then Ret (-1, dst)
          else
            let n = PGSIZE - unat (srcva - va0); n = (if n > maxlen then maxlen else n);
                (got_null, dst) = copystr_page (ram s) (unat (pa0 + (srcva - va0))) dst off n in
            if got_null then Ret (0, dst)
            else copyinstr pagetable dst (off + n) (va0 + 4096) (maxlen - n) s)
      else Ret (-1, dst))"
  by pat_completeness auto
termination
  by (relation "measure (\<lambda>(pt, dst, off, srcva, n, s). n)") (auto simp: unat_page_offset)

declare copyinstr.simps [simp del]

section \<open>The kernel's page table\<close>

text \<open>\<open>etext\<close> and \<open>trampoline\<close> are addresses the linker script sets.\<close>

definition KSTACK :: "nat \<Rightarrow> u64" where
  "KSTACK p = (MAXVA - 4096) - (of_nat p + 1) * 2 * 4096"

definition proc_mapstacks :: "u64 \<Rightarrow> physmem \<Rightarrow> physmem outcome" where
  "proc_mapstacks kpgtbl = ofold (\<lambda>p s.
     let (pa, s) = kalloc s in
     if pa = 0 then opanic ''kalloc''
     else kvmmap kpgtbl (KSTACK p) pa 4096 (PTE_R OR PTE_W) s) [0..<NPROC]"

definition kvmmake :: "u64 \<Rightarrow> u64 \<Rightarrow> physmem \<Rightarrow> (u64 \<times> physmem) outcome" where
  "kvmmake etext trampoline s =
     (let (kpgtbl, s) = kalloc s; s = fill_page kpgtbl 0 s in
      obind (kvmmap kpgtbl 0x10000000 0x10000000 4096 (PTE_R OR PTE_W) s) (\<lambda>s.
      obind (kvmmap kpgtbl 0x10001000 0x10001000 4096 (PTE_R OR PTE_W) s) (\<lambda>s.
      obind (kvmmap kpgtbl 0x0c000000 0x0c000000 0x400000 (PTE_R OR PTE_W) s) (\<lambda>s.
      obind (kvmmap kpgtbl 0x80000000 0x80000000 (etext - 0x80000000) (PTE_R OR PTE_X) s) (\<lambda>s.
      obind (kvmmap kpgtbl etext etext (PHYSTOPw - etext) (PTE_R OR PTE_W) s) (\<lambda>s.
      obind (kvmmap kpgtbl (MAXVA - 4096) trampoline 4096 (PTE_R OR PTE_X) s) (\<lambda>s.
      obind (proc_mapstacks kpgtbl s) (\<lambda>s. Ret (kpgtbl, s)))))))))"

end
