(* ===== verification/Xv6_PageTable.thy ===== *)
theory Xv6_PageTable
  imports Xv6_Vm
begin

text \<open>
  What a page table in memory represents. \<open>tabs\<close> is the set of table pages reached from a
  root, \<open>wfpt\<close> says that they form a tree of pages, \<open>leaf\<close> is the address of the last-level
  entry of a virtual address and \<open>pte\<close> its value, 0 when a table is missing. The lemmas say
  how these change when a last-level entry is written and when walk() adds tables.
\<close>

section \<open>Entries\<close>

abbreviation px :: "nat \<Rightarrow> u64 \<Rightarrow> nat" where
  "px l va \<equiv> unat (PX l va)"

definition ent :: "bytes \<Rightarrow> u64 \<Rightarrow> nat \<Rightarrow> u64" where
  "ent m pt i = load64 m (unat pt + 8 * i)"

definition valid :: "u64 \<Rightarrow> bool" where
  "valid e \<longleftrightarrow> e AND PTE_V \<noteq> 0"

lemma valid_0 [simp]: "\<not> valid 0"
  by (simp add: valid_def)

lemma px_eq: "px l va = unat va div 2 ^ (12 + 9 * l) mod 512"
proof -
  have m: "(0x1FF :: u64) = mask 9" by (simp add: mask_eq_exp_minus_1)
  have "px l va = take_bit 9 (drop_bit (12 + 9 * l) (unat va))"
    unfolding PX_def m take_bit_eq_mask [symmetric] using unat_lt64 [of va]
    by (simp add: unsigned_take_bit_eq unsigned_drop_bit_eq take_bit_nat_eq_self)
  then show ?thesis by (simp add: take_bit_eq_mod drop_bit_eq_div)
qed

lemma px_less [simp]: "px l va < 512"
  by (simp add: px_eq)

lemma unat_slot:
  assumes "page_ok k pt" and "i < 512"
  shows "unat (pt + 8 * of_nat i) = unat pt + 8 * i"
proof -
  have "unat pt < 0x88000000" using assms(1) by (simp add: page_ok_def word_less_nat_alt)
  then have "unat (pt + of_nat (8 * i)) = unat pt + 8 * i" by (intro unat_add_small) (use assms(2) in simp)
  then show ?thesis by simp
qed

lemma unat_pte_slot: "page_ok k pt \<Longrightarrow> unat (pt + 8 * PX l va) = unat pt + 8 * px l va"
  using unat_slot [of k pt "px l va"] by simp

lemma load_pte_slot: "page_ok k pt \<Longrightarrow> load_pte (pt + 8 * PX l va) s = ent (ram s) pt (px l va)"
  by (simp add: load_pte_def ent_def unat_pte_slot)

lemma ent_cong: "(\<And>a. a \<in> page_range pt \<Longrightarrow> m a = m' a) \<Longrightarrow> i < 512 \<Longrightarrow> ent m pt i = ent m' pt i"
  unfolding ent_def by (rule load64_cong) (auto simp: page_range_def)

lemma PTE2PA_PA2PTE:
  assumes "aligned p" and "p < PHYSTOPw" and "f < 1024"
  shows "PTE2PA (PA2PTE p OR f) = p"
proof -
  have f: "drop_bit 10 f = 0"
    using assms(3) by (simp add: word_unat_eq_iff word_less_nat_alt drop_bit_eq_div unat_div_distrib)
  have p: "12 \<le> n" if "bit p n" for n
  proof -
    have "push_bit 12 (drop_bit 12 p) = p" using PGROUNDDOWN_aligned [OF assms(1)] by (simp add: PGROUNDDOWN_alt)
    then show ?thesis using that by (metis bit_push_bit_iff linorder_not_less)
  qed
  have hi: "n < 32" if "bit p n" for n
  proof -
    have "unat p < 2 ^ 32" using assms(2) by (simp add: word_less_nat_alt)
    then have "take_bit 32 p = p" by (simp add: word_unat_eq_iff unsigned_take_bit_eq take_bit_nat_eq_self)
    then show ?thesis using that by (metis bit_take_bit_iff linorder_not_less)
  qed
  have "drop_bit 10 (PA2PTE p OR f) = drop_bit 10 (PA2PTE p)" using f by simp
  then have "PTE2PA (PA2PTE p OR f) = push_bit 12 (drop_bit 10 (PA2PTE p))" by (simp only: PTE2PA_def)
  also have "\<dots> = p"
    unfolding PA2PTE_def
  proof (rule bit_word_eqI)
    fix n assume "n < LENGTH(64)"
    then show "bit (push_bit 12 (drop_bit 10 (push_bit 10 (drop_bit 12 p)))) n = bit p n"
      using p [of n] hi [of n] by (cases "bit p n") (auto simp: bit_simps)
  qed
  finally show ?thesis .
qed

lemma valid_bit: "valid e \<longleftrightarrow> bit e 0"
  by (simp add: valid_def and_one_eq bit_0 mod_2_eq_odd)

lemma valid_or: "valid (e OR PTE_V)"
  by (simp add: valid_bit bit_or_iff)

section \<open>Trees of tables\<close>

primrec tabs :: "nat \<Rightarrow> bytes \<Rightarrow> u64 \<Rightarrow> u64 set" where
  "tabs 0 m pt = {pt}"
| "tabs (Suc l) m pt = insert pt (\<Union>i \<in> {i. i < 512 \<and> valid (ent m pt i)}. tabs l m (PTE2PA (ent m pt i)))"

primrec wfpt :: "u64 \<Rightarrow> nat \<Rightarrow> bytes \<Rightarrow> u64 \<Rightarrow> bool" where
  "wfpt k 0 m pt \<longleftrightarrow> page_ok k pt"
| "wfpt k (Suc l) m pt \<longleftrightarrow> page_ok k pt \<and>
     (\<forall>i<512. valid (ent m pt i) \<longrightarrow> wfpt k l m (PTE2PA (ent m pt i)) \<and> pt \<notin> tabs l m (PTE2PA (ent m pt i))) \<and>
     (\<forall>i<512. \<forall>j<512. i \<noteq> j \<longrightarrow> valid (ent m pt i) \<longrightarrow> valid (ent m pt j) \<longrightarrow>
        tabs l m (PTE2PA (ent m pt i)) \<inter> tabs l m (PTE2PA (ent m pt j)) = {})"

primrec leaf :: "nat \<Rightarrow> bytes \<Rightarrow> u64 \<Rightarrow> u64 \<Rightarrow> u64 option" where
  "leaf 0 m pt va = Some (pt + 8 * PX 0 va)"
| "leaf (Suc l) m pt va = (let e = ent m pt (px (Suc l) va) in
     if valid e then leaf l m (PTE2PA e) va else None)"

definition pte :: "nat \<Rightarrow> bytes \<Rightarrow> u64 \<Rightarrow> u64 \<Rightarrow> u64" where
  "pte l m pt va = (case leaf l m pt va of None \<Rightarrow> 0 | Some a \<Rightarrow> load64 m (unat a))"

lemma wfpt_root: "wfpt k l m pt \<Longrightarrow> page_ok k pt"
  by (cases l) auto

lemma root_in_tabs [simp]: "pt \<in> tabs l m pt"
  by (cases l) auto

lemma wfpt_tabs: "wfpt k l m pt \<Longrightarrow> t \<in> tabs l m pt \<Longrightarrow> page_ok k t"
  by (induction l arbitrary: pt) auto

lemma ent_child:
  assumes "wfpt k (Suc l) m pt" and "i < 512" and "valid (ent m pt i)"
  shows "wfpt k l m (PTE2PA (ent m pt i))" and "pt \<notin> tabs l m (PTE2PA (ent m pt i))"
    and "tabs l m (PTE2PA (ent m pt i)) \<subseteq> tabs (Suc l) m pt"
  using assms by auto

lemma siblings_disjoint:
  "wfpt k (Suc l) m pt \<Longrightarrow> i < 512 \<Longrightarrow> j < 512 \<Longrightarrow> i \<noteq> j \<Longrightarrow> valid (ent m pt i) \<Longrightarrow> valid (ent m pt j) \<Longrightarrow>
   tabs l m (PTE2PA (ent m pt i)) \<inter> tabs l m (PTE2PA (ent m pt j)) = {}"
  by simp

text \<open>Two memories that agree on the tables represent the same tree.\<close>

definition same_on :: "u64 set \<Rightarrow> bytes \<Rightarrow> bytes \<Rightarrow> bool" where
  "same_on T m m' \<longleftrightarrow> (\<forall>t \<in> T. \<forall>a \<in> page_range t. m a = m' a)"

lemma same_on_subset: "same_on T m m' \<Longrightarrow> S \<subseteq> T \<Longrightarrow> same_on S m m'"
  by (auto simp: same_on_def)

lemma same_on_ent: "same_on T m m' \<Longrightarrow> t \<in> T \<Longrightarrow> i < 512 \<Longrightarrow> ent m' t i = ent m t i"
  using ent_cong [of t m m' i] by (auto simp: same_on_def)

lemma tabs_same:
  assumes "same_on (tabs l m pt) m m'"
  shows "tabs l m' pt = tabs l m pt"
  using assms
proof (induction l arbitrary: pt)
  case (Suc l)
  have e: "ent m' pt i = ent m pt i" if "i < 512" for i using same_on_ent [OF Suc.prems] that by simp
  have "tabs l m' (PTE2PA (ent m pt i)) = tabs l m (PTE2PA (ent m pt i))"
    if "i < 512" "valid (ent m pt i)" for i
    using that by (intro Suc.IH same_on_subset [OF Suc.prems]) auto
  then show ?case by (auto simp: e)
qed simp

lemma wfpt_same:
  assumes "same_on (tabs l m pt) m m'"
  shows "wfpt k l m' pt = wfpt k l m pt"
  using assms
proof (induction l arbitrary: pt)
  case (Suc l)
  have e: "ent m' pt i = ent m pt i" if "i < 512" for i using same_on_ent [OF Suc.prems] that by simp
  have s: "same_on (tabs l m (PTE2PA (ent m pt i))) m m'" if "i < 512" "valid (ent m pt i)" for i
    using that by (intro same_on_subset [OF Suc.prems]) auto
  have "wfpt k l m' (PTE2PA (ent m pt i)) = wfpt k l m (PTE2PA (ent m pt i))"
    "tabs l m' (PTE2PA (ent m pt i)) = tabs l m (PTE2PA (ent m pt i))"
    if "i < 512" "valid (ent m pt i)" for i
    using Suc.IH [OF s [OF that]] tabs_same [OF s [OF that]] by simp_all
  with e show ?case by auto
qed simp

lemma leaf_same:
  assumes "same_on (tabs l m pt) m m'"
  shows "leaf l m' pt va = leaf l m pt va"
  using assms
proof (induction l arbitrary: pt)
  case (Suc l)
  have e: "ent m' pt i = ent m pt i" if "i < 512" for i using same_on_ent [OF Suc.prems] that by simp
  have "leaf l m' (PTE2PA (ent m pt i)) va = leaf l m (PTE2PA (ent m pt i)) va"
    if "i < 512" "valid (ent m pt i)" for i
    using that by (intro Suc.IH same_on_subset [OF Suc.prems]) auto
  with e show ?case by (simp add: Let_def)
qed simp

text \<open>Where a last-level entry is.\<close>

lemma leaf_slot:
  assumes "wfpt k l m pt" and "leaf l m pt va = Some a"
  obtains t where "t \<in> tabs l m pt" and "unat a = unat t + 8 * px 0 va"
    and "l = 0 \<Longrightarrow> t = pt" and "0 < l \<Longrightarrow> t \<noteq> pt"
    and "\<And>n. l = Suc n \<Longrightarrow> valid (ent m pt (px l va)) \<and> t \<in> tabs n m (PTE2PA (ent m pt (px l va)))"
  using assms
proof (induction l arbitrary: pt thesis)
  case 0
  then have "a = pt + 8 * PX 0 va" "page_ok k pt" by auto
  with 0(1) [of pt] show ?case by (simp add: unat_pte_slot)
next
  case (Suc l)
  let ?c = "PTE2PA (ent m pt (px (Suc l) va))"
  from Suc.prems(3) have v: "valid (ent m pt (px (Suc l) va))" "leaf l m ?c va = Some a"
    by (auto simp: Let_def split: if_splits)
  note c = ent_child [OF Suc.prems(2) px_less v(1)]
  obtain t where t: "t \<in> tabs l m ?c" "unat a = unat t + 8 * px 0 va"
    using Suc.IH [OF _ c(1) v(2)] by blast
  with c v show ?case by (intro Suc.prems(1) [of t]) auto
qed

lemma slot_in_page: "unat a = unat t + 8 * px 0 va \<Longrightarrow> {unat a..<unat a + 8} \<subseteq> page_range t"
proof -
  assume h: "unat a = unat t + 8 * px 0 va"
  have "px 0 va \<le> 511" using px_less [of 0 va] by linarith
  with h show ?thesis by (auto simp: page_range_def)
qed

lemma pte_same:
  assumes "wfpt k l m pt" and "same_on (tabs l m pt) m m'"
  shows "pte l m' pt va = pte l m pt va"
proof (cases "leaf l m pt va")
  case (Some a)
  obtain t where t: "t \<in> tabs l m pt" "unat a = unat t + 8 * px 0 va"
    by (rule leaf_slot [OF assms(1) Some])
  have "load64 m' (unat a) = load64 m (unat a)"
  proof (rule load64_cong)
    fix q :: nat assume "q < 8"
    then have "unat a + q \<in> page_range t" using slot_in_page [OF t(2)] by auto
    with assms(2) t(1) show "m' (unat a + q) = m (unat a + q)" by (simp add: same_on_def)
  qed
  with Some leaf_same [OF assms(2)] show ?thesis by (simp add: pte_def)
qed (simp add: pte_def leaf_same [OF assms(2)])

lemma leaf_nz:
  assumes "wfpt k l m pt" and "leaf l m pt va = Some a" and "0 < k"
  shows "a \<noteq> 0"
proof -
  obtain t where t: "t \<in> tabs l m pt" "unat a = unat t + 8 * px 0 va"
    by (rule leaf_slot [OF assms(1,2)])
  have "page_ok k t" by (rule wfpt_tabs [OF assms(1) t(1)])
  then have "0 < unat t" using assms(3) by (auto simp: page_ok_def word_le_nat_alt word_less_nat_alt)
  with t(2) show ?thesis by auto
qed

text \<open>Different pages have different last-level entries.\<close>

definition same_page :: "nat \<Rightarrow> u64 \<Rightarrow> u64 \<Rightarrow> bool" where
  "same_page l va va' \<longleftrightarrow> (\<forall>i\<le>l. px i va = px i va')"

lemma same_page_Suc: "same_page (Suc l) va va' \<longleftrightarrow> px (Suc l) va = px (Suc l) va' \<and> same_page l va va'"
  by (auto simp: same_page_def le_Suc_eq)

lemma leaf_same_page: "same_page l va va' \<Longrightarrow> leaf l m pt va = leaf l m pt va'"
proof (induction l arbitrary: pt)
  case 0
  then have "PX 0 va = PX 0 va'" by (simp add: same_page_def word_unat_eq_iff)
  then show ?case by simp
next
  case (Suc l)
  then show ?case by (simp add: same_page_Suc Let_def)
qed

lemma leaf_inj:
  assumes "wfpt k l m pt" and "leaf l m pt va = Some a" and "leaf l m pt va' = Some b"
    and "{unat a..<unat a + 8} \<inter> {unat b..<unat b + 8} \<noteq> {}"
  shows "same_page l va va'"
  using assms
proof (induction l arbitrary: pt)
  case 0
  then have "unat a = unat pt + 8 * px 0 va" "unat b = unat pt + 8 * px 0 va'"
    by (auto simp: unat_pte_slot)
  with 0(4) have "px 0 va = px 0 va'" by (cases "px 0 va < px 0 va'"; cases "px 0 va' < px 0 va") auto
  then show ?case by (simp add: same_page_def)
next
  case (Suc l)
  let ?c = "\<lambda>va. PTE2PA (ent m pt (px (Suc l) va))"
  obtain t where t: "t \<in> tabs (Suc l) m pt" "unat a = unat t + 8 * px 0 va"
    "valid (ent m pt (px (Suc l) va))" "t \<in> tabs l m (?c va)"
    using leaf_slot [OF Suc.prems(1,2)] by metis
  obtain u where u: "u \<in> tabs (Suc l) m pt" "unat b = unat u + 8 * px 0 va'"
    "valid (ent m pt (px (Suc l) va'))" "u \<in> tabs l m (?c va')"
    using leaf_slot [OF Suc.prems(1,3)] by metis
  have "page_range t \<inter> page_range u \<noteq> {}"
    using slot_in_page [OF t(2)] slot_in_page [OF u(2)] Suc.prems(4) by blast
  then have "t = u"
    using page_disjoint [of t u] wfpt_tabs [OF Suc.prems(1) t(1)] wfpt_tabs [OF Suc.prems(1) u(1)]
    by (auto simp: page_ok_def)
  then have same: "px (Suc l) va = px (Suc l) va'"
    using siblings_disjoint [OF Suc.prems(1), of "px (Suc l) va" "px (Suc l) va'"] t(3,4) u(3,4) by auto
  have "leaf l m (?c va) va = Some a" "leaf l m (?c va) va' = Some b"
    using Suc.prems(2,3) t(3) u(3) same by (auto simp: Let_def)
  from Suc.IH [OF ent_child(1) [OF Suc.prems(1) px_less t(3)] this Suc.prems(4)] same
  show ?case by (simp add: same_page_Suc)
qed

section \<open>Writing a last-level entry\<close>

lemma store_leaf:
  assumes "wfpt k l m pt" and "leaf l m pt va = Some a"
  shows "tabs l (store64 m (unat a) e) pt = tabs l m pt" (is "tabs l ?m pt = _")
    and "wfpt k l (store64 m (unat a) e) pt"
    and "leaf l (store64 m (unat a) e) pt va' = leaf l m pt va'"
proof -
  have "tabs l ?m pt = tabs l m pt \<and> wfpt k l ?m pt \<and> (\<forall>va'. leaf l ?m pt va' = leaf l m pt va')"
    using assms
  proof (induction l arbitrary: pt)
    case (Suc l)
    let ?i = "px (Suc l) va"
    let ?c = "PTE2PA (ent m pt ?i)"
    obtain t where t: "t \<in> tabs (Suc l) m pt" "unat a = unat t + 8 * px 0 va" "t \<noteq> pt"
      "valid (ent m pt ?i)" "t \<in> tabs l m ?c"
      using leaf_slot [OF Suc.prems] by (metis zero_less_Suc)
    have out: "?m x = m x" if "x \<notin> page_range t" for x
      using slot_in_page [OF t(2)] that by (intro store64_other) (metis atLeastLessThan_iff linorder_not_less subsetD)
    have al: "page_ok k u" if "u \<in> tabs (Suc l) m pt" for u by (rule wfpt_tabs [OF Suc.prems(1) that])
    have same: "same_on T m ?m" if "T \<subseteq> tabs (Suc l) m pt" "t \<notin> T" for T
      unfolding same_on_def
    proof (intro ballI)
      fix u x assume u: "u \<in> T" "x \<in> page_range u"
      then have "page_range u \<inter> page_range t = {}"
        using that al t(1) by (intro page_disjoint) (auto simp: page_ok_def)
      with u(2) have "x \<notin> page_range t" by blast
      from out [OF this] show "m x = ?m x" by (rule sym)
    qed
    have e: "ent ?m pt j = ent m pt j" if "j < 512" for j
      using same_on_ent [OF same [of "{pt}"], of pt j] t(3) that by auto
    have IH: "tabs l ?m ?c = tabs l m ?c" "wfpt k l ?m ?c" "\<And>va'. leaf l ?m ?c va' = leaf l m ?c va'"
      using Suc.IH [OF ent_child(1) [OF Suc.prems(1) px_less t(4)]] Suc.prems(2) t(4)
      by (auto simp: Let_def)
    have oth: "same_on (tabs l m (PTE2PA (ent m pt j))) m ?m"
      if "j < 512" "valid (ent m pt j)" "j \<noteq> ?i" for j
    proof (rule same)
      show "tabs l m (PTE2PA (ent m pt j)) \<subseteq> tabs (Suc l) m pt" using that by auto
      show "t \<notin> tabs l m (PTE2PA (ent m pt j))"
        using siblings_disjoint [OF Suc.prems(1) that(1) px_less that(3) that(2) t(4)] t(5) by auto
    qed
    have tb: "tabs l ?m (PTE2PA (ent m pt j)) = tabs l m (PTE2PA (ent m pt j))"
      and wf: "wfpt k l ?m (PTE2PA (ent m pt j))"
      and lf: "leaf l ?m (PTE2PA (ent m pt j)) va' = leaf l m (PTE2PA (ent m pt j)) va'"
      if "j < 512" "valid (ent m pt j)" for j va'
      using IH tabs_same [OF oth [OF that]] wfpt_same [OF oth [OF that]] leaf_same [OF oth [OF that]]
        ent_child(1) [OF Suc.prems(1) that] by (cases "j = ?i"; auto)+
    have "tabs (Suc l) ?m pt = tabs (Suc l) m pt" using e tb by auto
    moreover have "wfpt k (Suc l) ?m pt" using Suc.prems(1) e tb wf by auto
    moreover have "leaf (Suc l) ?m pt va' = leaf (Suc l) m pt va'" for va'
      using e lf by (simp add: Let_def)
    ultimately show ?case by blast
  qed simp
  then show "tabs l ?m pt = tabs l m pt" "wfpt k l ?m pt" "leaf l ?m pt va' = leaf l m pt va'" by auto
qed

lemma pte_store_leaf:
  assumes "wfpt k l m pt" and "leaf l m pt va = Some a"
  shows "pte l (store64 m (unat a) e) pt va' = (if same_page l va va' then e else pte l m pt va')"
proof (cases "same_page l va va'")
  case True
  then have "leaf l m pt va' = Some a" using leaf_same_page assms(2) by metis
  with True show ?thesis by (simp add: pte_def store_leaf(3) [OF assms])
next
  case False
  show ?thesis
  proof (cases "leaf l m pt va'")
    case (Some b)
    then have "{unat a..<unat a + 8} \<inter> {unat b..<unat b + 8} = {}"
      using leaf_inj [OF assms Some] False by blast
    then have "unat b + 8 \<le> unat a \<or> unat a + 8 \<le> unat b" by (auto simp: disjoint_iff)
    with Some False show ?thesis
      by (simp add: pte_def store_leaf(3) [OF assms] load64_store64_other)
  qed (use False in \<open>simp add: pte_def store_leaf(3) [OF assms]\<close>)
qed

section \<open>Adding tables\<close>

text \<open>
  One entry of a table changes to (or stays) a valid entry whose subtree is given, and the
  subtrees of the other entries keep their memory.
\<close>

lemma regrow:
  assumes wf: "wfpt k (Suc l) m pt" and i: "i < 512"
    and oth: "\<And>j. j < 512 \<Longrightarrow> j \<noteq> i \<Longrightarrow> ent m' pt j = ent m pt j"
    and ei: "valid (ent m' pt i)" and c: "c = PTE2PA (ent m' pt i)"
    and wc: "wfpt k l m' c" and pc: "pt \<notin> tabs l m' c"
    and same: "\<And>j. j < 512 \<Longrightarrow> j \<noteq> i \<Longrightarrow> valid (ent m pt j) \<Longrightarrow> same_on (tabs l m (PTE2PA (ent m pt j))) m m'"
    and dis: "\<And>j. j < 512 \<Longrightarrow> j \<noteq> i \<Longrightarrow> valid (ent m pt j) \<Longrightarrow>
      tabs l m (PTE2PA (ent m pt j)) \<inter> tabs l m' c = {}"
  shows "wfpt k (Suc l) m' pt"
    and "tabs (Suc l) m' pt = insert pt (tabs l m' c \<union>
      (\<Union>j \<in> {j. j < 512 \<and> j \<noteq> i \<and> valid (ent m pt j)}. tabs l m (PTE2PA (ent m pt j))))"
    and "leaf (Suc l) m' pt va = (if px (Suc l) va = i then leaf l m' c va else leaf (Suc l) m pt va)"
proof -
  have tb: "tabs l m' (PTE2PA (ent m pt j)) = tabs l m (PTE2PA (ent m pt j))"
    and wj: "wfpt k l m' (PTE2PA (ent m pt j))" and lf: "leaf l m' (PTE2PA (ent m pt j)) va = leaf l m (PTE2PA (ent m pt j)) va"
    and pj: "pt \<notin> tabs l m (PTE2PA (ent m pt j))"
    if "j < 512" "j \<noteq> i" "valid (ent m pt j)" for j va
    using tabs_same [OF same [OF that]] wfpt_same [OF same [OF that]] leaf_same [OF same [OF that]]
      ent_child [OF wf that(1,3)] by auto
  show "tabs (Suc l) m' pt = insert pt (tabs l m' c \<union>
      (\<Union>j \<in> {j. j < 512 \<and> j \<noteq> i \<and> valid (ent m pt j)}. tabs l m (PTE2PA (ent m pt j))))"
  proof -
    have "{j. j < 512 \<and> valid (ent m' pt j)} = insert i {j. j < 512 \<and> j \<noteq> i \<and> valid (ent m pt j)}"
      using oth ei i by auto
    then have "tabs (Suc l) m' pt = insert pt (tabs l m' c \<union>
      (\<Union>j \<in> {j. j < 512 \<and> j \<noteq> i \<and> valid (ent m pt j)}. tabs l m' (PTE2PA (ent m' pt j))))"
      by (simp add: c)
    moreover have "tabs l m' (PTE2PA (ent m' pt j)) = tabs l m (PTE2PA (ent m pt j))"
      if "j \<in> {j. j < 512 \<and> j \<noteq> i \<and> valid (ent m pt j)}" for j
      using that tb [of j] oth [of j] by simp
    ultimately show ?thesis by simp
  qed
  show "leaf (Suc l) m' pt va = (if px (Suc l) va = i then leaf l m' c va else leaf (Suc l) m pt va)"
    using oth [of "px (Suc l) va"] lf [of "px (Suc l) va"] ei by (auto simp: Let_def c)
  show "wfpt k (Suc l) m' pt" unfolding wfpt.simps
  proof (intro conjI allI impI)
    show "page_ok k pt" by (rule wfpt_root [OF wf])
    fix j assume j: "j < 512" "valid (ent m' pt j)"
    show "wfpt k l m' (PTE2PA (ent m' pt j))" "pt \<notin> tabs l m' (PTE2PA (ent m' pt j))"
      using wc pc c j oth [of j] wj [of j] pj [of j] tb [of j] by (cases "j = i"; simp)+
  next
    fix j j' assume j: "j < 512" "j' < 512" "j \<noteq> j'" "valid (ent m' pt j)" "valid (ent m' pt j')"
    consider "j = i" | "j' = i" | "j \<noteq> i" "j' \<noteq> i" by blast
    then show "tabs l m' (PTE2PA (ent m' pt j)) \<inter> tabs l m' (PTE2PA (ent m' pt j')) = {}"
    proof cases
      case 1
      then show ?thesis using j oth [of j'] tb [of j'] dis [of j'] c by (auto simp: Int_commute)
    next
      case 2
      then show ?thesis using j oth [of j] tb [of j] dis [of j] c by (auto simp: Int_commute)
    next
      case 3
      then show ?thesis using j oth [of j] oth [of j'] tb [of j] tb [of j'] siblings_disjoint [OF wf j(1,2,3)]
        by simp
    qed
  qed
qed

text \<open>A table page filled with zeros is an empty table.\<close>

lemma ent_zero: "(\<And>a. a \<in> page_range pt \<Longrightarrow> m a = 0) \<Longrightarrow> i < 512 \<Longrightarrow> ent m pt i = 0"
  unfolding ent_def by (rule load64_zero) (auto simp: page_range_def)

lemma empty_table:
  assumes "\<And>a. a \<in> page_range pt \<Longrightarrow> m a = 0" and "page_ok k pt"
  shows "tabs l m pt = {pt}" and "wfpt k l m pt" and "pte l m pt va = 0"
proof -
  have e: "ent m pt i = 0" if "i < 512" for i using ent_zero assms(1) that by blast
  show "tabs l m pt = {pt}" "wfpt k l m pt" using e assms(2) by (cases l; auto)+
  show "pte l m pt va = 0"
  proof (cases l)
    case 0
    have "pte 0 m pt va = ent m pt (px 0 va)"
      by (simp add: pte_def ent_def unat_pte_slot [OF assms(2)])
    with 0 e show ?thesis by simp
  qed (use e in \<open>simp add: pte_def Let_def\<close>)
qed

text \<open>Writes outside the free pages keep the allocator's invariant.\<close>

definition ram_upd :: "bytes \<Rightarrow> physmem \<Rightarrow> physmem" where
  "ram_upd m s = s\<lparr>ram := m\<rparr>"

lemma ram_upd_sel [simp]: "ram (ram_upd m s) = m" "kend (ram_upd m s) = kend s" "freelist (ram_upd m s) = freelist s"
  by (simp_all add: ram_upd_def)

lemma kmem_frame:
  assumes "kmem_inv s" and "same_on (free_pages s) (ram s) m"
  shows "kmem_inv (ram_upd m s)" and "free_pages (ram_upd m s) = free_pages s"
proof -
  obtain xs where xs: "kmem_list s xs" using assms(1) by (auto simp: kmem_inv_def)
  have "free_chain m p xs = free_chain (ram s) p xs" for p
    by (rule free_chain_cong) (use assms(2) free_pages_eq [OF xs] in \<open>auto simp: same_on_def\<close>)
  with xs have l: "kmem_list (ram_upd m s) xs" by (simp add: kmem_list_def)
  then show "kmem_inv (ram_upd m s)" by (auto simp: kmem_inv_def)
  show "free_pages (ram_upd m s) = free_pages s" using free_pages_eq [OF l] free_pages_eq [OF xs] by simp
qed

text \<open>Memory outside a set of pages is unchanged.\<close>

definition unchanged_outside :: "u64 set \<Rightarrow> bytes \<Rightarrow> bytes \<Rightarrow> bool" where
  "unchanged_outside T m m' \<longleftrightarrow> (\<forall>a. (\<forall>t \<in> T. a \<notin> page_range t) \<longrightarrow> m' a = m a)"

lemma unchanged_refl [simp]: "unchanged_outside T m m"
  by (simp add: unchanged_outside_def)

lemma unchanged_trans:
  "unchanged_outside T m m' \<Longrightarrow> unchanged_outside T m' m'' \<Longrightarrow> unchanged_outside T m m''"
  by (simp add: unchanged_outside_def)

lemma unchanged_mono: "unchanged_outside S m m' \<Longrightarrow> S \<subseteq> T \<Longrightarrow> unchanged_outside T m m'"
  by (auto simp: unchanged_outside_def)

lemma unchanged_same_on:
  assumes "unchanged_outside T m m'" and "S \<inter> T = {}" and "\<And>p. p \<in> S \<union> T \<Longrightarrow> aligned p"
  shows "same_on S m m'"
  unfolding same_on_def
proof (intro ballI)
  fix p a assume p: "p \<in> S" "a \<in> page_range p"
  have "a \<notin> page_range t" if "t \<in> T" for t
  proof -
    have "page_range p \<inter> page_range t = {}" using assms(2,3) p that by (intro page_disjoint) auto
    with p show ?thesis by blast
  qed
  with assms(1) show "m a = m' a" by (auto simp: unchanged_outside_def)
qed

lemma free_pages_ok: "kmem_inv s \<Longrightarrow> p \<in> free_pages s \<Longrightarrow> page_ok (kend s) p"
  by (rule kmem.frees_usable)

lemma page_ok_aligned: "page_ok k p \<Longrightarrow> aligned p"
  by (simp add: page_ok_def)

text \<open>The state of a page table that walk() may extend: a tree of pages that are not free.\<close>

definition table_ok :: "nat \<Rightarrow> physmem \<Rightarrow> u64 \<Rightarrow> bool" where
  "table_ok l s pt \<longleftrightarrow> kmem_inv s \<and> wfpt (kend s) l (ram s) pt \<and> tabs l (ram s) pt \<inter> free_pages s = {}"

lemma child_table_ok:
  assumes "table_ok (Suc l) s pt" and "i < 512" and "valid (ent (ram s) pt i)"
  shows "table_ok l s (PTE2PA (ent (ram s) pt i))"
proof -
  have wf: "wfpt (kend s) (Suc l) (ram s) pt" using assms(1) by (simp only: table_ok_def)
  from ent_child [OF wf assms(2,3)] assms(1) show ?thesis unfolding table_ok_def by blast
qed

lemma kend_pos: "kmem_inv s \<Longrightarrow> 0 < kend s"
  by (auto simp: kmem_inv_def kmem_list_def)

text \<open>What walk() with \<open>alloc\<close> set does: the new tables \<open>N\<close> come from the free pages.\<close>

definition grown :: "nat \<Rightarrow> u64 \<Rightarrow> u64 set \<Rightarrow> physmem \<Rightarrow> physmem \<Rightarrow> bool" where
  "grown l pt N s s' \<longleftrightarrow> kmem_inv s' \<and> kend s' = kend s \<and> N \<subseteq> free_pages s \<and>
     free_pages s' = free_pages s - N \<and> wfpt (kend s) l (ram s') pt \<and>
     tabs l (ram s') pt = tabs l (ram s) pt \<union> N \<and>
     unchanged_outside (tabs l (ram s) pt \<union> N) (ram s) (ram s') \<and>
     (\<forall>va. pte l (ram s') pt va = pte l (ram s) pt va)"

lemma grown_refl: "table_ok l s pt \<Longrightarrow> grown l pt {} s s"
  by (simp add: grown_def table_ok_def)

lemma grown_table_ok: "table_ok l s pt \<Longrightarrow> grown l pt N s s' \<Longrightarrow> table_ok l s' pt"
  by (auto simp: grown_def table_ok_def)

lemma pte_Suc:
  "pte (Suc l) m pt va = (let e = ent m pt (px (Suc l) va) in if valid e then pte l m (PTE2PA e) va else 0)"
  by (simp add: pte_def Let_def)

text \<open>Growing the subtree of a valid entry grows the tree.\<close>

lemma grown_child:
  assumes ok: "table_ok (Suc l) s pt" and i: "i < 512" and v: "valid (ent (ram s) pt i)"
    and g: "grown l (PTE2PA (ent (ram s) pt i)) N s s'"
  shows "grown (Suc l) pt N s s'"
    and "px (Suc l) va = i \<Longrightarrow> leaf (Suc l) (ram s') pt va = leaf l (ram s') (PTE2PA (ent (ram s) pt i)) va"
proof -
  let ?c = "PTE2PA (ent (ram s) pt i)" and ?m = "ram s" and ?m' = "ram s'"
  have wf: "wfpt (kend s) (Suc l) ?m pt" and inv: "kmem_inv s"
    and free: "tabs (Suc l) ?m pt \<inter> free_pages s = {}"
    using ok by (simp_all only: table_ok_def)
  note ch = ent_child [OF wf i v]
  have N: "N \<subseteq> free_pages s" "tabs l ?m' ?c = tabs l ?m ?c \<union> N"
      "unchanged_outside (tabs l ?m ?c \<union> N) ?m ?m'" "wfpt (kend s) l ?m' ?c"
    using g by (simp_all add: grown_def)
  have al: "aligned p" if "p \<in> tabs (Suc l) ?m pt \<union> N" for p
    using that N(1) wfpt_tabs [OF wf] free_pages_ok [OF inv] page_ok_aligned by blast
  have keep: "same_on S ?m ?m'" if "S \<subseteq> tabs (Suc l) ?m pt" "S \<inter> tabs l ?m ?c = {}" for S
  proof (rule unchanged_same_on [OF N(3)])
    show "S \<inter> (tabs l ?m ?c \<union> N) = {}" using that free N(1) by blast
    show "aligned p" if "p \<in> S \<union> (tabs l ?m ?c \<union> N)" for p
      using that \<open>S \<subseteq> _\<close> ch(3) al by blast
  qed
  have root: "same_on {pt} ?m ?m'" by (rule keep) (use ch(2) in auto)
  have e: "ent ?m' pt j = ent ?m pt j" if "j < 512" for j
    by (rule same_on_ent [OF root]) (use that in simp_all)
  have sib: "same_on (tabs l ?m (PTE2PA (ent ?m pt j))) ?m ?m'" if "j < 512" "j \<noteq> i" "valid (ent ?m pt j)" for j
    by (rule keep [OF ent_child(3) [OF wf that(1,3)] siblings_disjoint [OF wf that(1) i that(2,3) v]])
  have dis: "tabs l ?m (PTE2PA (ent ?m pt j)) \<inter> tabs l ?m' ?c = {}"
    if "j < 512" "j \<noteq> i" "valid (ent ?m pt j)" for j
    using siblings_disjoint [OF wf that(1) i that(2,3) v] free N(1,2) ent_child(3) [OF wf that(1,3)] by blast
  have pc: "pt \<notin> tabs l ?m' ?c"
  proof -
    have "pt \<notin> N" using free N(1) root_in_tabs by blast
    with ch(2) N(2) show ?thesis by blast
  qed
  have e': "ent ?m' pt j = ent ?m pt j" if "j < 512" "j \<noteq> i" for j by (rule e [OF that(1)])
  have "PTE2PA (ent ?m' pt i) = ?c" "valid (ent ?m' pt i)" using e i v by simp_all
  note r = regrow [OF wf i e' this(2) this(1) [symmetric] N(4) pc sib dis]
  show "leaf (Suc l) ?m' pt va = leaf l ?m' ?c va" if "px (Suc l) va = i"
    by (rule trans [OF r(3) if_P [OF that]])
  have tb: "tabs (Suc l) ?m' pt = tabs (Suc l) ?m pt \<union> N"
  proof -
    define X where "X = (\<Union>j \<in> {j. j < 512 \<and> j \<noteq> i \<and> valid (ent ?m pt j)}. tabs l ?m (PTE2PA (ent ?m pt j)))"
    have "{j. j < 512 \<and> valid (ent ?m pt j)} = insert i {j. j < 512 \<and> j \<noteq> i \<and> valid (ent ?m pt j)}"
      using i v by auto
    then have "tabs (Suc l) ?m pt = insert pt (tabs l ?m ?c \<union> X)" by (simp add: X_def)
    moreover have "tabs (Suc l) ?m' pt = insert pt ((tabs l ?m ?c \<union> N) \<union> X)"
      unfolding X_def N(2) [symmetric] by (rule r(2))
    ultimately show ?thesis by blast
  qed
  have "pte (Suc l) ?m' pt va = pte (Suc l) ?m pt va" for va
  proof (cases "px (Suc l) va = i")
    case True
    with e [OF i] v g show ?thesis by (simp add: pte_Suc grown_def)
  next
    case False
    have "pte l ?m' (PTE2PA (ent ?m pt j)) va = pte l ?m (PTE2PA (ent ?m pt j)) va"
      if j: "j < 512" "j \<noteq> i" "valid (ent ?m pt j)" for j
      by (rule pte_same [OF ent_child(1) [OF wf j(1,3)] sib [OF j]])
    with False e show ?thesis by (simp add: pte_Suc Let_def)
  qed
  moreover have "unchanged_outside (tabs (Suc l) ?m pt \<union> N) ?m ?m'"
    by (rule unchanged_mono [OF N(3)]) (use ch(3) in blast)
  moreover have "kmem_inv s'" "kend s' = kend s" "free_pages s' = free_pages s - N"
    using g by (simp_all add: grown_def)
  ultimately show "grown (Suc l) pt N s s'"
    unfolding grown_def using N(1) r(1) tb by (intro conjI allI)
qed

text \<open>Hanging an empty table below an entry that was not valid.\<close>

lemma hang_table:
  assumes ok: "table_ok (Suc l) s pt" and i: "i < 512" and nv: "\<not> valid (ent (ram s) pt i)"
    and k: "kalloc s = (np, s1)" "np \<noteq> 0"
  defines "s2 \<equiv> store_pte (pt + 8 * of_nat i) (PA2PTE np OR PTE_V) (fill_page np 0 s1)"
  shows "grown (Suc l) pt {np} s s2" and "table_ok (Suc l) s2 pt" and "valid (ent (ram s2) pt i)"
    and "PTE2PA (ent (ram s2) pt i) = np" and "table_ok l s2 np"
proof -
  have inv: "kmem_inv s" and wf: "wfpt (kend s) (Suc l) (ram s) pt"
    and fr: "tabs (Suc l) (ram s) pt \<inter> free_pages s = {}"
    using ok by (simp_all only: table_ok_def)
  note a = kmem.alloc_fresh [OF inv k]
  have pt: "page_ok (kend s) pt" by (rule wfpt_root [OF wf])
  have ptf: "pt \<notin> free_pages s" using fr root_in_tabs by blast
  then have ne: "pt \<noteq> np" using a(1) by blast
  have slot: "unat (pt + 8 * of_nat i) = unat pt + 8 * i" by (rule unat_slot [OF pt i])
  let ?m1 = "memset (unat np) 0 PGSIZE (ram s1)"
  let ?m2 = "store64 ?m1 (unat pt + 8 * i) (PA2PTE np OR PTE_V)"
  have s2: "s2 = ram_upd ?m2 s1"
    unfolding s2_def by (simp add: store_pte_def fill_page_def ram_upd_def slot)
  have ptnp: "page_range pt \<inter> page_range np = {}"
    by (rule page_disjoint) (use pt a(2) ne in \<open>auto simp: page_ok_def\<close>)
  have m1: "?m1 x = (if x \<in> page_range np then 0 else ram s x)" for x
    using a(6) [of x] by (auto simp: memset_eq page_range_def fill_range_def)
  have m2: "?m2 x = ?m1 x" if "x \<notin> page_range pt" for x
    using that i by (intro store64_other) (auto simp: page_range_def)
  have unch: "unchanged_outside {pt, np} (ram s) ?m2"
    unfolding unchanged_outside_def
  proof (intro allI impI)
    fix x assume "\<forall>t \<in> {pt, np}. x \<notin> page_range t"
    then show "?m2 x = ram s x" using m2 [of x] m1 [of x] by simp
  qed
  have z: "?m2 x = 0" if "x \<in> page_range np" for x
    using that ptnp m2 [of x] m1 [of x] by auto
  have em: "tabs n ?m2 np = {np}" "wfpt (kend s) n ?m2 np" "pte n ?m2 np va = 0" for n va
    by (rule empty_table [OF _ a(2)], erule z)+
  have same: "same_on S (ram s) ?m2" if "S \<inter> {pt, np} = {}" "\<And>p. p \<in> S \<Longrightarrow> aligned p" for S
    by (rule unchanged_same_on [OF unch that(1)]) (use that(2) pt a(2) in \<open>auto simp: page_ok_def\<close>)
  have fm: "same_on (free_pages s1) (ram s1) ?m2"
  proof -
    have "same_on (free_pages s1) (ram s) ?m2"
      using ptf a(4) free_pages_ok [OF a(3)] by (intro same) (auto simp: page_ok_def)
    moreover have "ram s1 x = ram s x" if "p \<in> free_pages s1" "x \<in> page_range p" for p x
      using a(6) [of x] a(7) [OF that(1)] that(2) by blast
    ultimately show ?thesis by (simp add: same_on_def)
  qed
  have kend: "kend s1 = kend s"
    using k(1) by (auto simp: kalloc_def Let_def split: if_splits)
  have inv2: "kmem_inv s2" "free_pages s2 = free_pages s - {np}"
    unfolding s2 using kmem_frame [OF a(3) fm] a(4) by simp_all
  have e: "ent ?m2 pt j = ent (ram s) pt j" if j: "j < 512" "j \<noteq> i" for j
  proof -
    have "load64 ?m2 (unat pt + 8 * j) = load64 ?m1 (unat pt + 8 * j)"
      using j by (intro load64_store64_other) auto
    moreover have "ent ?m1 pt j = ent (ram s) pt j"
      by (rule ent_cong) (use ptnp m1 j in auto)
    ultimately show ?thesis by (simp add: ent_def)
  qed
  have ei: "ent ?m2 pt i = PA2PTE np OR PTE_V" by (simp add: ent_def)
  have vi: "valid (ent ?m2 pt i)" by (simp add: ei valid_or)
  have ci: "PTE2PA (ent ?m2 pt i) = np"
    unfolding ei by (rule PTE2PA_PA2PTE) (use a(2) in \<open>auto simp: page_ok_def\<close>)
  show "valid (ent (ram s2) pt i)" "PTE2PA (ent (ram s2) pt i) = np" using vi ci by (simp_all add: s2)
  have sib: "same_on (tabs l (ram s) (PTE2PA (ent (ram s) pt j))) (ram s) ?m2"
    if j: "j < 512" "j \<noteq> i" "valid (ent (ram s) pt j)" for j
  proof (rule same)
    show "tabs l (ram s) (PTE2PA (ent (ram s) pt j)) \<inter> {pt, np} = {}"
      using ent_child(2,3) [OF wf j(1,3)] fr a(1) by blast
    show "aligned p" if "p \<in> tabs l (ram s) (PTE2PA (ent (ram s) pt j))" for p
      using wfpt_tabs [OF ent_child(1) [OF wf j(1,3)] that] by (simp add: page_ok_def)
  qed
  have dis: "tabs l (ram s) (PTE2PA (ent (ram s) pt j)) \<inter> tabs l ?m2 np = {}"
    if j: "j < 512" "j \<noteq> i" "valid (ent (ram s) pt j)" for j
    unfolding em(1) using ent_child(3) [OF wf j(1,3)] fr a(1) by blast
  have "pt \<notin> tabs l ?m2 np" using ne em(1) by simp
  note r = regrow [OF wf i e vi ci [symmetric] em(2) this sib dis]
  have tb: "tabs (Suc l) ?m2 pt = tabs (Suc l) (ram s) pt \<union> {np}"
  proof -
    have "{j. j < 512 \<and> valid (ent (ram s) pt j)} = {j. j < 512 \<and> j \<noteq> i \<and> valid (ent (ram s) pt j)}"
      using nv by auto
    then have "tabs (Suc l) (ram s) pt = insert pt
        (\<Union>j \<in> {j. j < 512 \<and> j \<noteq> i \<and> valid (ent (ram s) pt j)}. tabs l (ram s) (PTE2PA (ent (ram s) pt j)))"
      by simp
    moreover have "insert pt (tabs l ?m2 np \<union> X) = insert pt X \<union> {np}" for X
      unfolding em(1) by blast
    moreover have "tabs (Suc l) ?m2 pt = insert pt (tabs l ?m2 np \<union>
        (\<Union>j \<in> {j. j < 512 \<and> j \<noteq> i \<and> valid (ent (ram s) pt j)}. tabs l (ram s) (PTE2PA (ent (ram s) pt j))))"
      by (rule r(2))
    ultimately show ?thesis by (simp only:)
  qed
  have "pte (Suc l) ?m2 pt va = pte (Suc l) (ram s) pt va" for va
  proof (cases "px (Suc l) va = i")
    case True
    with vi ci em(3) nv show ?thesis by (simp add: pte_Suc Let_def)
  next
    case False
    have "pte l ?m2 (PTE2PA (ent (ram s) pt j)) va = pte l (ram s) (PTE2PA (ent (ram s) pt j)) va"
      if j: "j < 512" "j \<noteq> i" "valid (ent (ram s) pt j)" for j
      by (rule pte_same [OF ent_child(1) [OF wf j(1,3)] sib [OF j]])
    with False e show ?thesis by (simp add: pte_Suc Let_def)
  qed
  moreover have "unchanged_outside (tabs (Suc l) (ram s) pt \<union> {np}) (ram s) ?m2"
    by (rule unchanged_mono [OF unch]) simp
  moreover have "kmem_inv s2" "kend s2 = kend s" "free_pages s2 = free_pages s - {np}" "ram s2 = ?m2"
    using inv2 kend by (simp_all add: s2)
  moreover have "{np} \<subseteq> free_pages s" using a(1) by simp
  ultimately show "grown (Suc l) pt {np} s s2"
    unfolding grown_def \<open>ram s2 = ?m2\<close> using r(1) tb by (intro conjI allI)
  then show "table_ok (Suc l) s2 pt" by (rule grown_table_ok [OF ok])
  show "table_ok l s2 np"
    using inv2 em(1,2) kend unfolding table_ok_def s2 ram_upd_sel by simp
qed

section \<open>walk\<close>

lemma kalloc_none:
  assumes "kmem_inv s" and "kalloc s = (0, s1)"
  shows "s1 = s" and "free_pages s = {}"
  using kmem.alloc_card [OF assms] by auto

lemma walk_alloc:
  assumes "table_ok l s pt"
  obtains a s' N where "walk_levels l pt va True s = (a, s')" and "grown l pt N s s'"
    and "a \<noteq> 0 \<Longrightarrow> leaf l (ram s') pt va = Some a" and "a = 0 \<Longrightarrow> free_pages s' = {}"
  using assms
proof (induction l arbitrary: pt s thesis)
  case 0
  show ?case by (rule 0(1) [of "pt + 8 * PX 0 va" s "{}"]) (use 0(2) grown_refl kend_pos in
      \<open>auto simp: table_ok_def leaf_nz [of "kend s" 0 "ram s" pt va]\<close>)
next
  case (Suc l)
  let ?i = "px (Suc l) va"
  have wf: "wfpt (kend s) (Suc l) (ram s) pt" and inv: "kmem_inv s"
    using Suc.prems(2) by (simp_all only: table_ok_def)
  have pt: "page_ok (kend s) pt" by (rule wfpt_root [OF wf])
  have ld: "load_pte (pt + 8 * PX (Suc l) va) s = ent (ram s) pt ?i" by (rule load_pte_slot [OF pt])
  show ?case
  proof (cases "valid (ent (ram s) pt ?i)")
    case True
    let ?c = "PTE2PA (ent (ram s) pt ?i)"
    have "table_ok l s ?c" by (rule child_table_ok [OF Suc.prems(2) px_less True])
    then obtain a s' N where w: "walk_levels l ?c va True s = (a, s')" "grown l ?c N s s'"
      "a \<noteq> 0 \<Longrightarrow> leaf l (ram s') ?c va = Some a" "a = 0 \<Longrightarrow> free_pages s' = {}"
      by (rule Suc.IH [rotated]) blast
    have "walk_levels (Suc l) pt va True s = (a, s')" using w(1) True ld by (simp add: valid_def Let_def)
    then show ?thesis
      using grown_child [OF Suc.prems(2) px_less True w(2)] w(3,4) by (intro Suc.prems(1)) auto
  next
    case False
    obtain np s1 where k: "kalloc s = (np, s1)" by (cases "kalloc s")
    show ?thesis
    proof (cases "np = 0")
      case True
      with kalloc_none [OF inv] k False ld grown_refl [OF Suc.prems(2)] show ?thesis
        by (intro Suc.prems(1) [of 0 s "{}"]) (auto simp: valid_def Let_def)
    next
      case np: False
      define s2 where "s2 = store_pte (pt + 8 * of_nat ?i) (PA2PTE np OR PTE_V) (fill_page np 0 s1)"
      note h = hang_table [OF Suc.prems(2) px_less False k np, folded s2_def]
      obtain a s' N where w: "walk_levels l np va True s2 = (a, s')" "grown l np N s2 s'"
        "a \<noteq> 0 \<Longrightarrow> leaf l (ram s') np va = Some a" "a = 0 \<Longrightarrow> free_pages s' = {}"
        by (rule Suc.IH [OF _ h(5)]) blast
      note g = grown_child [OF h(2) px_less h(3), unfolded h(4), OF w(2)]
      have "walk_levels (Suc l) pt va True s = (a, s')"
        using w(1) False ld k np by (simp add: valid_def Let_def s2_def)
      moreover have "grown (Suc l) pt (insert np N) s s'"
      proof -
        have "unchanged_outside (tabs (Suc l) (ram s) pt \<union> insert np N) (ram s) (ram s')"
          by (rule unchanged_trans [of _ _ "ram s2"]; rule unchanged_mono)
            (use h(1) g(1) in \<open>auto simp: grown_def\<close>)
        with h(1) g(1) show ?thesis unfolding grown_def by auto
      qed
      ultimately show ?thesis using g(2) w(3,4) by (intro Suc.prems(1)) auto
    qed
  qed
qed

end
