(* ===== verification/Xv6_AddrSpace.thy ===== *)
theory Xv6_AddrSpace
  imports Xv6_PageTable
begin

text \<open>
  What kernel/vm.c does to an address space: the map from virtual addresses to page-table
  entries (\<open>lookup\<close>), the pages a user process sees and their bytes (\<open>ubyte\<close>). The invariant
  \<open>uspace\<close> says that the user pages are pages of the RAM, not free, not table pages and not
  shared between two virtual pages.
\<close>

section \<open>Lookups\<close>

definition tables :: "physmem \<Rightarrow> u64 \<Rightarrow> u64 set" where
  "tables s pt = tabs 2 (ram s) pt"

definition lookup :: "physmem \<Rightarrow> u64 \<Rightarrow> u64 \<Rightarrow> u64" where
  "lookup s pt va = pte 2 (ram s) pt va"

definition vpn :: "u64 \<Rightarrow> nat" where
  "vpn va = unat va div PGSIZE"

lemma three_digits:
  fixes v :: nat
  shows "512 * a + r0 = v \<Longrightarrow> 512 * b + r1 = a \<Longrightarrow> v = r0 + 512 * r1 + 262144 * b"
  by simp

lemma vpn_split:
  fixes v :: nat
  assumes "v < 2 ^ 26"
  shows "v = v mod 512 + 512 * (v div 512 mod 512) + 512 ^ 2 * (v div 512 ^ 2 mod 512)"
proof -
  have sq: "(512 :: nat) ^ 2 = 262144" by simp
  have d: "v div 512 ^ 2 mod 512 = v div 512 ^ 2" using assms by (simp add: less_mult_imp_div_less)
  have c: "v div 512 ^ 2 = v div 512 div 512" by (simp add: div_mult2_eq [symmetric])
  show ?thesis
    using three_digits [OF mult_div_mod_eq [of 512 v] mult_div_mod_eq [of 512 "v div 512"]]
    unfolding d unfolding c unfolding sq .
qed

lemma px_vpn: "px i w = vpn w div 512 ^ i mod 512"
  by (simp add: px_eq vpn_def power_add power_mult div_mult2_eq)

lemma vpn_eq_iff:
  assumes "va < MAXVA" and "va' < MAXVA"
  shows "same_page 2 va va' \<longleftrightarrow> vpn va = vpn va'"
proof
  have b: "vpn va < 2 ^ 26" "vpn va' < 2 ^ 26"
    using assms by (auto simp: vpn_def word_less_nat_alt)
  assume s: "same_page 2 va va'"
  have "vpn va div 512 ^ i mod 512 = vpn va' div 512 ^ i mod 512" if "i \<le> 2" for i
    using s that unfolding same_page_def px_vpn by blast
  from this [of 0] this [of 1] this [of 2] have
    "vpn va mod 512 = vpn va' mod 512" "vpn va div 512 mod 512 = vpn va' div 512 mod 512"
    "vpn va div 512 ^ 2 mod 512 = vpn va' div 512 ^ 2 mod 512" by simp_all
  then have "vpn va = vpn va' mod 512 + 512 * (vpn va' div 512 mod 512) + 512 ^ 2 * (vpn va' div 512 ^ 2 mod 512)"
    by (subst vpn_split [OF b(1)]) (simp only:)
  also have "\<dots> = vpn va'" by (rule vpn_split [OF b(2), symmetric])
  finally show "vpn va = vpn va'" .
next
  assume "vpn va = vpn va'"
  then show "same_page 2 va va'" by (simp add: same_page_def px_vpn)
qed

lemma lookup_vpn:
  assumes "va < MAXVA" and "va' < MAXVA" and "vpn va = vpn va'"
  shows "lookup s pt va = lookup s pt va'"
  using vpn_eq_iff [OF assms(1,2)] assms(3) leaf_same_page [of 2 va va']
  by (simp add: lookup_def pte_def)

lemma vpn_PGROUNDDOWN [simp]: "vpn (PGROUNDDOWN va) = vpn va"
  by (simp add: vpn_def unat_PGROUNDDOWN)

lemma PGROUNDDOWN_MAXVA_iff: "PGROUNDDOWN va < MAXVA \<longleftrightarrow> va < MAXVA"
proof -
  have "PGSIZE * (n div PGSIZE) < 0x4000000000 \<longleftrightarrow> n < 0x4000000000" for n :: nat
    using div_less_iff_less_mult [of PGSIZE n 67108864] by (simp add: mult.commute)
  then show ?thesis by (simp add: word_less_nat_alt unat_PGROUNDDOWN)
qed

lemma walk_find:
  assumes "wfpt k l (ram s) pt"
  shows "walk_levels l pt va False s = (case leaf l (ram s) pt va of None \<Rightarrow> 0 | Some a \<Rightarrow> a, s)"
  using assms
proof (induction l arbitrary: pt)
  case (Suc l)
  have pt: "page_ok k pt" by (rule wfpt_root [OF Suc.prems])
  show ?case
  proof (cases "valid (ent (ram s) pt (px (Suc l) va))")
    case True
    with Suc.IH [OF ent_child(1) [OF Suc.prems px_less True]] load_pte_slot [OF pt]
    show ?thesis by (simp add: valid_def Let_def)
  next
    case False
    with load_pte_slot [OF pt] show ?thesis by (simp add: valid_def Let_def)
  qed
qed simp

lemma table_ok_wf: "table_ok l s pt \<Longrightarrow> wfpt (kend s) l (ram s) pt" "table_ok l s pt \<Longrightarrow> kmem_inv s"
  "table_ok l s pt \<Longrightarrow> tabs l (ram s) pt \<inter> free_pages s = {}"
  by (simp_all add: table_ok_def)

lemma walk_lookup:
  assumes "table_ok 2 s pt" and "va < MAXVA"
  obtains a where "walk pt va False s = Ret (a, s)" and "a = 0 \<Longrightarrow> lookup s pt va = 0"
    and "a \<noteq> 0 \<Longrightarrow> leaf 2 (ram s) pt va = Some a \<and> load_pte a s = lookup s pt va"
proof -
  have w: "walk pt va False s = Ret (case leaf 2 (ram s) pt va of None \<Rightarrow> 0 | Some a \<Rightarrow> a, s)"
    using walk_find [OF table_ok_wf(1) [OF assms(1)]] assms(2) by (simp add: walk_def)
  show ?thesis
  proof (cases "leaf 2 (ram s) pt va")
    case None
    with w show ?thesis by (intro that [of 0]) (auto simp: lookup_def pte_def)
  next
    case (Some a)
    then have "a \<noteq> 0" using leaf_nz [OF table_ok_wf(1) [OF assms(1)] Some] kend_pos table_ok_wf(2) [OF assms(1)] by blast
    with w Some show ?thesis by (intro that [of a]) (auto simp: lookup_def pte_def load_pte_def)
  qed
qed

section \<open>User pages\<close>

definition is_user :: "u64 \<Rightarrow> bool" where
  "is_user e \<longleftrightarrow> valid e \<and> e AND PTE_U \<noteq> 0"

definition mapped :: "physmem \<Rightarrow> u64 \<Rightarrow> u64 \<Rightarrow> bool" where
  "mapped s pt va \<longleftrightarrow> va < MAXVA \<and> is_user (lookup s pt va)"

definition frame :: "physmem \<Rightarrow> u64 \<Rightarrow> u64 \<Rightarrow> u64" where
  "frame s pt va = PTE2PA (lookup s pt va)"

definition ubyte :: "physmem \<Rightarrow> u64 \<Rightarrow> u64 \<Rightarrow> u8" where
  "ubyte s pt va = ram s (unat (frame s pt va) + unat va mod PGSIZE)"

definition uspace :: "physmem \<Rightarrow> u64 \<Rightarrow> bool" where
  "uspace s pt \<longleftrightarrow> table_ok 2 s pt \<and>
     (\<forall>va. mapped s pt va \<longrightarrow> page_ok (kend s) (frame s pt va) \<and> frame s pt va \<notin> tables s pt \<and>
        frame s pt va \<notin> free_pages s) \<and>
     (\<forall>va va'. mapped s pt va \<longrightarrow> mapped s pt va' \<longrightarrow> frame s pt va = frame s pt va' \<longrightarrow> vpn va = vpn va')"

lemma uspace_table: "uspace s pt \<Longrightarrow> table_ok 2 s pt"
  by (simp add: uspace_def)

lemma frame_ok:
  assumes "uspace s pt" and "mapped s pt va"
  shows "page_ok (kend s) (frame s pt va)" "frame s pt va \<notin> tables s pt" "frame s pt va \<notin> free_pages s"
    "frame s pt va \<noteq> 0"
proof -
  show p: "page_ok (kend s) (frame s pt va)" "frame s pt va \<notin> tables s pt" "frame s pt va \<notin> free_pages s"
    using assms by (auto simp: uspace_def)
  show "frame s pt va \<noteq> 0"
    using page_ok_nz [OF kend_pos p(1)] table_ok_wf(2) [OF uspace_table [OF assms(1)]] by blast
qed

text \<open>walkaddr() returns the page of a mapped address and 0 for every other address.\<close>

lemma walkaddr_eq:
  assumes "uspace s pt"
  shows "walkaddr pt va s = Ret (if mapped s pt va then frame s pt va else 0)"
proof (cases "va < MAXVA")
  case True
  obtain a where a: "walk pt va False s = Ret (a, s)" "a = 0 \<Longrightarrow> lookup s pt va = 0"
    "a \<noteq> 0 \<Longrightarrow> leaf 2 (ram s) pt va = Some a \<and> load_pte a s = lookup s pt va"
    by (rule walk_lookup [OF uspace_table [OF assms] True]) blast
  show ?thesis
  proof (cases "a = 0")
    case True
    with a(1,2) show ?thesis by (simp add: walkaddr_def mapped_def is_user_def)
  next
    case False
    with a(1,3) \<open>va < MAXVA\<close> show ?thesis
      by (auto simp: walkaddr_def mapped_def is_user_def valid_def frame_def)
  qed
qed (auto simp: walkaddr_def mapped_def)

lemma mapped_page:
  assumes "va < MAXVA" and "va' < MAXVA" and "vpn va = vpn va'"
  shows "mapped s pt va = mapped s pt va'" "frame s pt va = frame s pt va'"
  using lookup_vpn [OF assms] assms(1,2) by (simp_all add: mapped_def frame_def)

lemma mapped_vpn:
  assumes "mapped s pt va" and "vpn a = vpn va"
  shows "mapped s pt a"
proof -
  have va: "va < MAXVA" using assms(1) by (simp add: mapped_def)
  then have "vpn a < 67108864" unfolding assms(2) by (auto simp: vpn_def word_less_nat_alt)
  then have "a < MAXVA" by (auto simp: vpn_def word_less_nat_alt)
  with mapped_page(1) [OF _ va assms(2)] assms(1) show ?thesis by blast
qed

lemma outside_page_same_on:
  assumes "f \<notin> S" and "aligned f" and "\<And>p. p \<in> S \<Longrightarrow> page_ok k p"
    and "\<And>a. a \<notin> page_range f \<Longrightarrow> m' a = m a"
  shows "same_on S m m'"
proof (rule unchanged_same_on [of "{f}"])
  show "unchanged_outside {f} m m'" using assms(4) by (simp add: unchanged_outside_def)
  show "S \<inter> {f} = {}" using assms(1) by simp
  show "aligned p" if "p \<in> S \<union> {f}" for p
    using that assms(2) page_ok_aligned [OF assms(3)] by (cases "p = f") auto
qed

text \<open>Writing into a user page changes that page's bytes and nothing else of the address space.\<close>

lemma write_frame:
  assumes u: "uspace s pt" and m: "mapped s pt va"
    and out: "\<And>a. a \<notin> page_range (frame s pt va) \<Longrightarrow> m' a = ram s a"
  shows "uspace (ram_upd m' s) pt" and "lookup (ram_upd m' s) pt = lookup s pt"
    and "free_pages (ram_upd m' s) = free_pages s" and "tables (ram_upd m' s) pt = tables s pt"
    and "\<And>va'. mapped s pt va' \<Longrightarrow> vpn va' \<noteq> vpn va \<Longrightarrow> ubyte (ram_upd m' s) pt va' = ubyte s pt va'"
proof -
  note t = uspace_table [OF u] and f = frame_ok [OF u m]
  note al = page_ok_aligned [OF f(1)]
  have tab: "same_on (tabs 2 (ram s) pt) (ram s) m'"
    by (rule outside_page_same_on [OF f(2) [unfolded tables_def] al wfpt_tabs [OF table_ok_wf(1) [OF t]] out])
  have fr: "same_on (free_pages s) (ram s) m'"
    by (rule outside_page_same_on [OF f(3) al free_pages_ok [OF table_ok_wf(2) [OF t]] out])
  note k = kmem_frame [OF table_ok_wf(2) [OF t] fr]
  show fp: "free_pages (ram_upd m' s) = free_pages s" by (rule k(2))
  show tb: "tables (ram_upd m' s) pt = tables s pt" by (simp add: tables_def tabs_same [OF tab])
  show lk: "lookup (ram_upd m' s) pt = lookup s pt"
    by (rule ext) (simp add: lookup_def pte_same [OF table_ok_wf(1) [OF t] tab])
  have mp: "mapped (ram_upd m' s) pt = mapped s pt" "frame (ram_upd m' s) pt = frame s pt"
    by (simp_all add: fun_eq_iff mapped_def frame_def lk)
  have "wfpt (kend s) 2 m' pt" using wfpt_same [OF tab] table_ok_wf(1) [OF t] by simp
  then have "table_ok 2 (ram_upd m' s) pt"
    using k table_ok_wf(3) [OF t] tabs_same [OF tab] unfolding table_ok_def by simp
  moreover have "\<forall>va. mapped s pt va \<longrightarrow> page_ok (kend s) (frame s pt va) \<and> frame s pt va \<notin> tables s pt \<and>
      frame s pt va \<notin> free_pages s"
    "\<forall>va va'. mapped s pt va \<longrightarrow> mapped s pt va' \<longrightarrow> frame s pt va = frame s pt va' \<longrightarrow> vpn va = vpn va'"
    using u unfolding uspace_def by blast+
  ultimately show "uspace (ram_upd m' s) pt"
    unfolding uspace_def mp tb fp ram_upd_sel by (intro conjI)
  show "ubyte (ram_upd m' s) pt va' = ubyte s pt va'" if "mapped s pt va'" "vpn va' \<noteq> vpn va" for va'
  proof -
    have "frame s pt va' \<noteq> frame s pt va" using u m that unfolding uspace_def by blast
    then have "page_range (frame s pt va') \<inter> page_range (frame s pt va) = {}"
      by (intro page_disjoint al page_ok_aligned [OF frame_ok(1) [OF u that(1)]])
    moreover have "unat (frame s pt va') + unat va' mod PGSIZE \<in> page_range (frame s pt va')"
      by (simp add: page_range_def)
    ultimately have "m' (unat (frame s pt va') + unat va' mod PGSIZE) = ram s (unat (frame s pt va') + unat va' mod PGSIZE)"
      by (intro out) blast
    then show ?thesis by (simp add: ubyte_def mp)
  qed
qed

section \<open>Copying to and from user memory\<close>

definition urange :: "u64 \<Rightarrow> nat \<Rightarrow> u64 set" where
  "urange va len = {a. unat va \<le> unat a \<and> unat a < unat va + len}"

definition wrote :: "physmem \<Rightarrow> physmem \<Rightarrow> u64 \<Rightarrow> u64 \<Rightarrow> bytes \<Rightarrow> nat \<Rightarrow> nat \<Rightarrow> bool" where
  "wrote s s' pt va src off len \<longleftrightarrow> uspace s' pt \<and> lookup s' pt = lookup s pt \<and> kend s' = kend s \<and>
     free_pages s' = free_pages s \<and>
     (\<forall>a. mapped s pt a \<longrightarrow> ubyte s' pt a = (if a \<in> urange va len then src (off + (unat a - unat va)) else ubyte s pt a))"

lemma wrote_nothing: "uspace s pt \<Longrightarrow> wrote s s pt va src off 0"
  by (auto simp: wrote_def urange_def)

lemma wrote_mapped: "wrote s s' pt va src off len \<Longrightarrow> mapped s' pt = mapped s pt"
  by (simp add: wrote_def fun_eq_iff mapped_def)

lemma wrote_trans:
  assumes a: "wrote s s1 pt va src off n" and b: "wrote s1 s2 pt va' src (off + n) k" and va': "unat va' = unat va + n"
  shows "wrote s s2 pt va src off (n + k)"
proof -
  have "ubyte s2 pt x = (if x \<in> urange va (n + k) then src (off + (unat x - unat va)) else ubyte s pt x)"
    if "mapped s pt x" for x
  proof (cases "x \<in> urange va' k")
    case True
    then have "ubyte s2 pt x = src (off + n + (unat x - unat va'))" "x \<in> urange va (n + k)"
      "off + n + (unat x - unat va') = off + (unat x - unat va)"
      using b that wrote_mapped [OF a] va' by (auto simp: wrote_def urange_def)
    then show ?thesis by simp
  next
    case False
    have "ubyte s2 pt x = ubyte s1 pt x" using False b that wrote_mapped [OF a] by (simp add: wrote_def)
    also have "\<dots> = (if x \<in> urange va n then src (off + (unat x - unat va)) else ubyte s pt x)"
      using a that by (simp add: wrote_def)
    also have "x \<in> urange va n \<longleftrightarrow> x \<in> urange va (n + k)" using False va' by (auto simp: urange_def)
    finally show ?thesis .
  qed
  with a b show ?thesis by (simp add: wrote_def)
qed

lemma frame_addr:
  assumes "uspace s pt" and "mapped s pt va"
  shows "unat (frame s pt va + (va - PGROUNDDOWN va)) = unat (frame s pt va) + unat va mod PGSIZE"
proof -
  have "unat (frame s pt va) < 0x88000000"
    using frame_ok(1) [OF assms] by (simp add: page_ok_def word_less_nat_alt)
  moreover have "unat va mod PGSIZE < PGSIZE" by simp
  moreover have "va - PGROUNDDOWN va = of_nat (unat va mod PGSIZE)"
    by (simp add: unat_page_offset [symmetric])
  ultimately show ?thesis
    using unat_add_small [of "frame s pt va" "unat va mod PGSIZE"] by simp
qed

lemma same_page_bounds:
  assumes "vpn a = vpn va"
  shows "unat a + unat va mod PGSIZE = unat va + unat a mod PGSIZE"
proof -
  have "unat a = PGSIZE * vpn a + unat a mod PGSIZE" "unat va = PGSIZE * vpn va + unat va mod PGSIZE"
    by (simp_all add: vpn_def)
  with assms show ?thesis by linarith
qed

lemma urange_one_page:
  assumes "n \<le> PGSIZE - unat va mod PGSIZE" and "a \<in> urange va n"
  shows "vpn a = vpn va"
proof -
  have "unat va = PGSIZE * vpn va + unat va mod PGSIZE" by (simp add: vpn_def)
  then have "PGSIZE * vpn va \<le> unat a \<and> unat a < PGSIZE * vpn va + PGSIZE"
    using assms by (auto simp: urange_def)
  then show ?thesis unfolding vpn_def by (intro div_nat_eqI) (auto simp: vpn_def mult.commute)
qed

text \<open>A copy into one page of the address space.\<close>

lemma write_page:
  assumes u: "uspace s pt" and m: "mapped s pt va" and n: "n \<le> PGSIZE - unat va mod PGSIZE"
  shows "wrote s (ram_upd (copy_range (ram s) (unat (frame s pt va + (va - PGROUNDDOWN va))) src off n) s) pt va src off n"
    (is "wrote s ?s' pt va src off n")
proof -
  define m' where "m' = copy_range (ram s) (unat (frame s pt va + (va - PGROUNDDOWN va))) src off n"
  note fa = frame_addr [OF u m]
  have out: "m' a = ram s a" if "a \<notin> page_range (frame s pt va)" for a
    using that n by (auto simp: m'_def copy_range_def fa page_range_def)
  have w: "uspace (ram_upd m' s) pt" "lookup (ram_upd m' s) pt = lookup s pt" "free_pages (ram_upd m' s) = free_pages s"
    by (rule write_frame [OF u m], erule out)+
  have w5: "ubyte (ram_upd m' s) pt a = ubyte s pt a" if "mapped s pt a" "vpn a \<noteq> vpn va" for a
    by (rule write_frame(5) [OF u m _ that]) (erule out)
  have "ubyte (ram_upd m' s) pt a = (if a \<in> urange va n then src (off + (unat a - unat va)) else ubyte s pt a)"
    if a: "mapped s pt a" for a
  proof (cases "vpn a = vpn va")
    case True
    have lt: "a < MAXVA" "va < MAXVA" using a m by (auto simp: mapped_def)
    have fr: "frame (ram_upd m' s) pt a = frame s pt va"
      using w(2) mapped_page(2) [OF lt True] by (simp add: frame_def)
    note e = same_page_bounds [OF True]
    have "ubyte (ram_upd m' s) pt a = m' (unat (frame s pt va) + unat a mod PGSIZE)"
      by (simp add: ubyte_def fr)
    also have "\<dots> = (if unat va mod PGSIZE \<le> unat a mod PGSIZE \<and> unat a mod PGSIZE < unat va mod PGSIZE + n
        then src (off + (unat a mod PGSIZE - unat va mod PGSIZE)) else ram s (unat (frame s pt va) + unat a mod PGSIZE))"
      by (simp add: m'_def copy_range_def fa)
    also have "unat va mod PGSIZE \<le> unat a mod PGSIZE \<longleftrightarrow> unat va \<le> unat a" using e by linarith
    also have "unat a mod PGSIZE < unat va mod PGSIZE + n \<longleftrightarrow> unat a < unat va + n" using e by linarith
    also have "unat a mod PGSIZE - unat va mod PGSIZE = unat a - unat va" using e by linarith
    also have "ram s (unat (frame s pt va) + unat a mod PGSIZE) = ubyte s pt a"
      using mapped_page(2) [OF lt True] by (simp add: ubyte_def)
    finally show ?thesis by (simp add: urange_def)
  next
    case False
    then have "a \<notin> urange va n" using urange_one_page [OF n] by blast
    with w5 [OF a False] show ?thesis by simp
  qed
  with w show ?thesis by (simp add: wrote_def m'_def)
qed

text \<open>The part of a range in the first page, and the address after it.\<close>

lemma first_part:
  assumes "va < MAXVA" and "0 < len"
    and n: "n = (if PGSIZE - unat va mod PGSIZE > len then len else PGSIZE - unat va mod PGSIZE)"
  shows "0 < n" and "n \<le> len" and "n \<le> PGSIZE - unat va mod PGSIZE"
    and "n < len \<Longrightarrow> unat (PGROUNDDOWN va + 4096) = unat va + n"
    and "unat (PGROUNDDOWN va + 4096) \<le> 0x4000000000"
proof -
  have m: "unat va mod PGSIZE < PGSIZE" by simp
  have lt: "unat va < 0x4000000000" using assms(1) by (simp add: word_less_nat_alt)
  show "0 < n" "n \<le> len" "n \<le> PGSIZE - unat va mod PGSIZE" using m n assms(2) by auto
  have d: "unat (PGROUNDDOWN va) = PGSIZE * vpn va" by (simp add: unat_PGROUNDDOWN vpn_def)
  have e: "unat va = PGSIZE * vpn va + unat va mod PGSIZE" by (simp add: vpn_def)
  have "unat (PGROUNDDOWN va + 4096) = unat (PGROUNDDOWN va) + 4096"
    using d e lt unat_add_small [of "PGROUNDDOWN va" 4096] by simp
  then have a: "unat (PGROUNDDOWN va + 4096) = PGSIZE * vpn va + PGSIZE" using d by simp
  show "unat (PGROUNDDOWN va + 4096) = unat va + n" if "n < len"
  proof -
    have "n = PGSIZE - unat va mod PGSIZE" using n that by (auto split: if_splits)
    with a e m show ?thesis by linarith
  qed
  have "vpn va < 67108864" using lt by (auto simp: vpn_def)
  with a show "unat (PGROUNDDOWN va + 4096) \<le> 0x4000000000" by simp
qed


lemma walkaddr_page:
  assumes "uspace s pt"
  shows "walkaddr pt (PGROUNDDOWN va) s = Ret (if mapped s pt va then frame s pt va else 0)"
proof (cases "va < MAXVA")
  case True
  then show ?thesis
    using walkaddr_eq [OF assms] mapped_page [of "PGROUNDDOWN va" va s pt] by (simp add: PGROUNDDOWN_MAXVA_iff)
next
  case False
  then show ?thesis
    using walkaddr_eq [OF assms, of "PGROUNDDOWN va"] by (simp add: PGROUNDDOWN_MAXVA_iff mapped_def)
qed

lemma urange_split:
  assumes "n \<le> len" and "n < len \<Longrightarrow> unat va' = unat va + n"
  shows "n < len \<Longrightarrow> urange va' (len - n) \<subseteq> urange va len"
  using assms by (auto simp: urange_def)

text \<open>
  copyout() stores the bytes when the range is mapped; otherwise it stores those of the pages before. The
  range may lie beyond MAXVA, and beyond the last address.
\<close>

lemma copyout_wrote:
  assumes "uspace s pt"
  shows "\<exists>r s' n. copyout pt va src off len s = Ret (r, s') \<and> wrote s s' pt va src off n \<and>
    (if \<forall>a \<in> urange va len. mapped s pt a then r = 0 \<and> n = len else r = -1 \<and> n < len)"
  using assms
proof (induction pt va src off len s rule: copyout.induct)
  case (1 pt va src off len s)
  show ?case
  proof (cases "0 < len")
    case False
    with 1(2) show ?thesis
      by (intro exI [of _ 0] exI [of _ s])
        (auto simp: copyout.simps [of pt va src off 0] urange_def wrote_nothing)
  next
    case True
    define n where "n = (if PGSIZE - unat va mod PGSIZE > len then len else PGSIZE - unat va mod PGSIZE)"
    note wa = walkaddr_page [OF 1(2), of va]
    show ?thesis
    proof (cases "mapped s pt va")
      case False
      then have "\<not> (\<forall>a \<in> urange va len. mapped s pt a)" using True by (auto simp: urange_def)
      with False True wa wrote_nothing [OF 1(2)] show ?thesis
        by (intro exI [of _ "-1"] exI [of _ s] exI [of _ 0])
          (simp add: copyout.simps [of pt va src off len])
    next
      case m: True
      then have lt: "va < MAXVA" by (simp add: mapped_def)
      note p = first_part [OF lt True n_def]
      define s1 where "s1 = ram_upd (copy_range (ram s) (unat (frame s pt va + (va - PGROUNDDOWN va))) src off n) s"
      have s1: "wrote s s1 pt va src off n" unfolding s1_def by (rule write_page [OF 1(2) m p(3)])
      have nz: "frame s pt va \<noteq> 0" by (rule frame_ok(4) [OF 1(2) m])
      have ev: "copyout pt va src off len s = copyout pt (PGROUNDDOWN va + 4096) src (off + n) (len - n) s1"
        using True m nz wa unfolding copyout.simps [of pt va src off len s] Let_def s1_def ram_upd_def n_def
        by (simp add: unat_page_offset)
      have part: "mapped s pt a" if "a \<in> urange va n" for a
        using mapped_vpn [OF m] urange_one_page [OF p(3) that] by blast
      show ?thesis
      proof (cases "n < len")
        case False
        then have "len = n" using p(2) by simp
        with ev s1 part wrote_def show ?thesis
          by (intro exI [of _ 0] exI [of _ s1] exI [of _ n]) (simp add: copyout.simps [of pt _ src _ 0])
      next
        case l: True
        note va' = p(4) [OF l]
        have "uspace s1 pt" using s1 by (simp add: wrote_def)
        then obtain r s' k where ih: "copyout pt (PGROUNDDOWN va + 4096) src (off + n) (len - n) s1 = Ret (r, s')"
          "wrote s1 s' pt (PGROUNDDOWN va + 4096) src (off + n) k"
          "if \<forall>a \<in> urange (PGROUNDDOWN va + 4096) (len - n). mapped s1 pt a then r = 0 \<and> k = len - n else r = -1 \<and> k < len - n"
          using "1.IH" [OF True refl wa _ refl n_def [folded unat_page_offset]] m nz
          unfolding s1_def ram_upd_def n_def unat_page_offset by auto
        have "(\<forall>a \<in> urange va len. mapped s pt a) \<longleftrightarrow> (\<forall>a \<in> urange (PGROUNDDOWN va + 4096) (len - n). mapped s pt a)"
          using part va' l by (auto simp: urange_def) (metis not_less)
        with ih wrote_trans [OF s1 ih(2) va'] ev l show ?thesis
          unfolding wrote_mapped [OF s1]
          by (intro exI [of _ r] exI [of _ s'] exI [of _ "n + k"]) (auto split: if_splits)
      qed
    qed
  qed
qed


text \<open>What copyin() leaves in the kernel's buffer.\<close>

definition fetched :: "physmem \<Rightarrow> u64 \<Rightarrow> bytes \<Rightarrow> nat \<Rightarrow> u64 \<Rightarrow> nat \<Rightarrow> bytes" where
  "fetched s pt dst off va n = (\<lambda>a. if off \<le> a \<and> a < off + n then ubyte s pt (va + of_nat (a - off)) else dst a)"

lemma fetched_append:
  assumes "unat va' = unat va + n"
  shows "fetched s pt (fetched s pt dst off va n) (off + n) va' k = fetched s pt dst off va (n + k)"
proof -
  have "va' + of_nat (a - (off + n)) = va + of_nat (a - off)" if "off + n \<le> a" for a
  proof -
    have "va' = of_nat (unat va + n)" by (simp add: assms [symmetric])
    then have "va' = va + of_nat n" by simp
    then show ?thesis using that by (simp add: of_nat_diff)
  qed
  then show ?thesis by (auto simp: fetched_def fun_eq_iff simp del: of_nat_diff)
qed

lemma fetch_page:
  assumes u: "uspace s pt" and m: "mapped s pt va" and n: "n \<le> PGSIZE - unat va mod PGSIZE"
  shows "copy_range dst off (ram s) (unat (frame s pt va + (va - PGROUNDDOWN va))) n = fetched s pt dst off va n"
proof -
  have "ram s (unat (frame s pt va) + unat va mod PGSIZE + i) = ubyte s pt (va + of_nat i)" if "i < n" for i
  proof -
    have lt: "va < MAXVA" using m by (simp add: mapped_def)
    have l: "unat va mod PGSIZE + i < PGSIZE" using n that by linarith
    have e: "unat va = PGSIZE * vpn va + unat va mod PGSIZE" by (simp add: vpn_def)
    have "vpn va < 67108864" using lt by (auto simp: vpn_def word_less_nat_alt)
    with e l have b: "unat va + i < 0x4000000000" by linarith
    then have a: "unat (va + of_nat i) = unat va + i" by (intro unat_add_small) simp
    have "(va + of_nat i) \<in> urange va n" using that a by (simp add: urange_def)
    then have v: "vpn (va + of_nat i) = vpn va" by (rule urange_one_page [OF n])
    have "va + of_nat i < MAXVA" using a b by (simp add: word_less_nat_alt)
    then have "frame s pt (va + of_nat i) = frame s pt va" by (rule mapped_page(2) [OF _ lt v])
    moreover have "unat (va + of_nat i) mod PGSIZE = unat va mod PGSIZE + i"
      using same_page_bounds [OF v] a by linarith
    ultimately show ?thesis by (simp add: ubyte_def add.assoc)
  qed
  note key = this
  show ?thesis
  proof (rule ext)
    fix x
    show "copy_range dst off (ram s) (unat (frame s pt va + (va - PGROUNDDOWN va))) n x = fetched s pt dst off va n x"
    proof (cases "off \<le> x \<and> x < off + n")
      case True
      then have "x - off < n" by auto
      from key [OF this] True show ?thesis
        by (simp only: copy_range_def fetched_def frame_addr [OF u m] if_True simp_thms)
    next
      case False
      then show ?thesis by (simp only: copy_range_def fetched_def if_False)
    qed
  qed
qed

lemma copyin_fetched:
  assumes "uspace s pt"
  shows "\<exists>r n. copyin pt dst off va len s = Ret (r, fetched s pt dst off va n) \<and>
    (if \<forall>a \<in> urange va len. mapped s pt a then r = 0 \<and> n = len else r = -1 \<and> n < len)"
  using assms
proof (induction pt dst off va len s rule: copyin.induct)
  case (1 pt dst off va len s)
  show ?case
  proof (cases "0 < len")
    case False
    then show ?thesis
      by (intro exI [of _ 0]) (auto simp: copyin.simps [of pt dst off va 0 s] urange_def fetched_def fun_eq_iff)
  next
    case True
    define n where "n = (if PGSIZE - unat va mod PGSIZE > len then len else PGSIZE - unat va mod PGSIZE)"
    note wa = walkaddr_page [OF 1(2), of va]
    show ?thesis
    proof (cases "mapped s pt va")
      case False
      then have "\<not> (\<forall>a \<in> urange va len. mapped s pt a)" using True by (auto simp: urange_def)
      with False True wa show ?thesis
        by (intro exI [of _ "-1"] exI [of _ 0])
          (auto simp: copyin.simps [of pt dst off va len s] fetched_def fun_eq_iff)
    next
      case m: True
      then have lt: "va < MAXVA" by (simp add: mapped_def)
      note p = first_part [OF lt True n_def]
      have nz: "frame s pt va \<noteq> 0" by (rule frame_ok(4) [OF 1(2) m])
      have ev: "copyin pt dst off va len s =
          copyin pt (fetched s pt dst off va n) (off + n) (PGROUNDDOWN va + 4096) (len - n) s"
        unfolding fetch_page [OF 1(2) m p(3), symmetric]
        using True m nz wa unfolding copyin.simps [of pt dst off va len s] Let_def n_def
        by (simp add: unat_page_offset)
      have part: "mapped s pt a" if "a \<in> urange va n" for a
        using mapped_vpn [OF m] urange_one_page [OF p(3) that] by blast
      show ?thesis
      proof (cases "n < len")
        case False
        then have "len = n" using p(2) by simp
        with ev part show ?thesis
          by (intro exI [of _ 0] exI [of _ n]) (simp add: copyin.simps [of pt _ _ _ 0])
      next
        case l: True
        note va' = p(4) [OF l]
        obtain r k where ih: "copyin pt (fetched s pt dst off va n) (off + n) (PGROUNDDOWN va + 4096) (len - n) s =
            Ret (r, fetched s pt (fetched s pt dst off va n) (off + n) (PGROUNDDOWN va + 4096) k)"
          "if \<forall>a \<in> urange (PGROUNDDOWN va + 4096) (len - n). mapped s pt a then r = 0 \<and> k = len - n else r = -1 \<and> k < len - n"
          using "1.IH" [OF True refl wa _ refl n_def [folded unat_page_offset]] m nz 1(2)
            fetch_page [OF 1(2) m p(3), of dst off]
          unfolding n_def unat_page_offset by auto
        have "(\<forall>a \<in> urange va len. mapped s pt a) \<longleftrightarrow> (\<forall>a \<in> urange (PGROUNDDOWN va + 4096) (len - n). mapped s pt a)"
          using part va' l by (auto simp: urange_def) (metis not_less)
        with ih ev l show ?thesis
          unfolding fetched_append [OF va']
          by (intro exI [of _ r] exI [of _ "n + k"]) (auto split: if_splits)
      qed
    qed
  qed
qed


section \<open>A small address space\<close>

text \<open>One user page, at address 0, for the examples below: three tables and the page itself.\<close>

definition demo_ram :: bytes where
  "demo_ram = store64 (store64 (store64 (\<lambda>_. 0) 0x80001000 0x20000801) 0x80002000 0x20000C01)
     0x80003000 0x20001017"

definition demo_mem :: physmem where
  "demo_mem = \<lparr>ram = demo_ram, freelist = 0, kend = 0x80001000\<rparr>"

lemma demo_ent:
  "i < 512 \<Longrightarrow> ent demo_ram 0x80001000 i = (if i = 0 then 0x20000801 else 0)"
  "i < 512 \<Longrightarrow> ent demo_ram 0x80002000 i = (if i = 0 then 0x20000C01 else 0)"
  "i < 512 \<Longrightarrow> ent demo_ram 0x80003000 i = (if i = 0 then 0x20001017 else 0)"
  by (auto simp: ent_def demo_ram_def load64_store64_other load64_zero)

lemma demo_valid: "valid 0x20000801" "valid 0x20000C01" "PTE2PA 0x20000801 = 0x80002000" "PTE2PA 0x20000C01 = 0x80003000"
  "PTE2PA 0x20001017 = 0x80004000" "is_user 0x20001017"
  by (simp_all add: valid_def PTE2PA_def is_user_def)

lemma demo_slots:
  "{i. i < 512 \<and> valid (ent demo_ram 0x80002000 i)} = {0}"
  "{i. i < 512 \<and> valid (ent demo_ram 0x80001000 i)} = {0}"
  by (auto simp: demo_ent demo_valid split: if_splits)

lemma demo_tabs:
  "tabs (Suc 0) demo_ram 0x80002000 = {0x80002000, 0x80003000}"
  "tabs 2 demo_ram 0x80001000 = {0x80001000, 0x80002000, 0x80003000}"
proof -
  show one: "tabs (Suc 0) demo_ram 0x80002000 = {0x80002000, 0x80003000}"
    using demo_ent(2) [of 0] demo_valid(4) by (simp add: demo_slots)
  have "tabs (Suc (Suc 0)) demo_ram 0x80001000 = insert 0x80001000 (tabs (Suc 0) demo_ram 0x80002000)"
    unfolding tabs.simps(2) [of "Suc 0"] demo_slots
    using demo_ent(1) [of 0] demo_valid(3) by (simp del: tabs.simps)
  then show "tabs 2 demo_ram 0x80001000 = {0x80001000, 0x80002000, 0x80003000}"
    unfolding one numeral_2_eq_2 .
qed

lemma demo_wfpt: "wfpt 0x80001000 2 demo_ram 0x80001000"
proof -
  have ok: "page_ok 0x80001000 0x80001000" "page_ok 0x80001000 0x80002000" "page_ok 0x80001000 0x80003000"
    by (simp_all add: page_ok_def aligned_def)
  have one: "wfpt 0x80001000 (Suc 0) demo_ram 0x80002000"
    using ok(2,3) by (auto simp: demo_ent(2) demo_valid split: if_splits)
  have "wfpt 0x80001000 (Suc (Suc 0)) demo_ram 0x80001000"
    unfolding wfpt.simps(2) [of _ "Suc 0"] using ok(1) demo_tabs(1) one
    by (auto simp: demo_ent(1) demo_valid split: if_splits simp del: wfpt.simps tabs.simps)
  then show ?thesis by (simp only: numeral_2_eq_2)
qed

lemma demo_lookup:
  "lookup demo_mem 0x80001000 va = (if px 2 va = 0 \<and> px 1 va = 0 \<and> px 0 va = 0 then 0x20001017 else 0)"
proof -
  have l0: "pte 0 demo_ram 0x80003000 va = (if px 0 va = 0 then 0x20001017 else 0)"
  proof -
    have "unat (0x80003000 + 8 * PX 0 va) = 0x80003000 + 8 * px 0 va"
      using unat_pte_slot [where k = "0x80001000" and pt = "0x80003000" and l = 0 and va = va] by (simp add: page_ok_def aligned_def)
    then show ?thesis using demo_ent(3) [of "px 0 va"] by (simp add: pte_def ent_def)
  qed
  have l1: "pte (Suc 0) demo_ram 0x80002000 va = (if px 1 va = 0 \<and> px 0 va = 0 then 0x20001017 else 0)"
    unfolding pte_Suc Let_def demo_ent(2) [OF px_less] using l0 by (simp add: demo_valid)
  have "pte (Suc (Suc 0)) demo_ram 0x80001000 va =
      (if px 2 va = 0 \<and> px 1 va = 0 \<and> px 0 va = 0 then 0x20001017 else 0)"
    unfolding pte_Suc [of "Suc 0"] Let_def demo_ent(1) [OF px_less] using l1
    by (simp add: demo_valid numeral_2_eq_2)
  then show ?thesis by (simp add: lookup_def demo_mem_def numeral_2_eq_2)
qed

lemma demo_mapped: "mapped demo_mem 0x80001000 va \<longleftrightarrow> vpn va = 0"
proof
  assume "mapped demo_mem 0x80001000 va"
  then have lt: "va < MAXVA" and p: "px 2 va = 0" "px 1 va = 0" "px 0 va = 0"
    by (auto simp: mapped_def demo_lookup is_user_def split: if_splits)
  have "same_page 2 va 0" using p by (auto simp: same_page_def px_vpn [of _ 0] le_Suc_eq numeral_2_eq_2 vpn_def)
  with vpn_eq_iff [OF lt, of 0] show "vpn va = 0" by (simp add: vpn_def)
next
  assume v: "vpn va = 0"
  then have "unat va < PGSIZE" by (simp add: vpn_def div_eq_0_iff)
  then have "va < MAXVA" by (simp add: word_less_nat_alt)
  with v show "mapped demo_mem 0x80001000 va" by (simp add: mapped_def demo_lookup px_vpn demo_valid)
qed

lemma demo_frame: "vpn va = 0 \<Longrightarrow> frame demo_mem 0x80001000 va = 0x80004000"
  by (simp add: frame_def demo_lookup px_vpn demo_valid)

lemma demo_list: "kmem_list demo_mem xs \<longleftrightarrow> xs = []"
  by (cases xs) (auto simp: kmem_list_def demo_mem_def page_ok_def)

lemma demo_uspace: "uspace demo_mem 0x80001000"
proof -
  have f: "free_pages demo_mem = {}" "kmem_inv demo_mem"
    by (auto simp: free_pages_def kmem_inv_def demo_list)
  have "page_ok 0x80001000 0x80004000" by (simp add: page_ok_def aligned_def)
  then show ?thesis
    using f demo_wfpt demo_tabs(2) demo_frame demo_mapped
    by (auto simp: uspace_def table_ok_def tables_def demo_mem_def [THEN arg_cong, of ram] demo_mem_def [THEN arg_cong, of kend])
qed


section \<open>Properties\<close>

text \<open>
  C10. The kernel writes user memory and reads it back unchanged: copyout() to a mapped range
  followed by copyin() of it returns the bytes, leaves the rest of the buffer, and both calls
  report success.
\<close>

theorem copyout_copyin:
  assumes "uspace s pt" and "unat va + len \<le> 0x4000000000" and "\<forall>a \<in> urange va len. mapped s pt a"
  obtains s' d where "copyout pt va src off len s = Ret (0, s')"
    and "copyin pt dst doff va len s' = Ret (0, d)"
    and "\<And>i. i < len \<Longrightarrow> d (doff + i) = src (off + i)"
    and "\<And>a. a < doff \<or> doff + len \<le> a \<Longrightarrow> d a = dst a"
proof -
  obtain s' where o: "copyout pt va src off len s = Ret (0, s')" and w: "wrote s s' pt va src off len"
    using copyout_wrote [OF assms(1), where va = va and len = len and src = src and off = off] assms(3) by auto
  have m: "mapped s' pt = mapped s pt" by (rule wrote_mapped [OF w])
  have "uspace s' pt" using w by (simp add: wrote_def)
  then have i: "copyin pt dst doff va len s' = Ret (0, fetched s' pt dst doff va len)"
    using copyin_fetched [of s' pt, where va = va and len = len and dst = dst and off = doff] assms(3) m by auto
  have "fetched s' pt dst doff va len (doff + i) = src (off + i)" if "i < len" for i
  proof -
    have a: "unat (va + of_nat i) = unat va + i" using that assms(2) by (intro unat_add_small) simp
    with that have "va + of_nat i \<in> urange va len" by (simp add: urange_def)
    with w assms(3) a that show ?thesis by (simp add: fetched_def wrote_def)
  qed
  with o i show thesis by (rule that) (auto simp: fetched_def)
qed

theorem copyout_copyin_witness:
  "\<exists>s' d. copyout 0x80001000 16 (\<lambda>a. of_nat a) 0 5 demo_mem = Ret (0, s') \<and>
     copyin 0x80001000 (\<lambda>_. 0) 2 16 5 s' = Ret (0, d) \<and> d 6 = 4"
proof -
  have m: "\<forall>a \<in> urange 16 5. mapped demo_mem 0x80001000 a"
    by (auto simp: urange_def demo_mapped vpn_def div_eq_0_iff)
  have b: "unat (16 :: u64) + 5 \<le> 0x4000000000" by simp
  show ?thesis
  proof (rule copyout_copyin [OF demo_uspace b m, of "\<lambda>a. of_nat a" 0 "\<lambda>_. 0" 2])
    fix s' d
    assume r: "copyout 0x80001000 16 (\<lambda>a. of_nat a) 0 5 demo_mem = Ret (0, s')"
      "copyin 0x80001000 (\<lambda>_. 0) 2 16 5 s' = Ret (0, d)"
      and d: "\<And>i. i < 5 \<Longrightarrow> d (2 + i) = of_nat (0 + i)"
    have "d (2 + 4) = of_nat (0 + 4)" by (rule d) simp
    then have "d 6 = 4" by simp
    with r show ?thesis by blast
  qed
qed

text \<open>
  C7. copyout() never panics on an address space of user pages, for any address and any length, also
  beyond MAXVA. It succeeds when every byte of the range belongs to a user page and returns -1
  otherwise, and either way it leaves every page-table entry, every free page and every user byte outside
  the range as it was.
\<close>

theorem copyout_confined:
  assumes "uspace s pt"
  shows "\<exists>r s'. copyout pt va src off len s = Ret (r, s') \<and>
    (r = 0 \<longleftrightarrow> (\<forall>a \<in> urange va len. mapped s pt a)) \<and> (r = 0 \<or> r = -1) \<and>
    uspace s' pt \<and> lookup s' pt = lookup s pt \<and> free_pages s' = free_pages s \<and>
    (\<forall>a. mapped s pt a \<and> a \<notin> urange va len \<longrightarrow> ubyte s' pt a = ubyte s pt a)"
proof -
  obtain r s' n where o: "copyout pt va src off len s = Ret (r, s')" and w: "wrote s s' pt va src off n"
    and c: "if \<forall>a \<in> urange va len. mapped s pt a then r = 0 \<and> n = len else r = -1 \<and> n < len"
    using copyout_wrote [OF assms, where va = va and len = len and src = src and off = off] by auto
  have "n \<le> len" using c by (auto split: if_splits)
  then have "urange va n \<subseteq> urange va len" by (auto simp: urange_def)
  with w have "\<forall>a. mapped s pt a \<and> a \<notin> urange va len \<longrightarrow> ubyte s' pt a = ubyte s pt a"
    by (auto simp: wrote_def)
  with o w c show ?thesis
    by (intro exI [of _ r] exI [of _ s']) (auto simp: wrote_def split: if_splits)
qed

theorem copyout_confined_witness:
  "\<exists>s'. copyout 0x80001000 0xffffffffffffffff (\<lambda>_. 7) 0 8192 demo_mem = Ret (-1, s') \<and> uspace s' 0x80001000"
proof -
  have n: "\<not> (\<forall>a \<in> urange 0xffffffffffffffff 8192. mapped demo_mem 0x80001000 a)"
  proof
    assume "\<forall>a \<in> urange 0xffffffffffffffff 8192. mapped demo_mem 0x80001000 a"
    moreover have "0xffffffffffffffff \<in> urange 0xffffffffffffffff 8192" by (simp add: urange_def)
    ultimately have "mapped demo_mem 0x80001000 0xffffffffffffffff" by blast
    then show False by (simp add: mapped_def)
  qed
  from copyout_confined [OF demo_uspace, where va = "0xffffffffffffffff" and src = "\<lambda>_. 7" and off = 0 and len = 8192] n show ?thesis by blast
qed

end
