(* ===== verification/Xv6_Printf.thy ===== *)
theory Xv6_Printf
  imports Xv6_String
begin

text \<open>
  Formatted console output: kernel/printf.c and the polled half of the console driver,
  consputc() and uartputc_sync(). The transmitter drains by itself, so the spin on LSR_TX_IDLE
  ends; what remains of the device is \<open>thr\<close>, the bytes written to the transmit holding
  register, oldest first. A format string is the list of its characters; a missing or
  ill-typed variadic argument is undefined behaviour.
\<close>

section \<open>Bytes of a literal\<close>

definition str :: "string \<Rightarrow> u8 list" where
  "str s = map of_char s"

definition bytes_of :: "u8 list \<Rightarrow> bytes" where
  "bytes_of xs = (\<lambda>i. if i < length xs then xs ! i else 0)"

section \<open>Characters to the UART\<close>

record conout =
  panicked :: bool
  thr :: "u8 list"

definition uartputc_sync :: "u32 \<Rightarrow> conout \<Rightarrow> conout outcome" where
  "uartputc_sync c u =
     (if panicked u then Fail Diverged else Ret (u\<lparr>thr := thr u @ [ucast c]\<rparr>))"

abbreviation BACKSPACE :: u32 where "BACKSPACE \<equiv> 0x100"

definition consputc :: "u32 \<Rightarrow> conout \<Rightarrow> conout outcome" where
  "consputc c u =
     (if c = BACKSPACE then
        obind (uartputc_sync 8 u) (\<lambda>u. obind (uartputc_sync 32 u) (uartputc_sync 8))
      else uartputc_sync c u)"

definition puts :: "u8 list \<Rightarrow> conout \<Rightarrow> conout outcome" where
  "puts xs = ofold (\<lambda>c. consputc (ucast c)) xs"

section \<open>Numbers\<close>

definition digits :: "u8 list" where
  "digits = str ''0123456789abcdef''"

text \<open>The do-loop of printint: the digits of \<open>x\<close>, least significant first.\<close>

function printint_loop :: "u32 \<Rightarrow> u32 \<Rightarrow> u8 list" where
  "printint_loop base x =
     digits ! unat (x mod base) #
       (if x div base \<noteq> 0 \<and> 1 < base then printint_loop base (x div base) else [])"
  by pat_completeness auto
termination
proof (relation "measure (\<lambda>(base, x). unat x)", goal_cases)
  case (2 base x)
  then have "unat (x div base) \<noteq> 0" "1 < unat base" by (simp_all add: unat_eq_zero word_less_nat_alt)
  then have "unat x div unat base < unat x"
    by (metis div_0 div_less_dividend gr0I unat_div)
  then show ?case by (simp add: unat_div)
qed simp

declare printint_loop.simps [simp del]

definition printint_buf :: "u32 \<Rightarrow> u32 \<Rightarrow> bool \<Rightarrow> u8 list" where
  "printint_buf xx base sign =
     (let neg = (sign \<and> sint xx < 0); x = (if neg then - xx else xx)
      in printint_loop base x @ (if neg then [45] else []))"

definition printint :: "u32 \<Rightarrow> u32 \<Rightarrow> bool \<Rightarrow> conout \<Rightarrow> conout outcome" where
  "printint xx base sign = puts (rev (printint_buf xx base sign))"

fun printptr_loop :: "nat \<Rightarrow> u64 \<Rightarrow> u8 list" where
  "printptr_loop 0 x = []"
| "printptr_loop (Suc k) x = digits ! unat (drop_bit 60 x) # printptr_loop k (push_bit 4 x)"

definition printptr :: "u64 \<Rightarrow> conout \<Rightarrow> conout outcome" where
  "printptr x = puts (str ''0x'' @ printptr_loop 16 x)"

section \<open>printf and panic\<close>

datatype farg = AInt u32 | APtr u64 | AStr "u8 list option"

definition pct :: u8 where "pct = 37"

fun printf_loop :: "u8 list \<Rightarrow> farg list \<Rightarrow> conout \<Rightarrow> conout outcome" where
  "printf_loop [] args u = Ret u"
| "printf_loop [c] args u = (if c = pct then Ret u else consputc (ucast c) u)"
| "printf_loop (c # d # fmt) args u =
     (if c \<noteq> pct then obind (consputc (ucast c) u) (printf_loop (d # fmt) args)
      else if d = of_char (CHR ''d'') then
        (case args of AInt n # args \<Rightarrow> obind (printint n 10 True u) (printf_loop fmt args) | _ \<Rightarrow> Fail Undef)
      else if d = of_char (CHR ''x'') then
        (case args of AInt n # args \<Rightarrow> obind (printint n 16 True u) (printf_loop fmt args) | _ \<Rightarrow> Fail Undef)
      else if d = of_char (CHR ''p'') then
        (case args of APtr n # args \<Rightarrow> obind (printptr n u) (printf_loop fmt args) | _ \<Rightarrow> Fail Undef)
      else if d = of_char (CHR ''s'') then
        (case args of
           AStr s # args \<Rightarrow>
             obind (puts (case s of None \<Rightarrow> str ''(null)'' | Some s \<Rightarrow> s) u) (printf_loop fmt args)
         | _ \<Rightarrow> Fail Undef)
      else if d = pct then obind (consputc (ucast pct) u) (printf_loop fmt args)
      else obind (consputc (ucast pct) u) (\<lambda>u. obind (consputc (ucast d) u) (printf_loop fmt args)))"

definition printf :: "string \<Rightarrow> farg list \<Rightarrow> conout \<Rightarrow> conout outcome" where
  "printf fmt args u = printf_loop (str fmt) args u"

text \<open>What panic() leaves on the console before it stops.\<close>

definition panic :: "string \<Rightarrow> conout \<Rightarrow> conout outcome" where
  "panic s u =
     obind (printf ''panic: '' [] u) (\<lambda>u.
     obind (printf s [] u) (\<lambda>u.
     obind (printf [CHR 0x0A] [] u) (\<lambda>u. Ret (u\<lparr>panicked := True\<rparr>))))"

end
