(* ===== verification/Xv6_Kernel.thy ===== *)
theory Xv6_Kernel
  imports Xv6_Vm Xv6_Log Xv6_Printf
begin

text \<open>
  The state of the whole kernel: the C globals of proc.c, fs.c, file.c, pipe.c, console.c,
  uart.c and trap.c around the physical memory, the log and the console output. A pointer into
  a static table is its index, a null pointer is \<open>None\<close>, and \<open>k_cur\<close> is the index of
  \<open>myproc()\<close>. A pipe lives in a page of kalloc(); its fields are kept by page address. Local
  structures whose address is passed to readi() or writei() live in \<open>ram\<close> at the process's
  kernel stack address. Spinlocks make each critical section one step and are modelled apart.
\<close>

section \<open>Processes\<close>

datatype procstate = UNUSED | USED | SLEEPING | RUNNABLE | RUNNING | ZOMBIE

text \<open>The addresses the kernel sleeps on.\<close>

datatype chan = ChProc nat | ChPipeR u64 | ChPipeW u64 | ChConsR | ChTicks | ChUartR

record kcontext =
  c_ra :: u64
  c_sp :: u64
  c_s :: "nat \<Rightarrow> u64"

record proc =
  p_state :: procstate
  p_chan :: "chan option"
  p_killed :: int
  p_xstate :: u32
  p_pid :: int
  p_xstatus :: u32
  p_parent :: "nat option"
  p_kstack :: u64
  p_sz :: u64
  p_pagetable :: u64
  p_trapframe :: u64
  p_context :: kcontext
  p_ofile :: "nat \<Rightarrow> nat option"
  p_cwd :: "nat option"
  p_name :: bytes
  p_exit_msg :: bytes

section \<open>Files, inodes and devices\<close>

datatype filetype = FD_NONE | FD_PIPE | FD_INODE | FD_DEVICE

record xfile =
  f_type :: filetype
  f_ref :: int
  f_readable :: bool
  f_writable :: bool
  f_pipe :: u64
  f_ip :: "nat option"
  f_off :: u32
  f_major :: u16

record inode =
  i_dev :: u32
  i_inum :: u32
  i_ref :: int
  i_lock :: sleeplock
  i_valid :: bool
  i_type :: u16
  i_major :: u16
  i_minor :: u16
  i_nlink :: u16
  i_size :: u32
  i_addrs :: "nat \<Rightarrow> u32"

record superblock =
  sb_magic :: u32
  sb_size :: u32
  sb_nblocks :: u32
  sb_ninodes :: u32
  sb_nlog :: u32
  sb_logstart :: u32
  sb_inodestart :: u32
  sb_bmapstart :: u32

abbreviation (input) T_DIR :: u16 where "T_DIR \<equiv> 1"
abbreviation (input) T_FILE :: u16 where "T_FILE \<equiv> 2"
abbreviation (input) T_DEVICE :: u16 where "T_DEVICE \<equiv> 3"

record pipe =
  pi_data :: bytes
  pi_nread :: u32
  pi_nwrite :: u32
  pi_readopen :: bool
  pi_writeopen :: bool

record cons =
  cons_buf :: bytes
  cons_r :: u32
  cons_w :: u32
  cons_e :: u32

text \<open>
  The UART: the registers the driver writes, and what the device will answer: \<open>lsr_idle\<close> the
  next reads of LSR_TX_IDLE by uartstart() (an exhausted list reads as busy) and \<open>rhr\<close> the
  input bytes waiting in the receive holding register.
\<close>

record uart =
  uart_tx_buf :: bytes
  uart_tx_w :: u64
  uart_tx_r :: u64
  uart_regs :: "nat \<Rightarrow> u8"
  lsr_idle :: "bool list"
  rhr :: "u8 list"

text \<open>Addresses the linker gives to code.\<close>

record linkaddr =
  a_trampoline :: u64
  a_uservec :: u64
  a_userret :: u64
  a_forkret :: u64
  a_usertrap :: u64
  a_etext :: u64

datatype devread = Consoleread
datatype devwrite = Consolewrite

record devops =
  d_read :: "devread option"
  d_write :: "devwrite option"

section \<open>The kernel\<close>

record kernel =
  k_mem :: physmem
  k_log :: xlog
  k_out :: conout
  k_proc :: "nat \<Rightarrow> proc"
  k_cur :: nat
  k_nextpid :: int
  k_initproc :: "nat option"
  k_first :: bool
  k_inode :: "nat \<Rightarrow> inode"
  k_sb :: superblock
  k_file :: "nat \<Rightarrow> xfile"
  k_devsw :: "nat \<Rightarrow> devops"
  k_pipe :: "u64 \<Rightarrow> pipe"
  k_cons :: cons
  k_uart :: uart
  k_ticks :: u32
  k_link :: linkaddr

abbreviation cur_proc :: "kernel \<Rightarrow> proc" where
  "cur_proc k \<equiv> k_proc k (k_cur k)"

definition upd_proc :: "nat \<Rightarrow> (proc \<Rightarrow> proc) \<Rightarrow> kernel \<Rightarrow> kernel" where
  "upd_proc p f k = k\<lparr>k_proc := (k_proc k)(p := f (k_proc k p))\<rparr>"

definition upd_inode :: "nat \<Rightarrow> (inode \<Rightarrow> inode) \<Rightarrow> kernel \<Rightarrow> kernel" where
  "upd_inode i f k = k\<lparr>k_inode := (k_inode k)(i := f (k_inode k i))\<rparr>"

definition upd_file :: "nat \<Rightarrow> (xfile \<Rightarrow> xfile) \<Rightarrow> kernel \<Rightarrow> kernel" where
  "upd_file i f k = k\<lparr>k_file := (k_file k)(i := f (k_file k i))\<rparr>"

definition upd_pipe :: "u64 \<Rightarrow> (pipe \<Rightarrow> pipe) \<Rightarrow> kernel \<Rightarrow> kernel" where
  "upd_pipe a f k = k\<lparr>k_pipe := (k_pipe k)(a := f (k_pipe k a))\<rparr>"

section \<open>Running a component's operation on the kernel\<close>

definition on_mem :: "(physmem \<Rightarrow> ('a \<times> physmem) outcome) \<Rightarrow> kernel \<Rightarrow> ('a \<times> kernel) outcome" where
  "on_mem f k = obind (f (k_mem k)) (\<lambda>(x, s). Ret (x, k\<lparr>k_mem := s\<rparr>))"

definition run_mem :: "(physmem \<Rightarrow> physmem outcome) \<Rightarrow> kernel \<Rightarrow> kernel outcome" where
  "run_mem f k = obind (f (k_mem k)) (\<lambda>s. Ret (k\<lparr>k_mem := s\<rparr>))"

definition kkalloc :: "kernel \<Rightarrow> u64 \<times> kernel" where
  "kkalloc k = (let (pa, s) = kalloc (k_mem k) in (pa, k\<lparr>k_mem := s\<rparr>))"

text \<open>The sleep locks of the buffers record the pid of the calling process.\<close>

definition pid_log :: "kernel \<Rightarrow> xlog" where
  "pid_log k = (k_log k)\<lparr>lg_bc := (lg_bc (k_log k))\<lparr>cur_pid := p_pid (cur_proc k)\<rparr>\<rparr>"

definition run_log :: "(xlog \<Rightarrow> xlog outcome) \<Rightarrow> kernel \<Rightarrow> kernel outcome" where
  "run_log f k = obind (f (pid_log k)) (\<lambda>l. Ret (k\<lparr>k_log := l\<rparr>))"

definition fs_bread :: "u32 \<Rightarrow> u32 \<Rightarrow> kernel \<Rightarrow> (nat \<times> kernel) outcome" where
  "fs_bread dev b k = obind (bread dev b (lg_bc (pid_log k)))
     (\<lambda>(i, bc). Ret (i, k\<lparr>k_log := (k_log k)\<lparr>lg_bc := bc\<rparr>\<rparr>))"

definition fs_brelse :: "nat \<Rightarrow> kernel \<Rightarrow> kernel outcome" where
  "fs_brelse i = run_log (log_brelse i)"

definition fs_log_write :: "nat \<Rightarrow> kernel \<Rightarrow> kernel outcome" where
  "fs_log_write i = run_log (log_write i)"

definition fs_data :: "nat \<Rightarrow> kernel \<Rightarrow> bytes" where
  "fs_data i k = get_data i (lg_bc (k_log k))"

definition fs_put :: "nat \<Rightarrow> bytes \<Rightarrow> kernel \<Rightarrow> kernel" where
  "fs_put i x k = k\<lparr>k_log := log_put i x (k_log k)\<rparr>"

definition kprintf :: "string \<Rightarrow> farg list \<Rightarrow> kernel \<Rightarrow> kernel outcome" where
  "kprintf fmt args k = obind (printf fmt args (k_out k)) (\<lambda>u. Ret (k\<lparr>k_out := u\<rparr>))"

abbreviation NL :: string where "NL \<equiv> [CHR 0x0A]"

definition local_addr :: "nat \<Rightarrow> kernel \<Rightarrow> u64" where
  "local_addr off k = p_kstack (cur_proc k) + of_nat off"

definition kload :: "kernel \<Rightarrow> bytes" where
  "kload k = ram (k_mem k)"

definition kstore :: "(bytes \<Rightarrow> bytes) \<Rightarrow> kernel \<Rightarrow> kernel" where
  "kstore f k = k\<lparr>k_mem := (k_mem k)\<lparr>ram := f (ram (k_mem k))\<rparr>\<rparr>"

text \<open>
  \<open>strncpy\<close> and \<open>safestrcpy\<close> between two arrays, the destination an array of \<open>n\<close> bytes: the two
  are laid side by side.
\<close>

definition beside :: "nat \<Rightarrow> bytes \<Rightarrow> bytes \<Rightarrow> bytes" where
  "beside n dst src = (\<lambda>a. if a < n then dst a else src (a - n))"

definition strncpy_buf :: "nat \<Rightarrow> bytes \<Rightarrow> bytes \<Rightarrow> bytes" where
  "strncpy_buf n dst src = copy_range dst 0 (strncpy 0 n (int n) (beside n dst src)) 0 n"

definition safestrcpy_buf :: "nat \<Rightarrow> bytes \<Rightarrow> bytes \<Rightarrow> bytes" where
  "safestrcpy_buf n dst src = copy_range dst 0 (safestrcpy 0 n (int n) (beside n dst src)) 0 n"

text \<open>The characters of a C string: up to its zero byte, at most the size of its array.\<close>

definition cstring :: "bytes \<Rightarrow> nat \<Rightarrow> u8 list" where
  "cstring m n = takeWhile (\<lambda>c. c \<noteq> 0) (read_range m 0 n)"

text \<open>An \<open>int\<close> and an array of them as bytes.\<close>

definition word_bytes :: "u32 \<Rightarrow> bytes" where
  "word_bytes w = store32 (\<lambda>_. 0) 0 w"

definition words_bytes :: "u32 list \<Rightarrow> bytes" where
  "words_bytes xs = (\<lambda>i. if i < 4 * length xs then word_bytes (xs ! (i div 4)) (i mod 4) else 0)"

text \<open>The 64-bit fields of a trap frame, by their offsets in struct trapframe.\<close>

abbreviation (input) TF_kernel_satp :: nat where "TF_kernel_satp \<equiv> 0"
abbreviation (input) TF_kernel_sp :: nat where "TF_kernel_sp \<equiv> 8"
abbreviation (input) TF_kernel_trap :: nat where "TF_kernel_trap \<equiv> 16"
abbreviation (input) TF_epc :: nat where "TF_epc \<equiv> 24"
abbreviation (input) TF_kernel_hartid :: nat where "TF_kernel_hartid \<equiv> 32"
abbreviation (input) TF_sp :: nat where "TF_sp \<equiv> 48"
abbreviation (input) TF_a0 :: nat where "TF_a0 \<equiv> 112"
abbreviation (input) TF_a1 :: nat where "TF_a1 \<equiv> 120"
abbreviation (input) TF_a7 :: nat where "TF_a7 \<equiv> 168"
abbreviation (input) trapframe_size :: nat where "trapframe_size \<equiv> 288"

definition tf_get :: "nat \<Rightarrow> nat \<Rightarrow> kernel \<Rightarrow> u64" where
  "tf_get p off k = load64 (kload k) (unat (p_trapframe (k_proc k p)) + off)"

definition tf_set :: "nat \<Rightarrow> nat \<Rightarrow> u64 \<Rightarrow> kernel \<Rightarrow> kernel" where
  "tf_set p off v k = kstore (\<lambda>m. store64 m (unat (p_trapframe (k_proc k p)) + off) v) k"

text \<open>
  A call that may sleep is \<open>Done\<close>, or \<open>Asleep\<close> with the value its loop variable has when the
  process gives up the CPU; it goes on from there when the process runs again. A caller that
  does not look inside treats the second as \<open>Blocked\<close>.
\<close>

datatype ('a, 'l) run = Done 'a | Asleep 'l

definition finish :: "(('a, 'l) run \<times> kernel) outcome \<Rightarrow> ('a \<times> kernel) outcome" where
  "finish m = obind m (\<lambda>(r, k). case r of Done x \<Rightarrow> Ret (x, k) | Asleep l \<Rightarrow> Fail Blocked)"

section \<open>Lemmas\<close>

lemma upd_proc_simps [simp]:
  "k_mem (upd_proc p f k) = k_mem k" "k_log (upd_proc p f k) = k_log k"
  "k_cur (upd_proc p f k) = k_cur k" "k_proc (upd_proc p f k) = (k_proc k)(p := f (k_proc k p))"
  "k_nextpid (upd_proc p f k) = k_nextpid k" "k_initproc (upd_proc p f k) = k_initproc k"
  "k_inode (upd_proc p f k) = k_inode k" "k_file (upd_proc p f k) = k_file k"
  "k_pipe (upd_proc p f k) = k_pipe k" "k_out (upd_proc p f k) = k_out k"
  "k_link (upd_proc p f k) = k_link k" "k_sb (upd_proc p f k) = k_sb k"
  "k_cons (upd_proc p f k) = k_cons k" "k_uart (upd_proc p f k) = k_uart k"
  "k_ticks (upd_proc p f k) = k_ticks k" "k_devsw (upd_proc p f k) = k_devsw k"
  by (simp_all add: upd_proc_def)

lemma upd_inode_simps [simp]:
  "k_mem (upd_inode p f k) = k_mem k" "k_log (upd_inode p f k) = k_log k"
  "k_cur (upd_inode p f k) = k_cur k" "k_inode (upd_inode p f k) = (k_inode k)(p := f (k_inode k p))"
  "k_proc (upd_inode p f k) = k_proc k" "k_file (upd_inode p f k) = k_file k"
  "k_sb (upd_inode p f k) = k_sb k"
  by (simp_all add: upd_inode_def)

lemma upd_file_simps [simp]:
  "k_mem (upd_file p f k) = k_mem k" "k_log (upd_file p f k) = k_log k"
  "k_cur (upd_file p f k) = k_cur k" "k_file (upd_file p f k) = (k_file k)(p := f (k_file k p))"
  "k_proc (upd_file p f k) = k_proc k" "k_inode (upd_file p f k) = k_inode k"
  "k_pipe (upd_file p f k) = k_pipe k"
  by (simp_all add: upd_file_def)

lemma finish_Ret [outcome_simps]: "finish m = Ret (x, k) \<longleftrightarrow> m = Ret (Done x, k)"
proof (cases m)
  case (Ret y)
  obtain r k' where "y = (r, k')" by (cases y)
  with Ret show ?thesis by (cases r) (auto simp: finish_def)
qed (simp add: finish_def)

end
