(* ===== verification/Xv6_Sched.thy ===== *)
theory Xv6_Sched
  imports Xv6_Kernel
begin

text \<open>
  The process table of kernel/proc.c: allocating and freeing its entries, the memory of a
  process, and the scheduling operations sleep(), wakeup(), yield(), kill() and the scheduler.
  swtch() only changes registers: \<open>k_cur\<close> is the process the hart runs, \<open>NPROC\<close> while it is in
  the scheduler.
\<close>

section \<open>The process table\<close>

abbreviation TRAMPOLINE :: u64 where "TRAMPOLINE \<equiv> MAXVA - 4096"
abbreviation TRAPFRAME :: u64 where "TRAPFRAME \<equiv> TRAMPOLINE - 4096"

definition procinit :: "kernel \<Rightarrow> kernel" where
  "procinit k = fold (\<lambda>p. upd_proc p (\<lambda>x. x\<lparr>p_state := UNUSED, p_kstack := KSTACK p\<rparr>)) [0..<NPROC] k"

definition myproc :: "kernel \<Rightarrow> nat option" where
  "myproc k = (if k_cur k < NPROC then Some (k_cur k) else None)"

text \<open>The increment of an \<open>int\<close> is undefined at its maximum.\<close>

definition allocpid :: "kernel \<Rightarrow> (int \<times> kernel) outcome" where
  "allocpid k =
     (if k_nextpid k < 2 ^ 31 - 1 then Ret (k_nextpid k, k\<lparr>k_nextpid := k_nextpid k + 1\<rparr>) else Fail Undef)"

definition proc_pagetable :: "nat \<Rightarrow> kernel \<Rightarrow> (u64 \<times> kernel) outcome" where
  "proc_pagetable p k =
     (let (pagetable, s) = uvmcreate (k_mem k); k = k\<lparr>k_mem := s\<rparr> in
      if pagetable = 0 then Ret (0, k)
      else
        obind (on_mem (mappages pagetable TRAMPOLINE 4096 (a_trampoline (k_link k)) (PTE_R OR PTE_X)) k) (\<lambda>(r, k).
        if r < 0 then obind (run_mem (uvmfree pagetable 0) k) (\<lambda>k. Ret (0, k))
        else
          obind (on_mem (mappages pagetable TRAPFRAME 4096 (p_trapframe (k_proc k p)) (PTE_R OR PTE_W)) k) (\<lambda>(r, k).
          if r < 0 then
            obind (run_mem (uvmunmap pagetable TRAMPOLINE 1 False) k) (\<lambda>k.
            obind (run_mem (uvmfree pagetable 0) k) (\<lambda>k. Ret (0, k)))
          else Ret (pagetable, k))))"

definition proc_freepagetable :: "u64 \<Rightarrow> u64 \<Rightarrow> kernel \<Rightarrow> kernel outcome" where
  "proc_freepagetable pagetable sz k =
     obind (run_mem (uvmunmap pagetable TRAMPOLINE 1 False) k) (\<lambda>k.
     obind (run_mem (uvmunmap pagetable TRAPFRAME 1 False) k) (\<lambda>k.
     run_mem (uvmfree pagetable sz) k))"

definition freeproc :: "nat \<Rightarrow> kernel \<Rightarrow> kernel outcome" where
  "freeproc p k =
     (let x = k_proc k p in
      obind (if p_trapframe x \<noteq> 0 then run_mem (kfree (p_trapframe x)) k else Ret k) (\<lambda>k.
      let k = upd_proc p (\<lambda>x. x\<lparr>p_trapframe := 0\<rparr>) k in
      obind (if p_pagetable x \<noteq> 0 then proc_freepagetable (p_pagetable x) (p_sz x) k else Ret k) (\<lambda>k.
      Ret (upd_proc p (\<lambda>x. x\<lparr>p_state := UNUSED, p_chan := None, p_killed := 0, p_xstate := 0, p_pid := 0,
        p_parent := None, p_sz := 0, p_pagetable := 0, p_name := (p_name x)(0 := 0)\<rparr>) k))))"

definition allocproc :: "kernel \<Rightarrow> (nat option \<times> kernel) outcome" where
  "allocproc k =
     (case scan (\<lambda>p. p_state (k_proc k p) = UNUSED) 0 NPROC of
        None \<Rightarrow> Ret (None, k)
      | Some p \<Rightarrow>
          obind (allocpid k) (\<lambda>(pid, k).
          let k = upd_proc p (\<lambda>x. x\<lparr>p_state := USED, p_pid := pid\<rparr>) k;
              (tf, k) = kkalloc k;
              k = upd_proc p (\<lambda>x. x\<lparr>p_trapframe := tf\<rparr>) k in
          if tf = 0 then obind (freeproc p k) (\<lambda>k. Ret (None, k))
          else
            obind (proc_pagetable p k) (\<lambda>(pt, k).
            let k = upd_proc p (\<lambda>x. x\<lparr>p_pagetable := pt\<rparr>) k in
            if pt = 0 then obind (freeproc p k) (\<lambda>k. Ret (None, k))
            else Ret (Some p, upd_proc p (\<lambda>x. x\<lparr>p_context :=
              \<lparr>c_ra = a_forkret (k_link k), c_sp = p_kstack x + 4096, c_s = (\<lambda>_. 0)\<rparr>\<rparr>) k))))"

definition growproc :: "u32 \<Rightarrow> kernel \<Rightarrow> (int \<times> kernel) outcome" where
  "growproc n k =
     (let p = k_cur k; sz = p_sz (k_proc k p); pt = p_pagetable (k_proc k p) in
      if sint n > 0 then
        obind (on_mem (uvmalloc pt sz (sz + scast n) PTE_W) k) (\<lambda>(sz', k).
        if sz' = 0 then Ret (-1, k) else Ret (0, upd_proc p (\<lambda>x. x\<lparr>p_sz := sz'\<rparr>) k))
      else if sint n < 0 then
        obind (on_mem (uvmdealloc pt sz (sz + scast n)) k) (\<lambda>(sz', k).
        Ret (0, upd_proc p (\<lambda>x. x\<lparr>p_sz := sz'\<rparr>) k))
      else Ret (0, k))"

section \<open>Copying to and from the running process or the kernel\<close>

text \<open>The kernel's side of the copy is \<open>len\<close> bytes of \<open>src\<close> from \<open>off\<close>.\<close>

definition either_copyout :: "bool \<Rightarrow> u64 \<Rightarrow> bytes \<Rightarrow> nat \<Rightarrow> nat \<Rightarrow> kernel \<Rightarrow> (int \<times> kernel) outcome" where
  "either_copyout user_dst dst src off len k =
     (if user_dst then on_mem (copyout (p_pagetable (cur_proc k)) dst src off len) k
      else Ret (0, kstore (\<lambda>m. copy_range m (unat dst) src off len) k))"

definition either_copyin :: "bytes \<Rightarrow> nat \<Rightarrow> bool \<Rightarrow> u64 \<Rightarrow> nat \<Rightarrow> kernel \<Rightarrow> (int \<times> bytes) outcome" where
  "either_copyin dst off user_src src len k =
     (if user_src then copyin (p_pagetable (cur_proc k)) dst off src len (k_mem k)
      else Ret (0, copy_range dst off (kload k) (unat src) len))"

section \<open>Scheduling\<close>

text \<open>One iteration of the scheduler's loop over the table: the hart switches to \<open>p\<close> if it can run.\<close>

definition scheduler_try :: "nat \<Rightarrow> kernel \<Rightarrow> kernel" where
  "scheduler_try p k =
     (if p_state (k_proc k p) = RUNNABLE
      then (upd_proc p (\<lambda>x. x\<lparr>p_state := RUNNING\<rparr>) k)\<lparr>k_cur := p\<rparr> else k)"

text \<open>
  The scan of the table from entry \<open>i\<close> until the hart switches to a process; \<open>None\<close> when no
  process from there on can run.
\<close>

definition scheduler_scan :: "nat \<Rightarrow> kernel \<Rightarrow> (nat \<times> kernel) option" where
  "scheduler_scan i k = (case scan (\<lambda>p. p_state (k_proc k p) = RUNNABLE) i NPROC of
     None \<Rightarrow> None | Some p \<Rightarrow> Some (p, scheduler_try p k))"

text \<open>
  One pass of the outer loop: the processes the hart switches to, in order. What a process does
  until it gives up the CPU is \<open>body\<close>.
\<close>

function scheduler_pass :: "(nat \<Rightarrow> kernel \<Rightarrow> kernel) \<Rightarrow> nat \<Rightarrow> kernel \<Rightarrow> nat list \<times> kernel" where
  "scheduler_pass body i k =
     (case scheduler_scan i k of
        None \<Rightarrow> ([], k)
      | Some (p, k) \<Rightarrow> (let (ps, k) = scheduler_pass body (Suc p) ((body p k)\<lparr>k_cur := NPROC\<rparr>) in (p # ps, k)))"
  by pat_completeness auto
termination
  by (relation "measure (\<lambda>(body, i, k). NPROC - i)")
    (auto simp: scheduler_scan_def scan_Some_iff split: option.splits)

declare scheduler_pass.simps [simp del]

text \<open>Giving up the CPU; the lock checks of sched() are those of the spinlock theory.\<close>

definition sched :: "kernel \<Rightarrow> kernel outcome" where
  "sched k = (if p_state (cur_proc k) = RUNNING then opanic ''sched running'' else Ret (k\<lparr>k_cur := NPROC\<rparr>))"

definition yield_cpu :: "kernel \<Rightarrow> kernel outcome" where
  "yield_cpu k = sched (upd_proc (k_cur k) (\<lambda>x. x\<lparr>p_state := RUNNABLE\<rparr>) k)"

definition sleep :: "chan \<Rightarrow> kernel \<Rightarrow> kernel outcome" where
  "sleep c k = sched (upd_proc (k_cur k) (\<lambda>x. x\<lparr>p_state := SLEEPING, p_chan := Some c\<rparr>) k)"

text \<open>The end of sleep(), when the scheduler has switched back.\<close>

definition sleep_resume :: "kernel \<Rightarrow> kernel" where
  "sleep_resume k = upd_proc (k_cur k) (\<lambda>x. x\<lparr>p_chan := None\<rparr>) k"

definition wakeup :: "chan option \<Rightarrow> kernel \<Rightarrow> kernel" where
  "wakeup c k = fold (\<lambda>p k.
     if p \<noteq> k_cur k \<and> p_state (k_proc k p) = SLEEPING \<and> p_chan (k_proc k p) = c
     then upd_proc p (\<lambda>x. x\<lparr>p_state := RUNNABLE\<rparr>) k else k) [0..<NPROC] k"

definition kill :: "int \<Rightarrow> kernel \<Rightarrow> int \<times> kernel" where
  "kill pid k =
     (case scan (\<lambda>p. p_pid (k_proc k p) = pid) 0 NPROC of
        None \<Rightarrow> (-1, k)
      | Some p \<Rightarrow> (0, upd_proc p (\<lambda>x. x\<lparr>p_state := (if p_state x = SLEEPING then RUNNABLE else p_state x),
          p_killed := 1\<rparr>) k))"

definition setkilled :: "nat \<Rightarrow> kernel \<Rightarrow> kernel" where
  "setkilled p = upd_proc p (\<lambda>x. x\<lparr>p_killed := 1\<rparr>)"

definition killed :: "nat \<Rightarrow> kernel \<Rightarrow> bool" where
  "killed p k \<longleftrightarrow> p_killed (k_proc k p) \<noteq> 0"

section \<open>What the scheduling operations do\<close>

definition woken :: "chan option \<Rightarrow> kernel \<Rightarrow> nat \<Rightarrow> bool" where
  "woken c k p \<longleftrightarrow> p \<noteq> k_cur k \<and> p_state (k_proc k p) = SLEEPING \<and> p_chan (k_proc k p) = c"

lemma wakeup_fold:
  "fold (\<lambda>p k. if p \<noteq> k_cur k \<and> p_state (k_proc k p) = SLEEPING \<and> p_chan (k_proc k p) = c
     then upd_proc p (\<lambda>x. x\<lparr>p_state := RUNNABLE\<rparr>) k else k) [0..<n] k =
   k\<lparr>k_proc := (\<lambda>p. if p < n \<and> woken c k p then (k_proc k p)\<lparr>p_state := RUNNABLE\<rparr> else k_proc k p)\<rparr>"
proof (induction n)
  case (Suc n)
  show ?case
    unfolding upt_Suc_append [OF le0] fold_append o_apply Suc.IH
    by (auto simp: upd_proc_def woken_def fun_eq_iff less_Suc_eq intro!: arg_cong [where f = "\<lambda>f. k\<lparr>k_proc := f\<rparr>"])
qed simp

lemma wakeup_eq:
  "wakeup c k = k\<lparr>k_proc := (\<lambda>p. if p < NPROC \<and> woken c k p then (k_proc k p)\<lparr>p_state := RUNNABLE\<rparr> else k_proc k p)\<rparr>"
  unfolding wakeup_def by (rule wakeup_fold)

lemma wakeup_simps [simp]:
  "k_mem (wakeup c k) = k_mem k" "k_log (wakeup c k) = k_log k" "k_cur (wakeup c k) = k_cur k"
  "k_nextpid (wakeup c k) = k_nextpid k" "k_initproc (wakeup c k) = k_initproc k"
  "k_inode (wakeup c k) = k_inode k" "k_file (wakeup c k) = k_file k" "k_pipe (wakeup c k) = k_pipe k"
  "k_out (wakeup c k) = k_out k" "k_cons (wakeup c k) = k_cons k" "k_uart (wakeup c k) = k_uart k"
  "k_ticks (wakeup c k) = k_ticks k" "k_link (wakeup c k) = k_link k" "k_sb (wakeup c k) = k_sb k"
  by (simp_all add: wakeup_eq)

lemma wakeup_proc:
  "k_proc (wakeup c k) p = (if p < NPROC \<and> woken c k p then (k_proc k p)\<lparr>p_state := RUNNABLE\<rparr> else k_proc k p)"
  by (simp add: wakeup_eq)

lemma wakeup_proc_simps [simp]:
  "p_parent (k_proc (wakeup c k) p) = p_parent (k_proc k p)"
  "p_pid (k_proc (wakeup c k) p) = p_pid (k_proc k p)"
  "p_pagetable (k_proc (wakeup c k) p) = p_pagetable (k_proc k p)"
  "p_killed (k_proc (wakeup c k) p) = p_killed (k_proc k p)"
  "p_xstate (k_proc (wakeup c k) p) = p_xstate (k_proc k p)"
  "p_xstatus (k_proc (wakeup c k) p) = p_xstatus (k_proc k p)"
  "p_exit_msg (k_proc (wakeup c k) p) = p_exit_msg (k_proc k p)"
  "p_ofile (k_proc (wakeup c k) p) = p_ofile (k_proc k p)"
  "p_chan (k_proc (wakeup c k) p) = p_chan (k_proc k p)"
  by (simp_all add: wakeup_proc)

lemma sleep_eq:
  "sleep c k = Ret (k\<lparr>k_proc := (k_proc k)(k_cur k := (cur_proc k)\<lparr>p_state := SLEEPING, p_chan := Some c\<rparr>), k_cur := NPROC\<rparr>)"
  by (simp add: sleep_def sched_def upd_proc_def)

text \<open>A process that went to sleep on \<open>c\<close> runs again after a wakeup of \<open>c\<close> by any other.\<close>

lemma sleep_wakeup:
  assumes "k_cur k = p" and "p < NPROC" and "sleep c k = Ret k1" and "k_cur k2 \<noteq> p"
    and "k_proc k2 p = k_proc k1 p"
  shows "p_state (k_proc (wakeup (Some c) k2) p) = RUNNABLE"
  using assms by (auto simp: sleep_eq wakeup_proc woken_def)

section \<open>procdump\<close>

primrec state_name :: "procstate \<Rightarrow> string" where
  "state_name UNUSED = ''unused''"
| "state_name USED = ''used''"
| "state_name SLEEPING = ''sleep ''"
| "state_name RUNNABLE = ''runble''"
| "state_name RUNNING = ''run   ''"
| "state_name ZOMBIE = ''zombie''"

definition procdump :: "kernel \<Rightarrow> kernel outcome" where
  "procdump k =
     obind (kprintf NL [] k) (ofold (\<lambda>p k.
       let x = k_proc k p in
       if p_state x = UNUSED then Ret k
       else obind (kprintf ''%d %s %s'' [AInt (of_int (p_pid x)), AStr (Some (str (state_name (p_state x)))),
              AStr (Some (cstring (p_name x) 16))] k) (kprintf NL []))
       [0..<NPROC])"

end
