(* ===== verification/Xv6_Demo.thy ===== *)
theory Xv6_Demo
  imports Xv6_Sched Xv6_AddrSpace
begin

text \<open>
  A small kernel for the examples: process 0 runs with one user page, everything else is as
  after boot with an empty disk log.
\<close>

definition idle_proc :: proc where
  "idle_proc = \<lparr>p_state = UNUSED, p_chan = None, p_killed = 0, p_xstate = 0, p_pid = 0, p_xstatus = 0,
     p_parent = None, p_kstack = 0, p_sz = 0, p_pagetable = 0, p_trapframe = 0,
     p_context = \<lparr>c_ra = 0, c_sp = 0, c_s = (\<lambda>_. 0)\<rparr>, p_ofile = (\<lambda>_. None), p_cwd = None,
     p_name = (\<lambda>_. 0), p_exit_msg = (\<lambda>_. 0)\<rparr>"

definition demo_proc :: proc where
  "demo_proc = idle_proc\<lparr>p_state := RUNNING, p_pid := 1, p_kstack := KSTACK 0, p_sz := 4096,
     p_pagetable := 0x80001000, p_trapframe := 0x80005000, p_cwd := Some 0\<rparr>"

definition free_inode :: inode where
  "free_inode = \<lparr>i_dev = 0, i_inum = 0, i_ref = 0, i_lock = initsleeplock, i_valid = False, i_type = 0,
     i_major = 0, i_minor = 0, i_nlink = 0, i_size = 0, i_addrs = (\<lambda>_. 0)\<rparr>"

definition free_file :: xfile where
  "free_file = \<lparr>f_type = FD_NONE, f_ref = 0, f_readable = False, f_writable = False, f_pipe = 0,
     f_ip = None, f_off = 0, f_major = 0\<rparr>"

definition zero_pipe :: pipe where
  "zero_pipe = \<lparr>pi_data = (\<lambda>_. 0), pi_nread = 0, pi_nwrite = 0, pi_readopen = True, pi_writeopen = True\<rparr>"

definition demo_kernel :: kernel where
  "demo_kernel = \<lparr>k_mem = demo_mem, k_log = boot 1 (\<lambda>_ _. 0), k_out = \<lparr>panicked = False, thr = []\<rparr>,
     k_proc = (\<lambda>p. if p = 0 then demo_proc else idle_proc), k_cur = 0, k_nextpid = 2,
     k_initproc = None, k_first = False, k_inode = (\<lambda>_. free_inode),
     k_sb = \<lparr>sb_magic = FSMAGIC, sb_size = 2000, sb_nblocks = 1954, sb_ninodes = 200, sb_nlog = 30,
       sb_logstart = 2, sb_inodestart = 32, sb_bmapstart = 45\<rparr>,
     k_file = (\<lambda>_. free_file), k_devsw = (\<lambda>_. \<lparr>d_read = None, d_write = None\<rparr>),
     k_pipe = (\<lambda>_. zero_pipe), k_cons = \<lparr>cons_buf = (\<lambda>_. 0), cons_r = 0, cons_w = 0, cons_e = 0\<rparr>,
     k_uart = \<lparr>uart_tx_buf = (\<lambda>_. 0), uart_tx_w = 0, uart_tx_r = 0, uart_regs = (\<lambda>_. 0),
       lsr_idle = [], rhr = []\<rparr>,
     k_ticks = 0,
     k_link = \<lparr>a_trampoline = 0x80007000, a_uservec = 0x80007000, a_userret = 0x8000709c,
       a_forkret = 0x80001a00, a_usertrap = 0x80002800, a_etext = 0x80008000\<rparr>\<rparr>"

lemma demo_simps [simp]:
  "k_mem demo_kernel = demo_mem" "k_cur demo_kernel = 0" "k_proc demo_kernel 0 = demo_proc"
  "k_pipe demo_kernel a = zero_pipe" "k_nextpid demo_kernel = 2" "p \<noteq> 0 \<Longrightarrow> k_proc demo_kernel p = idle_proc"
  "p_pagetable demo_proc = 0x80001000" "p_state demo_proc = RUNNING" "p_killed demo_proc = 0"
  "p_pid demo_proc = 1" "p_sz demo_proc = 4096" "p_cwd demo_proc = Some 0" "p_state idle_proc = UNUSED"
  by (simp_all add: demo_kernel_def demo_proc_def idle_proc_def)

end
