(* ===== verification/Xv6_ProcTable.thy ===== *)
theory Xv6_ProcTable
  imports Xv6_Demo
begin

text \<open>
  Properties of the process table: process ids are unique, a sleeping process is woken by its
  channel and nothing else, and every pass of the scheduler runs every process that can run.
\<close>

section \<open>Allocating and freeing entries\<close>

lemma on_mem_keeps:
  "on_mem f k = Ret (x, k') \<Longrightarrow> k_proc k' = k_proc k \<and> k_nextpid k' = k_nextpid k \<and> k_cur k' = k_cur k \<and>
     k_file k' = k_file k \<and> k_inode k' = k_inode k \<and> k_initproc k' = k_initproc k"
  by (auto simp: on_mem_def obind_eq_Ret)

lemma run_mem_keeps:
  "run_mem f k = Ret k' \<Longrightarrow> k_proc k' = k_proc k \<and> k_nextpid k' = k_nextpid k \<and> k_cur k' = k_cur k \<and>
     k_file k' = k_file k \<and> k_inode k' = k_inode k \<and> k_initproc k' = k_initproc k"
  by (auto simp: run_mem_def obind_eq_Ret)

lemma proc_freepagetable_keeps:
  "proc_freepagetable pt sz k = Ret k' \<Longrightarrow> k_proc k' = k_proc k \<and> k_nextpid k' = k_nextpid k \<and> k_cur k' = k_cur k"
  by (auto simp: proc_freepagetable_def obind_eq_Ret dest!: run_mem_keeps)

lemma proc_pagetable_keeps:
  "proc_pagetable p k = Ret (pt, k') \<Longrightarrow> k_proc k' = k_proc k \<and> k_nextpid k' = k_nextpid k \<and> k_cur k' = k_cur k"
  by (auto simp: proc_pagetable_def obind_eq_Ret Let_def split: prod.splits if_splits
      dest!: run_mem_keeps on_mem_keeps)

text \<open>What freeproc() makes of the entry.\<close>

definition cleared :: "proc \<Rightarrow> proc" where
  "cleared x = x\<lparr>p_trapframe := 0, p_state := UNUSED, p_chan := None, p_killed := 0, p_xstate := 0,
     p_pid := 0, p_parent := None, p_sz := 0, p_pagetable := 0, p_name := (p_name x)(0 := 0)\<rparr>"

lemma freeproc_eq:
  assumes "freeproc p k = Ret k'"
  shows "k_proc k' = (k_proc k)(p := cleared (k_proc k p))" "k_nextpid k' = k_nextpid k" "k_cur k' = k_cur k"
proof -
  obtain k1 k2 where 1: "(if p_trapframe (k_proc k p) \<noteq> 0 then run_mem (kfree (p_trapframe (k_proc k p))) k else Ret k) = Ret k1"
    and 2: "(if p_pagetable (k_proc k p) \<noteq> 0
       then proc_freepagetable (p_pagetable (k_proc k p)) (p_sz (k_proc k p)) (upd_proc p (\<lambda>x. x\<lparr>p_trapframe := 0\<rparr>) k1)
       else Ret (upd_proc p (\<lambda>x. x\<lparr>p_trapframe := 0\<rparr>) k1)) = Ret k2"
    and 3: "k' = upd_proc p (\<lambda>x. x\<lparr>p_state := UNUSED, p_chan := None, p_killed := 0, p_xstate := 0, p_pid := 0,
        p_parent := None, p_sz := 0, p_pagetable := 0, p_name := (p_name x)(0 := 0)\<rparr>) k2"
    using assms by (auto simp: freeproc_def obind_eq_Ret Let_def)
  have e1: "k_proc k1 = k_proc k \<and> k_nextpid k1 = k_nextpid k \<and> k_cur k1 = k_cur k"
    using 1 by (auto split: if_splits dest!: run_mem_keeps)
  have e2: "k_proc k2 = (k_proc k)(p := (k_proc k p)\<lparr>p_trapframe := 0\<rparr>) \<and> k_nextpid k2 = k_nextpid k \<and> k_cur k2 = k_cur k"
    using 2 e1 by (auto split: if_splits dest!: proc_freepagetable_keeps)
  show "k_proc k' = (k_proc k)(p := cleared (k_proc k p))" "k_nextpid k' = k_nextpid k" "k_cur k' = k_cur k"
    using e2 by (simp_all add: 3 cleared_def)
qed

lemma cleared_simps [simp]: "p_state (cleared x) = UNUSED" "p_pid (cleared x) = 0" "p_parent (cleared x) = None"
  "p_xstatus (cleared x) = p_xstatus x" "p_exit_msg (cleared x) = p_exit_msg x"
  by (simp_all add: cleared_def)

lemma allocproc_cases:
  assumes "allocproc k = Ret (r, k')"
  obtains (full) "r = None" "k' = k" "\<forall>p<NPROC. p_state (k_proc k p) \<noteq> UNUSED"
  | (nomem) p where "r = None" "p < NPROC" "p_state (k_proc k p) = UNUSED" "k_nextpid k' = k_nextpid k + 1"
      "\<And>q. q \<noteq> p \<Longrightarrow> k_proc k' q = k_proc k q" "p_state (k_proc k' p) = UNUSED" "k_cur k' = k_cur k"
  | (found) p where "r = Some p" "p < NPROC" "p_state (k_proc k p) = UNUSED" "k_nextpid k' = k_nextpid k + 1"
      "\<And>q. q \<noteq> p \<Longrightarrow> k_proc k' q = k_proc k q" "p_state (k_proc k' p) = USED" "p_pid (k_proc k' p) = k_nextpid k"
      "k_cur k' = k_cur k"
proof (cases "scan (\<lambda>p. p_state (k_proc k p) = UNUSED) 0 NPROC")
  case None
  then have "\<forall>p<NPROC. p_state (k_proc k p) \<noteq> UNUSED" by (simp add: scan_None_iff)
  with None assms show ?thesis by (intro full) (auto simp: allocproc_def)
next
  case (Some p)
  then have p: "p < NPROC" "p_state (k_proc k p) = UNUSED" by (auto simp: scan_Some_iff)
  have n: "k_nextpid k < 2 ^ 31 - 1" using assms Some by (auto simp: allocproc_def allocpid_def split: if_splits)
  define k1 where "k1 = upd_proc p (\<lambda>x. x\<lparr>p_state := USED, p_pid := k_nextpid k\<rparr>) (k\<lparr>k_nextpid := k_nextpid k + 1\<rparr>)"
  obtain tf s where tf: "kalloc (k_mem k) = (tf, s)" by fastforce
  define k2 where "k2 = upd_proc p (\<lambda>x. x\<lparr>p_trapframe := tf\<rparr>) (k1\<lparr>k_mem := s\<rparr>)"
  have k2: "k_nextpid k2 = k_nextpid k + 1" "\<And>q. q \<noteq> p \<Longrightarrow> k_proc k2 q = k_proc k q" "k_cur k2 = k_cur k"
    "p_state (k_proc k2 p) = USED" "p_pid (k_proc k2 p) = k_nextpid k"
    by (simp_all add: k2_def k1_def)
  have a: "(if tf = 0 then obind (freeproc p k2) (\<lambda>k. Ret (None, k))
      else obind (proc_pagetable p k2) (\<lambda>(pt, k).
        let k = upd_proc p (\<lambda>x. x\<lparr>p_pagetable := pt\<rparr>) k in
        if pt = 0 then obind (freeproc p k) (\<lambda>k. Ret (None, k))
        else Ret (Some p, upd_proc p (\<lambda>x. x\<lparr>p_context :=
              \<lparr>c_ra = a_forkret (k_link k), c_sp = p_kstack x + 4096, c_s = (\<lambda>_. 0)\<rparr>\<rparr>) k))) = Ret (r, k')"
    using assms Some n tf unfolding k2_def k1_def
    by (cases "tf = 0") (simp_all add: allocproc_def allocpid_def kkalloc_def Let_def)
  show ?thesis
  proof (cases "tf = 0")
    case True
    with a have f: "freeproc p k2 = Ret k'" "r = None" by (auto simp: obind_eq_Ret)
    show ?thesis by (rule nomem [of p]) (use freeproc_eq [OF f(1)] f(2) p k2 in auto)
  next
    case False
    with a obtain pt k3 where pt: "proc_pagetable p k2 = Ret (pt, k3)" by (auto simp: obind_eq_Ret)
    note k3 = proc_pagetable_keeps [OF pt]
    show ?thesis
    proof (cases "pt = 0")
      case True
      with a False pt have f: "freeproc p (upd_proc p (\<lambda>x. x\<lparr>p_pagetable := pt\<rparr>) k3) = Ret k'" "r = None"
        by (auto simp: obind_eq_Ret Let_def)
      show ?thesis by (rule nomem [of p]) (use freeproc_eq [OF f(1)] f(2) p k2 k3 in auto)
    next
      case nz: False
      show ?thesis by (rule found [of p]) (use a False pt nz p k2 k3 in \<open>auto simp: Let_def\<close>)
    qed
  qed
qed

section \<open>Process ids\<close>

text \<open>Every entry in use has a pid below the next one, and no two have the same.\<close>

definition pid_inv :: "kernel \<Rightarrow> bool" where
  "pid_inv k \<longleftrightarrow> (\<forall>p<NPROC. p_state (k_proc k p) \<noteq> UNUSED \<longrightarrow> p_pid (k_proc k p) < k_nextpid k) \<and>
     (\<forall>p<NPROC. \<forall>q<NPROC. p \<noteq> q \<longrightarrow> p_state (k_proc k p) \<noteq> UNUSED \<longrightarrow> p_state (k_proc k q) \<noteq> UNUSED \<longrightarrow>
        p_pid (k_proc k p) \<noteq> p_pid (k_proc k q))"

text \<open>The operations that change states and pids, in any order and on behalf of any process.\<close>

inductive table_step :: "kernel \<Rightarrow> kernel \<Rightarrow> bool" where
  alloc: "allocproc k = Ret (r, k') \<Longrightarrow> table_step k k'"
| free: "freeproc p k = Ret k' \<Longrightarrow> table_step k k'"
| wake: "table_step k (wakeup c k)"
| kill: "kill pid k = (r, k') \<Longrightarrow> table_step k k'"
| sleep: "k_cur k < NPROC \<Longrightarrow> p_state (cur_proc k) = RUNNING \<Longrightarrow> sleep c k = Ret k' \<Longrightarrow> table_step k k'"
| yield: "k_cur k < NPROC \<Longrightarrow> p_state (cur_proc k) = RUNNING \<Longrightarrow> yield_cpu k = Ret k' \<Longrightarrow> table_step k k'"
| switch: "scheduler_scan i k = Some (p, k') \<Longrightarrow> table_step k k'"

inductive_cases table_stepE: "table_step k k'"

text \<open>A step that leaves pids alone and uses no entry that was unused keeps the invariant.\<close>

lemma pid_inv_mono:
  assumes "pid_inv k" and "k_nextpid k \<le> k_nextpid k'"
    and "\<And>p. p < NPROC \<Longrightarrow> p_state (k_proc k' p) \<noteq> UNUSED \<Longrightarrow>
      p_state (k_proc k p) \<noteq> UNUSED \<and> p_pid (k_proc k' p) = p_pid (k_proc k p)"
  shows "pid_inv k'"
  unfolding pid_inv_def
proof (intro conjI allI impI)
  fix p assume p: "p < NPROC" "p_state (k_proc k' p) \<noteq> UNUSED"
  from assms(3) [OF p] assms(1) p(1) have "p_pid (k_proc k' p) < k_nextpid k" by (simp add: pid_inv_def)
  with assms(2) show "p_pid (k_proc k' p) < k_nextpid k'" by linarith
  fix q assume q: "q < NPROC" "p \<noteq> q" "p_state (k_proc k' q) \<noteq> UNUSED"
  from assms(3) [OF p] assms(3) [OF q(1,3)] assms(1) p(1) q(1,2)
  show "p_pid (k_proc k' p) \<noteq> p_pid (k_proc k' q)" by (simp add: pid_inv_def)
qed

lemma table_step_pid_inv:
  assumes "table_step k k'" and "pid_inv k"
  shows "pid_inv k'"
  using assms
proof (cases rule: table_step.cases)
  case (alloc r)
  from alloc show ?thesis
  proof (cases rule: allocproc_cases)
    case (found p)
    show ?thesis
      unfolding pid_inv_def
    proof (intro conjI allI impI)
      fix a assume a: "a < NPROC" "p_state (k_proc k' a) \<noteq> UNUSED"
      show "p_pid (k_proc k' a) < k_nextpid k'"
        using found a assms(2) by (cases "a = p") (auto simp: pid_inv_def)
      fix b assume b: "b < NPROC" "a \<noteq> b" "p_state (k_proc k' b) \<noteq> UNUSED"
      have "p_pid (k_proc k c) \<noteq> k_nextpid k" if "c < NPROC" "p_state (k_proc k c) \<noteq> UNUSED" for c
        using assms(2) that by (auto simp: pid_inv_def)
      then show "p_pid (k_proc k' a) \<noteq> p_pid (k_proc k' b)"
        using found a b assms(2) by (cases "a = p"; cases "b = p") (auto simp: pid_inv_def)
    qed
  next
    case (nomem p)
    show ?thesis
    proof (rule pid_inv_mono [OF assms(2)])
      fix a assume "a < NPROC" "p_state (k_proc k' a) \<noteq> UNUSED"
      with nomem show "p_state (k_proc k a) \<noteq> UNUSED \<and> p_pid (k_proc k' a) = p_pid (k_proc k a)"
        by (cases "a = p") auto
    qed (use nomem in simp)
  qed (use assms(2) in simp)
next
  case (free p)
  show ?thesis by (rule pid_inv_mono [OF assms(2)]) (use freeproc_eq [OF free] in \<open>auto split: if_splits\<close>)
next
  case (wake c)
  then show ?thesis by (intro pid_inv_mono [OF assms(2)]) (auto simp: wakeup_proc woken_def split: if_splits)
next
  case (kill pid r)
  then show ?thesis
    by (intro pid_inv_mono [OF assms(2)]) (auto simp: kill_def split: option.splits if_splits)
next
  case (sleep c)
  then show ?thesis by (intro pid_inv_mono [OF assms(2)]) (auto simp: sleep_eq split: if_splits)
next
  case yield
  then show ?thesis
    by (intro pid_inv_mono [OF assms(2)]) (auto simp: yield_cpu_def sched_def split: if_splits)
next
  case (switch i p)
  then show ?thesis
    by (intro pid_inv_mono [OF assms(2)])
      (auto simp: scheduler_scan_def scheduler_try_def scan_Some_iff split: option.splits if_splits)
qed

section \<open>Properties\<close>

text \<open>
  C11. Process ids are unique: however processes are allocated, freed, put to sleep, woken, killed
  and scheduled, two entries of the table in use never have the same pid, and every pid is below
  the next one to be handed out.
\<close>

theorem pids_unique:
  assumes "table_step\<^sup>*\<^sup>* k k'" and "pid_inv k" and "p < NPROC" and "q < NPROC" and "p \<noteq> q"
    and "p_state (k_proc k' p) \<noteq> UNUSED" and "p_state (k_proc k' q) \<noteq> UNUSED"
  shows "p_pid (k_proc k' p) \<noteq> p_pid (k_proc k' q) \<and> p_pid (k_proc k' p) < k_nextpid k'"
proof -
  have "pid_inv k'" using assms(1,2) by (induction rule: rtranclp_induct) (auto intro: table_step_pid_inv)
  with assms(3-7) show ?thesis by (simp add: pid_inv_def)
qed

definition two_procs :: kernel where
  "two_procs = demo_kernel\<lparr>k_proc := (\<lambda>p. if p = 0 then demo_proc
     else if p = 1 then idle_proc\<lparr>p_state := SLEEPING, p_chan := Some ChTicks, p_pid := 1 + 1\<rparr> else idle_proc),
     k_nextpid := 3\<rparr>"

theorem pids_unique_witness:
  "p_pid (k_proc (wakeup (Some ChTicks) two_procs) 0) \<noteq> p_pid (k_proc (wakeup (Some ChTicks) two_procs) 1)"
proof -
  have s: "table_step\<^sup>*\<^sup>* two_procs (wakeup (Some ChTicks) two_procs)" by (simp add: table_step.wake r_into_rtranclp)
  have i: "pid_inv two_procs" by (auto simp: pid_inv_def two_procs_def demo_proc_def idle_proc_def)
  have u: "p_state (k_proc (wakeup (Some ChTicks) two_procs) 0) \<noteq> UNUSED"
    "p_state (k_proc (wakeup (Some ChTicks) two_procs) 1) \<noteq> UNUSED"
    by (auto simp: wakeup_proc woken_def two_procs_def)
  from pids_unique [OF s i _ _ _ u] show ?thesis by simp
qed

text \<open>
  wakeup() makes runnable exactly the processes of the table that sleep on the channel, the
  caller excepted, and changes nothing else of any process.
\<close>

theorem wakeup_exact:
  "k_proc (wakeup c k) p =
     (if p < NPROC \<and> p \<noteq> k_cur k \<and> p_state (k_proc k p) = SLEEPING \<and> p_chan (k_proc k p) = c
      then (k_proc k p)\<lparr>p_state := RUNNABLE\<rparr> else k_proc k p)"
  by (simp add: wakeup_proc woken_def)

lemma scheduler_pass_from:
  assumes "\<And>q k. \<lbrakk>q \<noteq> p; p_state (k_proc k p) = RUNNABLE\<rbrakk> \<Longrightarrow> p_state (k_proc (body q k) p) = RUNNABLE"
    and "p < NPROC" and "i \<le> p" and "p_state (k_proc k p) = RUNNABLE"
  shows "p \<in> set (fst (scheduler_pass body i k))"
  using assms(3,4)
proof (induction "NPROC - i" arbitrary: i k rule: less_induct)
  case less
  have "scan (\<lambda>p. p_state (k_proc k p) = RUNNABLE) i NPROC \<noteq> None"
    using less.prems assms(2) by (auto simp: scan_None_iff)
  then obtain q where q: "scan (\<lambda>p. p_state (k_proc k p) = RUNNABLE) i NPROC = Some q" by blast
  then have b: "i \<le> q" "q < NPROC" "q \<le> p"
    using less.prems by (auto simp: scan_Some_iff intro: leI)
  have st: "scheduler_scan i k = Some (q, scheduler_try q k)" using q by (simp add: scheduler_scan_def)
  show ?case
  proof (cases "q = p")
    case True
    then show ?thesis by (simp add: scheduler_pass.simps [of body i] st split_def Let_def)
  next
    case False
    let ?k = "(body q (scheduler_try q k))\<lparr>k_cur := NPROC\<rparr>"
    have "p_state (k_proc ?k p) = RUNNABLE"
      using assms(1) [OF False, of "scheduler_try q k"] less.prems(2) False by (auto simp: scheduler_try_def)
    then have "p \<in> set (fst (scheduler_pass body (Suc q) ?k))"
      using less.hyps [of "Suc q" ?k] b False by simp
    then show ?thesis by (simp add: scheduler_pass.simps [of body i] st split_def Let_def)
  qed
qed

text \<open>
  What process \<open>q\<close> does to the table while it has the CPU: it allocates entries, frees those of
  children that have exited or never ran, makes a new child runnable, wakes and kills any process, and
  changes its own entry, as sleep(), yield() and exit() do, and anything else of the kernel.
\<close>

inductive proc_step :: "nat \<Rightarrow> kernel \<Rightarrow> kernel \<Rightarrow> bool" for q where
  alloc: "allocproc k = Ret (r, k') \<Longrightarrow> proc_step q k k'"
| free: "p_state (k_proc k r) \<in> {USED, ZOMBIE} \<Longrightarrow> freeproc r k = Ret k' \<Longrightarrow> proc_step q k k'"
| fork: "p_state (k_proc k r) = USED \<Longrightarrow> proc_step q k (upd_proc r (\<lambda>x. x\<lparr>p_state := RUNNABLE\<rparr>) k)"
| wake: "proc_step q k (wakeup c k)"
| kill: "kill pid k = (r, k') \<Longrightarrow> proc_step q k k'"
| own: "(\<And>r. r \<noteq> q \<Longrightarrow> p_state (k_proc k' r) = p_state (k_proc k r)) \<Longrightarrow> proc_step q k k'"

lemma own_sleep: "k_cur k = q \<Longrightarrow> sleep c k = Ret k' \<Longrightarrow> proc_step q k k'"
  by (rule proc_step.own) (auto simp: sleep_def sched_def split: if_splits)

lemma own_yield: "k_cur k = q \<Longrightarrow> yield_cpu k = Ret k' \<Longrightarrow> proc_step q k k'"
  by (rule proc_step.own) (auto simp: yield_cpu_def sched_def split: if_splits)

lemma proc_step_runnable:
  assumes "proc_step q k k'" and "p \<noteq> q" and "p_state (k_proc k p) = RUNNABLE"
  shows "p_state (k_proc k' p) = RUNNABLE"
  using assms(1)
proof cases
  case (alloc r)
  then show ?thesis by (rule allocproc_cases) (use assms(3) in \<open>metis procstate.distinct\<close>)+
next
  case (free r)
  then have "p \<noteq> r" using assms(3) by auto
  then show ?thesis using freeproc_eq(1) [OF free(2)] assms(3) by simp
next
  case (fork r)
  then show ?thesis using assms(3) by (cases "p = r") simp_all
next
  case (wake c)
  then show ?thesis using assms(3) by (simp add: wakeup_proc woken_def)
next
  case (kill pid r)
  then show ?thesis using assms(3) by (auto simp: kill_def split: option.splits if_splits)
next
  case own
  then show ?thesis using assms(2,3) by simp
qed

text \<open>
  C18. No process that can run is left out: in one pass over the table the scheduler switches to
  every process that was runnable when the pass began, whatever the other processes do while they have
  the CPU: allocate, fork, free, wake and kill, also that process, and change themselves.
\<close>

theorem scheduler_reaches_all:
  assumes "\<And>q k. q \<noteq> p \<Longrightarrow> (proc_step q)\<^sup>*\<^sup>* k (body q k)"
    and "p < NPROC" and "p_state (k_proc k p) = RUNNABLE"
  shows "p \<in> set (fst (scheduler_pass body 0 k))"
proof (rule scheduler_pass_from [OF _ assms(2) le0 assms(3)])
  fix q and k :: kernel assume q: "q \<noteq> p" and r: "p_state (k_proc k p) = RUNNABLE"
  from assms(1) [OF q, of k] show "p_state (k_proc (body q k) p) = RUNNABLE"
    by (induction rule: rtranclp_induct) (use q r proc_step_runnable in auto)
qed

text \<open>Process 0 kills process 1 and sleeps.\<close>

theorem scheduler_reaches_all_witness:
  "1 \<in> set (fst (scheduler_pass (\<lambda>q k. upd_proc q (\<lambda>x. x\<lparr>p_state := SLEEPING\<rparr>) (snd (kill 2 k))) 0
     (wakeup (Some ChTicks) two_procs)))"
proof (rule scheduler_reaches_all)
  fix q :: nat and k :: kernel assume "q \<noteq> 1"
  have "proc_step q k (snd (kill 2 k))" by (rule proc_step.kill [of 2 k "fst (kill 2 k)"]) simp
  moreover have "proc_step q (snd (kill 2 k)) (upd_proc q (\<lambda>x. x\<lparr>p_state := SLEEPING\<rparr>) (snd (kill 2 k)))"
    by (rule proc_step.own) simp
  ultimately show "(proc_step q)\<^sup>*\<^sup>* k (upd_proc q (\<lambda>x. x\<lparr>p_state := SLEEPING\<rparr>) (snd (kill 2 k)))" by simp
next
  show "p_state (k_proc (wakeup (Some ChTicks) two_procs) 1) = RUNNABLE"
    by (simp add: wakeup_proc woken_def two_procs_def)
qed simp

end
