(* ===== verification/Xv6_Fs.thy ===== *)
theory Xv6_Fs
  imports Xv6_Sched
begin

text \<open>
  The file system layers of kernel/fs.c above the log: the block allocator, the inode table and
  the inodes on disk, file contents, directories and path names. An inode is an index of the
  table; the fields of the inodes and directories on disk are read and written at their byte
  offsets in the block.
\<close>

section \<open>Super block\<close>

definition readsb :: "u32 \<Rightarrow> kernel \<Rightarrow> kernel outcome" where
  "readsb dev k =
     obind (fs_bread dev 1 k) (\<lambda>(bp, k).
     let d = fs_data bp k in
     fs_brelse bp (k\<lparr>k_sb := \<lparr>sb_magic = load32 d 0, sb_size = load32 d 4, sb_nblocks = load32 d 8,
       sb_ninodes = load32 d 12, sb_nlog = load32 d 16, sb_logstart = load32 d 20,
       sb_inodestart = load32 d 24, sb_bmapstart = load32 d 28\<rparr>\<rparr>))"

definition fsinit :: "u32 \<Rightarrow> kernel \<Rightarrow> kernel outcome" where
  "fsinit dev k =
     obind (readsb dev k) (\<lambda>k.
     if sb_magic (k_sb k) \<noteq> FSMAGIC then opanic ''invalid file system''
     else run_log (initlog dev (sb_logstart (k_sb k)) (sb_nlog (k_sb k))) k)"

section \<open>Blocks\<close>

text \<open>Reading and releasing a block leaves the super block in memory alone.\<close>

lemma fs_bread_sb: "fs_bread dev b k = Ret (i, k') \<Longrightarrow> k_sb k' = k_sb k"
  by (auto simp: fs_bread_def obind_eq_Ret split: prod.splits)

lemma run_log_sb: "run_log f k = Ret k' \<Longrightarrow> k_sb k' = k_sb k"
  by (auto simp: run_log_def obind_eq_Ret)

lemma fs_brelse_sb: "fs_brelse i k = Ret k' \<Longrightarrow> k_sb k' = k_sb k"
  unfolding fs_brelse_def by (rule run_log_sb)

lemmas keeps_sb = fs_bread_sb fs_brelse_sb

definition bzero :: "u32 \<Rightarrow> u32 \<Rightarrow> kernel \<Rightarrow> kernel outcome" where
  "bzero dev bno k =
     obind (fs_bread dev bno k) (\<lambda>(bp, k).
     obind (fs_log_write bp (fs_put bp (memset 0 0 BSIZE (fs_data bp k)) k)) (fs_brelse bp))"

definition BBLOCK :: "u32 \<Rightarrow> kernel \<Rightarrow> u32" where
  "BBLOCK b k = b div 8192 + sb_bmapstart (k_sb k)"

definition IBLOCK :: "u32 \<Rightarrow> kernel \<Rightarrow> u32" where
  "IBLOCK i k = i div 16 + sb_inodestart (k_sb k)"

definition bit_mask :: "nat \<Rightarrow> u8" where
  "bit_mask bi = push_bit (bi mod 8) 1"

definition bit_free :: "bytes \<Rightarrow> nat \<Rightarrow> bool" where
  "bit_free d bi \<longleftrightarrow> d (bi div 8) AND bit_mask bi = 0"

function balloc_loop :: "u32 \<Rightarrow> nat \<Rightarrow> kernel \<Rightarrow> (u32 \<times> kernel) outcome" where
  "balloc_loop dev b k =
     (if b < unat (sb_size (k_sb k)) then
        obind (fs_bread dev (BBLOCK (of_nat b) k) k) (\<lambda>(bp, k1).
          let d = fs_data bp k1 in
          case scan (\<lambda>bi. bit_free d bi) 0 (min BPB (unat (sb_size (k_sb k)) - b)) of
            Some bi \<Rightarrow>
              obind (fs_log_write bp (fs_put bp (d(bi div 8 := d (bi div 8) OR bit_mask bi)) k1)) (\<lambda>k1.
              obind (fs_brelse bp k1) (\<lambda>k1.
              obind (bzero dev (of_nat (b + bi)) k1) (\<lambda>k1. Ret (of_nat (b + bi), k1))))
          | None \<Rightarrow>
              obind (fs_brelse bp k1) (balloc_loop dev (b + BPB)))
      else obind (kprintf (''balloc: out of blocks'' @ NL) [] k) (\<lambda>k. Ret (0, k)))"
  by pat_completeness auto
termination
  by (relation "measure (\<lambda>(dev, b, k). unat (sb_size (k_sb k)) - b)") (auto simp: keeps_sb)

declare balloc_loop.simps [simp del]

definition balloc :: "u32 \<Rightarrow> kernel \<Rightarrow> (u32 \<times> kernel) outcome" where
  "balloc dev = balloc_loop dev 0"

definition bfree :: "u32 \<Rightarrow> u32 \<Rightarrow> kernel \<Rightarrow> kernel outcome" where
  "bfree dev b k =
     obind (fs_bread dev (BBLOCK b k) k) (\<lambda>(bp, k).
     let d = fs_data bp k; bi = unat b mod BPB in
     if bit_free d bi then opanic ''freeing free block''
     else obind (fs_log_write bp (fs_put bp (d(bi div 8 := d (bi div 8) AND NOT (bit_mask bi))) k))
       (fs_brelse bp))"

section \<open>The inode table\<close>

definition iinit :: "kernel \<Rightarrow> kernel" where
  "iinit = fold (\<lambda>i. upd_inode i (\<lambda>x. x\<lparr>i_lock := initsleeplock\<rparr>)) [0..<NINODE]"

definition iget :: "u32 \<Rightarrow> u32 \<Rightarrow> kernel \<Rightarrow> (nat \<times> kernel) outcome" where
  "iget dev inum k =
     (case scan (\<lambda>i. i_ref (k_inode k i) > 0 \<and> i_dev (k_inode k i) = dev \<and> i_inum (k_inode k i) = inum) 0 NINODE of
        Some ip \<Rightarrow> Ret (ip, upd_inode ip (\<lambda>x. x\<lparr>i_ref := i_ref x + 1\<rparr>) k)
      | None \<Rightarrow>
          (case scan (\<lambda>i. i_ref (k_inode k i) = 0) 0 NINODE of
             None \<Rightarrow> opanic ''iget: no inodes''
           | Some ip \<Rightarrow> Ret (ip, upd_inode ip
               (\<lambda>x. x\<lparr>i_dev := dev, i_inum := inum, i_ref := 1, i_valid := False\<rparr>) k)))"

definition idup :: "nat \<Rightarrow> kernel \<Rightarrow> nat \<times> kernel" where
  "idup ip k = (ip, upd_inode ip (\<lambda>x. x\<lparr>i_ref := i_ref x + 1\<rparr>) k)"

definition dinode_off :: "u32 \<Rightarrow> nat" where
  "dinode_off inum = 64 * (unat inum mod IPB)"

function ialloc_loop :: "u32 \<Rightarrow> u16 \<Rightarrow> nat \<Rightarrow> kernel \<Rightarrow> (nat option \<times> kernel) outcome" where
  "ialloc_loop dev type inum k =
     (if inum < unat (sb_ninodes (k_sb k)) then
        obind (fs_bread dev (IBLOCK (of_nat inum) k) k) (\<lambda>(bp, k1).
          let d = fs_data bp k1; dip = dinode_off (of_nat inum) in
          if load16 d dip = 0 then
            obind (fs_log_write bp (fs_put bp (store16 (memset dip 0 64 d) dip type) k1)) (\<lambda>k1.
            obind (fs_brelse bp k1) (\<lambda>k1.
            obind (iget dev (of_nat inum) k1) (\<lambda>(ip, k1). Ret (Some ip, k1))))
          else
            obind (fs_brelse bp k1) (ialloc_loop dev type (Suc inum)))
      else obind (kprintf (''ialloc: no inodes'' @ NL) [] k) (\<lambda>k. Ret (None, k)))"
  by pat_completeness auto
termination
  by (relation "measure (\<lambda>(dev, t, i, k). unat (sb_ninodes (k_sb k)) - i)") (auto simp: keeps_sb)

declare ialloc_loop.simps [simp del]

definition ialloc :: "u32 \<Rightarrow> u16 \<Rightarrow> kernel \<Rightarrow> (nat option \<times> kernel) outcome" where
  "ialloc dev type = ialloc_loop dev type 1"

primrec put_addrs :: "nat \<Rightarrow> (nat \<Rightarrow> u32) \<Rightarrow> nat \<Rightarrow> bytes \<Rightarrow> bytes" where
  "put_addrs 0 a p d = d"
| "put_addrs (Suc n) a p d = store32 (put_addrs n a p d) (p + 4 * n) (a n)"

definition put_dinode :: "inode \<Rightarrow> nat \<Rightarrow> bytes \<Rightarrow> bytes" where
  "put_dinode x dip d =
     put_addrs 13 (i_addrs x) (dip + 12)
       (store32 (store16 (store16 (store16 (store16 d dip (i_type x)) (dip + 2) (i_major x))
          (dip + 4) (i_minor x)) (dip + 6) (i_nlink x)) (dip + 8) (i_size x))"

definition iupdate :: "nat \<Rightarrow> kernel \<Rightarrow> kernel outcome" where
  "iupdate ip k =
     (let x = k_inode k ip in
      obind (fs_bread (i_dev x) (IBLOCK (i_inum x) k) k) (\<lambda>(bp, k).
      obind (fs_log_write bp (fs_put bp (put_dinode x (dinode_off (i_inum x)) (fs_data bp k)) k))
        (fs_brelse bp)))"

definition get_dinode :: "bytes \<Rightarrow> nat \<Rightarrow> inode \<Rightarrow> inode" where
  "get_dinode d dip x = x\<lparr>i_type := load16 d dip, i_major := load16 d (dip + 2),
     i_minor := load16 d (dip + 4), i_nlink := load16 d (dip + 6), i_size := load32 d (dip + 8),
     i_addrs := (\<lambda>j. if j < 13 then load32 d (dip + 12 + 4 * j) else i_addrs x j)\<rparr>"

definition ilock :: "nat \<Rightarrow> kernel \<Rightarrow> kernel outcome" where
  "ilock ip k =
     (if i_ref (k_inode k ip) < 1 then opanic ''ilock''
      else
        obind (acquiresleep (p_pid (cur_proc k)) (i_lock (k_inode k ip))) (\<lambda>lk.
        let k = upd_inode ip (\<lambda>x. x\<lparr>i_lock := lk\<rparr>) k; x = k_inode k ip in
        if i_valid x then Ret k
        else
          obind (fs_bread (i_dev x) (IBLOCK (i_inum x) k) k) (\<lambda>(bp, k).
          let d = fs_data bp k in
          obind (fs_brelse bp (upd_inode ip (get_dinode d (dinode_off (i_inum x))) k)) (\<lambda>k.
          let k = upd_inode ip (\<lambda>x. x\<lparr>i_valid := True\<rparr>) k in
          if i_type (k_inode k ip) = 0 then opanic ''ilock: no type'' else Ret k))))"

definition iunlock :: "nat \<Rightarrow> kernel \<Rightarrow> kernel outcome" where
  "iunlock ip k =
     (if \<not> holdingsleep (p_pid (cur_proc k)) (i_lock (k_inode k ip)) \<or> i_ref (k_inode k ip) < 1
      then opanic ''iunlock''
      else Ret (upd_inode ip (\<lambda>x. x\<lparr>i_lock := releasesleep (i_lock x)\<rparr>) k))"

section \<open>Truncating and dropping inodes\<close>

definition itrunc :: "nat \<Rightarrow> kernel \<Rightarrow> kernel outcome" where
  "itrunc ip k =
     (let dev = i_dev (k_inode k ip) in
      obind (ofold (\<lambda>i k.
          if i_addrs (k_inode k ip) i \<noteq> 0 then
            obind (bfree dev (i_addrs (k_inode k ip) i) k) (\<lambda>k.
            Ret (upd_inode ip (\<lambda>x. x\<lparr>i_addrs := (i_addrs x)(i := 0)\<rparr>) k))
          else Ret k) [0..<NDIRECT] k) (\<lambda>k.
      let ind = i_addrs (k_inode k ip) NDIRECT in
      obind (if ind \<noteq> 0 then
          obind (fs_bread dev ind k) (\<lambda>(bp, k).
          obind (ofold (\<lambda>j k.
              let a = load32 (fs_data bp k) (4 * j) in
              if a \<noteq> 0 then bfree dev a k else Ret k) [0..<NINDIRECT] k) (\<lambda>k.
          obind (fs_brelse bp k) (\<lambda>k.
          obind (bfree dev ind k) (\<lambda>k.
          Ret (upd_inode ip (\<lambda>x. x\<lparr>i_addrs := (i_addrs x)(NDIRECT := 0)\<rparr>) k)))))
        else Ret k) (\<lambda>k.
      iupdate ip (upd_inode ip (\<lambda>x. x\<lparr>i_size := 0\<rparr>) k))))"

definition iput :: "nat \<Rightarrow> kernel \<Rightarrow> kernel outcome" where
  "iput ip k =
     (let x = k_inode k ip in
      obind (if i_ref x = 1 \<and> i_valid x \<and> i_nlink x = 0 then
          obind (acquiresleep (p_pid (cur_proc k)) (i_lock x)) (\<lambda>lk.
          obind (itrunc ip (upd_inode ip (\<lambda>x. x\<lparr>i_lock := lk\<rparr>) k)) (\<lambda>k.
          obind (iupdate ip (upd_inode ip (\<lambda>x. x\<lparr>i_type := 0\<rparr>) k)) (\<lambda>k.
          Ret (upd_inode ip (\<lambda>x. x\<lparr>i_lock := releasesleep (i_lock x), i_valid := False\<rparr>) k))))
        else Ret k) (\<lambda>k.
      Ret (upd_inode ip (\<lambda>x. x\<lparr>i_ref := i_ref x - 1\<rparr>) k)))"

definition iunlockput :: "nat \<Rightarrow> kernel \<Rightarrow> kernel outcome" where
  "iunlockput ip k = obind (iunlock ip k) (iput ip)"

section \<open>Contents\<close>

text \<open>The block number in \<open>addrs[j]\<close>, allocated when it is 0.\<close>

definition bmap_addr :: "nat \<Rightarrow> nat \<Rightarrow> kernel \<Rightarrow> (u32 \<times> kernel) outcome" where
  "bmap_addr ip j k =
     (if i_addrs (k_inode k ip) j = 0 then
        obind (balloc (i_dev (k_inode k ip)) k) (\<lambda>(addr, k).
        if addr = 0 then Ret (0, k)
        else Ret (addr, upd_inode ip (\<lambda>x. x\<lparr>i_addrs := (i_addrs x)(j := addr)\<rparr>) k))
      else Ret (i_addrs (k_inode k ip) j, k))"

text \<open>Entry \<open>n\<close> of the indirect block in buffer \<open>bp\<close>, allocated when it is 0.\<close>

definition bmap_entry :: "u32 \<Rightarrow> nat \<Rightarrow> nat \<Rightarrow> kernel \<Rightarrow> (u32 \<times> kernel) outcome" where
  "bmap_entry dev bp n k =
     (let addr = load32 (fs_data bp k) (4 * n) in
      if addr = 0 then
        obind (balloc dev k) (\<lambda>(addr, k).
        if addr \<noteq> 0 then
          obind (fs_log_write bp (fs_put bp (store32 (fs_data bp k) (4 * n) addr) k)) (\<lambda>k. Ret (addr, k))
        else Ret (addr, k))
      else Ret (addr, k))"

definition bmap :: "nat \<Rightarrow> nat \<Rightarrow> kernel \<Rightarrow> (u32 \<times> kernel) outcome" where
  "bmap ip bn k =
     (if bn < NDIRECT then bmap_addr ip bn k
      else if bn - NDIRECT < NINDIRECT then
        obind (bmap_addr ip NDIRECT k) (\<lambda>(ind, k).
        if ind = 0 then Ret (0, k)
        else
          obind (fs_bread (i_dev (k_inode k ip)) ind k) (\<lambda>(bp, k).
          obind (bmap_entry (i_dev (k_inode k ip)) bp (bn - NDIRECT) k) (\<lambda>(addr, k).
          obind (fs_brelse bp k) (\<lambda>k. Ret (addr, k)))))
      else opanic ''bmap: out of range'')"

record stat =
  st_dev :: u32
  st_ino :: u32
  st_type :: u16
  st_nlink :: u16
  st_size :: u64

definition stati :: "nat \<Rightarrow> kernel \<Rightarrow> stat" where
  "stati ip k = (let x = k_inode k ip in
     \<lparr>st_dev = i_dev x, st_ino = i_inum x, st_type = i_type x, st_nlink = i_nlink x, st_size = ucast (i_size x)\<rparr>)"

text \<open>
  The loops of readi and writei, after the checks that \<open>off + n\<close> does not wrap around: the
  counters are natural numbers.
\<close>

function readi_loop ::
    "nat \<Rightarrow> bool \<Rightarrow> u64 \<Rightarrow> nat \<Rightarrow> nat \<Rightarrow> nat \<Rightarrow> kernel \<Rightarrow> (int \<times> kernel) outcome" where
  "readi_loop ip user_dst dst off tot n k =
     (if tot < n then
        obind (bmap ip (off div BSIZE) k) (\<lambda>(addr, k).
        if addr = 0 then Ret (sint (of_nat tot :: u32), k)
        else
          obind (fs_bread (i_dev (k_inode k ip)) addr k) (\<lambda>(bp, k).
          let m = min (n - tot) (BSIZE - off mod BSIZE) in
          obind (either_copyout user_dst dst (fs_data bp k) (off mod BSIZE) m k) (\<lambda>(r, k).
          obind (fs_brelse bp k) (\<lambda>k.
          if r = -1 then Ret (-1, k)
          else readi_loop ip user_dst (dst + of_nat m) (off + m) (tot + m) n k))))
      else Ret (sint (of_nat tot :: u32), k))"
  by pat_completeness auto
termination
  by (relation "measure (\<lambda>(ip, u, d, off, tot, n, k). n - tot)") auto

declare readi_loop.simps [simp del]

definition readi :: "nat \<Rightarrow> bool \<Rightarrow> u64 \<Rightarrow> u32 \<Rightarrow> u32 \<Rightarrow> kernel \<Rightarrow> (int \<times> kernel) outcome" where
  "readi ip user_dst dst off n k =
     (let size = i_size (k_inode k ip) in
      if off > size \<or> off + n < off then Ret (0, k)
      else
        let n = (if off + n > size then size - off else n)
        in readi_loop ip user_dst dst (unat off) 0 (unat n) k)"

text \<open>The result is the offset and the count when the loop stops.\<close>

function writei_loop ::
    "nat \<Rightarrow> bool \<Rightarrow> u64 \<Rightarrow> nat \<Rightarrow> nat \<Rightarrow> nat \<Rightarrow> kernel \<Rightarrow> (nat \<times> nat \<times> kernel) outcome" where
  "writei_loop ip user_src src off tot n k =
     (if tot < n then
        obind (bmap ip (off div BSIZE) k) (\<lambda>(addr, k).
        if addr = 0 then Ret (off, tot, k)
        else
          obind (fs_bread (i_dev (k_inode k ip)) addr k) (\<lambda>(bp, k).
          let m = min (n - tot) (BSIZE - off mod BSIZE) in
          obind (either_copyin (fs_data bp k) (off mod BSIZE) user_src src m k) (\<lambda>(r, d).
          let k = fs_put bp d k in
          if r = -1 then obind (fs_brelse bp k) (\<lambda>k. Ret (off, tot, k))
          else
            obind (fs_log_write bp k) (\<lambda>k.
            obind (fs_brelse bp k) (\<lambda>k.
            writei_loop ip user_src (src + of_nat m) (off + m) (tot + m) n k)))))
      else Ret (off, tot, k))"
  by pat_completeness auto
termination
  by (relation "measure (\<lambda>(ip, u, d, off, tot, n, k). n - tot)") auto

declare writei_loop.simps [simp del]

definition writei :: "nat \<Rightarrow> bool \<Rightarrow> u64 \<Rightarrow> u32 \<Rightarrow> u32 \<Rightarrow> kernel \<Rightarrow> (int \<times> kernel) outcome" where
  "writei ip user_src src off n k =
     (if off > i_size (k_inode k ip) \<or> off + n < off then Ret (-1, k)
      else if unat (off + n) > MAXFILE * BSIZE then Ret (-1, k)
      else
        obind (writei_loop ip user_src src (unat off) 0 (unat n) k) (\<lambda>(off, tot, k).
        let k = (if off > unat (i_size (k_inode k ip))
                 then upd_inode ip (\<lambda>x. x\<lparr>i_size := of_nat off\<rparr>) k else k) in
        obind (iupdate ip k) (\<lambda>k. Ret (sint (of_nat tot :: u32), k))))"

section \<open>Sizes\<close>

text \<open>No loop over a directory changes the size it runs to.\<close>

lemma run_log_inode: "run_log f k = Ret k' \<Longrightarrow> k_inode k' = k_inode k"
  by (auto simp: run_log_def obind_eq_Ret)

lemma fs_bread_inode: "fs_bread dev b k = Ret (i, k') \<Longrightarrow> k_inode k' = k_inode k"
  by (auto simp: fs_bread_def obind_eq_Ret split: prod.splits)

lemma fs_put_inode [simp]: "k_inode (fs_put i x k) = k_inode k"
  by (simp add: fs_put_def)

lemma fs_brelse_inode: "fs_brelse i k = Ret k' \<Longrightarrow> k_inode k' = k_inode k"
  unfolding fs_brelse_def by (rule run_log_inode)

lemma fs_log_write_inode: "fs_log_write i k = Ret k' \<Longrightarrow> k_inode k' = k_inode k"
  unfolding fs_log_write_def by (rule run_log_inode)

lemma kprintf_inode: "kprintf f a k = Ret k' \<Longrightarrow> k_inode k' = k_inode k"
  by (auto simp: kprintf_def obind_eq_Ret)

lemmas keeps_inode = fs_bread_inode fs_brelse_inode fs_log_write_inode kprintf_inode

lemma bzero_inode: "bzero dev b k = Ret k' \<Longrightarrow> k_inode k' = k_inode k"
  by (auto simp: bzero_def obind_eq_Ret dest!: keeps_inode)

lemma balloc_loop_inode: "balloc_loop dev b k = Ret (a, k') \<Longrightarrow> k_inode k' = k_inode k"
proof (induction dev b k rule: balloc_loop.induct)
  case (1 dev b k)
  show ?case
  proof (cases "b < unat (sb_size (k_sb k))")
    case True
    with "1.prems" obtain bp k1 where r: "fs_bread dev (BBLOCK (of_nat b) k) k = Ret (bp, k1)"
      by (auto simp: balloc_loop.simps [of dev b k] obind_eq_Ret)
    note i1 = fs_bread_inode [OF r]
    show ?thesis
    proof (cases "scan (bit_free (fs_data bp k1)) 0 (min BPB (unat (sb_size (k_sb k)) - b))")
      case None
      with "1.prems" True r obtain k2 where k2: "fs_brelse bp k1 = Ret k2" "balloc_loop dev (b + BPB) k2 = Ret (a, k')"
        by (auto simp: balloc_loop.simps [of dev b k] obind_eq_Ret Let_def)
      from "1.IH" [OF True r refl refl None k2] i1 fs_brelse_inode [OF k2(1)] show ?thesis by simp
    next
      case (Some bi)
      with "1.prems" True r i1 show ?thesis
        by (auto simp: balloc_loop.simps [of dev b k] obind_eq_Ret Let_def dest!: keeps_inode bzero_inode)
    qed
  qed (use "1.prems" in \<open>auto simp: balloc_loop.simps [of dev b k] obind_eq_Ret dest!: keeps_inode\<close>)
qed

lemma balloc_inode: "balloc dev k = Ret (a, k') \<Longrightarrow> k_inode k' = k_inode k"
  unfolding balloc_def by (rule balloc_loop_inode)

lemma bmap_addr_size: "bmap_addr ip n k = Ret (a, k') \<Longrightarrow> i_size (k_inode k' j) = i_size (k_inode k j)"
  by (auto simp: bmap_addr_def obind_eq_Ret split: if_splits dest!: balloc_inode)

lemma bmap_entry_inode: "bmap_entry dev bp n k = Ret (a, k') \<Longrightarrow> k_inode k' = k_inode k"
  by (auto simp: bmap_entry_def obind_eq_Ret Let_def split: if_splits dest!: keeps_inode balloc_inode)

lemma bmap_size:
  assumes "bmap ip bn k = Ret (a, k')"
  shows "i_size (k_inode k' j) = i_size (k_inode k j)"
proof (cases "bn < NDIRECT")
  case False
  with assms obtain ind k1 where a: "bmap_addr ip NDIRECT k = Ret (ind, k1)"
    by (auto simp: bmap_def obind_eq_Ret split: if_splits)
  show ?thesis
  proof (cases "ind = 0")
    case False
    with a \<open>\<not> bn < NDIRECT\<close> assms obtain bp k2 where
      "fs_bread (i_dev (k_inode k1 ip)) ind k1 = Ret (bp, k2)" "k_inode k' = k_inode k2"
      by (auto simp: bmap_def obind_eq_Ret split: if_splits dest!: bmap_entry_inode fs_brelse_inode)
    with bmap_addr_size [OF a] show ?thesis by (auto dest!: fs_bread_inode)
  qed (use assms a \<open>\<not> bn < NDIRECT\<close> bmap_addr_size [OF a] in \<open>auto simp: bmap_def split: if_splits\<close>)
qed (use assms bmap_addr_size in \<open>auto simp: bmap_def\<close>)

lemma either_copyout_inode: "either_copyout u d s off n k = Ret (r, k') \<Longrightarrow> k_inode k' = k_inode k"
  by (auto simp: either_copyout_def on_mem_def kstore_def obind_eq_Ret split: if_splits prod.splits)

lemma readi_loop_size:
  "readi_loop ip u dst off tot n k = Ret (r, k') \<Longrightarrow> i_size (k_inode k' j) = i_size (k_inode k j)"
proof (induction ip u dst off tot n k rule: readi_loop.induct)
  case (1 ip u dst off tot n k)
  show ?case
  proof (cases "tot < n")
    case True
    from "1.prems" True obtain addr k1 where b: "bmap ip (off div BSIZE) k = Ret (addr, k1)"
      by (auto simp: readi_loop.simps [of ip u dst off tot n k] obind_eq_Ret)
    show ?thesis
    proof (cases "addr = 0")
      case True
      with "1.prems" b \<open>tot < n\<close> show ?thesis
        by (auto simp: readi_loop.simps [of ip u dst off tot n k] dest: bmap_size)
    next
      case False
      define m where "m = min (n - tot) (BSIZE - off mod BSIZE)"
      from "1.prems" True False b obtain bp k2 r2 k3 k4 where s:
        "fs_bread (i_dev (k_inode k1 ip)) addr k1 = Ret (bp, k2)"
        "either_copyout u dst (fs_data bp k2) (off mod BSIZE) m k2 = Ret (r2, k3)"
        "fs_brelse bp k3 = Ret k4"
        "(if r2 = -1 then Ret (-1, k4)
          else readi_loop ip u (dst + of_nat m) (off + m) (tot + m) n k4) = Ret (r, k')"
        by (auto simp: readi_loop.simps [of ip u dst off tot n k] obind_eq_Ret m_def [symmetric] Let_def)
      have "k_inode k4 = k_inode k1"
        using s(1-3) by (auto dest!: keeps_inode either_copyout_inode)
      then have e: "i_size (k_inode k4 j) = i_size (k_inode k j)" using bmap_size [OF b] by simp
      show ?thesis
      proof (cases "r2 = -1")
        case False
        then have "readi_loop ip u (dst + of_nat m) (off + m) (tot + m) n k4 = Ret (r, k')" using s(4) by simp
        with "1.IH" [OF True b refl \<open>addr \<noteq> 0\<close> s(1) refl m_def s(2) refl s(3) False] e show ?thesis by simp
      qed (use s(4) e in simp)
    qed
  qed (use "1.prems" in \<open>simp add: readi_loop.simps [of ip u dst off tot n k]\<close>)
qed

lemma readi_size:
  "readi ip u dst off n k = Ret (r, k') \<Longrightarrow> i_size (k_inode k' j) = i_size (k_inode k j)"
  by (auto simp: readi_def Let_def split: if_splits dest: readi_loop_size)

end
