(* ===== verification/Xv6_Dir.thy ===== *)
theory Xv6_Dir
  imports Xv6_Fs
begin

text \<open>
  Directories and path names (the upper half of kernel/fs.c). A path is the list of its
  characters up to the zero byte; a name is a buffer of DIRSIZ bytes.
\<close>

section \<open>Directories\<close>

text \<open>A name is a buffer of DIRSIZ bytes; the two buffers are compared laid side by side.\<close>

definition namecmp :: "bytes \<Rightarrow> bytes \<Rightarrow> int" where
  "namecmp s t = strncmp (\<lambda>a. if a < DIRSIZ then s a else t (a - DIRSIZ)) 0 DIRSIZ DIRSIZ"

abbreviation (input) dirent_size :: nat where "dirent_size \<equiv> 16"

text \<open>The local \<open>struct dirent de\<close> of the functions below.\<close>

definition de_addr :: "kernel \<Rightarrow> u64" where
  "de_addr = local_addr 0"

definition de_inum :: "kernel \<Rightarrow> u16" where
  "de_inum k = load16 (kload k) (unat (de_addr k))"

definition de_name :: "kernel \<Rightarrow> bytes" where
  "de_name k = (\<lambda>i. kload k (unat (de_addr k) + 2 + i))"

function dirlookup_loop :: "nat \<Rightarrow> bytes \<Rightarrow> nat \<Rightarrow> kernel \<Rightarrow> ((nat \<times> u32) option \<times> kernel) outcome" where
  "dirlookup_loop dp name off k =
     (if off < unat (i_size (k_inode k dp)) then
        obind (readi dp False (de_addr k) (of_nat off) 16 k) (\<lambda>(r, k1).
        if r \<noteq> 16 then opanic ''dirlookup read''
        else if de_inum k1 = 0 \<or> namecmp name (de_name k1) \<noteq> 0 then dirlookup_loop dp name (off + dirent_size) k1
        else obind (iget (i_dev (k_inode k1 dp)) (ucast (de_inum k1)) k1) (\<lambda>(ip, k1). Ret (Some (ip, of_nat off), k1)))
      else Ret (None, k))"
  by pat_completeness auto
termination
  by (relation "measure (\<lambda>(dp, name, off, k). unat (i_size (k_inode k dp)) - off)") (auto simp: readi_size)

declare dirlookup_loop.simps [simp del]

definition dirlookup :: "nat \<Rightarrow> bytes \<Rightarrow> kernel \<Rightarrow> ((nat \<times> u32) option \<times> kernel) outcome" where
  "dirlookup dp name k =
     (if i_type (k_inode k dp) \<noteq> T_DIR then opanic ''dirlookup not DIR'' else dirlookup_loop dp name 0 k)"

function dirlink_loop :: "nat \<Rightarrow> nat \<Rightarrow> kernel \<Rightarrow> (nat \<times> kernel) outcome" where
  "dirlink_loop dp off k =
     (if off < unat (i_size (k_inode k dp)) then
        obind (readi dp False (de_addr k) (of_nat off) 16 k) (\<lambda>(r, k1).
        if r \<noteq> 16 then opanic ''dirlink read''
        else if de_inum k1 = 0 then Ret (off, k1)
        else dirlink_loop dp (off + dirent_size) k1)
      else Ret (off, k))"
  by pat_completeness auto
termination
  by (relation "measure (\<lambda>(dp, off, k). unat (i_size (k_inode k dp)) - off)") (auto simp: readi_size)

declare dirlink_loop.simps [simp del]

definition dirlink :: "nat \<Rightarrow> bytes \<Rightarrow> u32 \<Rightarrow> kernel \<Rightarrow> (int \<times> kernel) outcome" where
  "dirlink dp name inum k =
     obind (dirlookup dp name k) (\<lambda>(found, k).
     case found of
       Some (ip, off) \<Rightarrow> obind (iput ip k) (\<lambda>k. Ret (-1, k))
     | None \<Rightarrow>
         obind (dirlink_loop dp 0 k) (\<lambda>(off, k).
         let de = unat (de_addr k); nm = strncpy_buf DIRSIZ (de_name k) name;
             k = kstore (\<lambda>m. store16 (copy_range m (de + 2) nm 0 DIRSIZ) de (ucast inum)) k in
         obind (writei dp False (de_addr k) (of_nat off) 16 k) (\<lambda>(r, k).
         Ret (if r \<noteq> 16 then -1 else 0, k))))"

section \<open>Path names\<close>

abbreviation (input) slash :: u8 where "slash \<equiv> 47"

text \<open>The rest of the path and the name buffer; \<open>None\<close> when there is no name to remove.\<close>

definition skipelem :: "u8 list \<Rightarrow> bytes \<Rightarrow> (u8 list \<times> bytes) option" where
  "skipelem path name =
     (let s = dropWhile (\<lambda>c. c = slash) path in
      if s = [] then None
      else
        let elem = takeWhile (\<lambda>c. c \<noteq> slash) s; rest = dropWhile (\<lambda>c. c \<noteq> slash) s; len = length elem;
            name = (if len \<ge> DIRSIZ then copy_range name 0 (bytes_of elem) 0 DIRSIZ
                    else (copy_range name 0 (bytes_of elem) 0 len)(len := 0))
        in Some (dropWhile (\<lambda>c. c = slash) rest, name))"

lemma skipelem_shorter: "skipelem path name = Some (rest, name') \<Longrightarrow> length rest < length path"
proof -
  assume a: "skipelem path name = Some (rest, name')"
  define s where "s = dropWhile (\<lambda>c. c = slash) path"
  from a have s: "s \<noteq> []" and rest: "rest = dropWhile (\<lambda>c. c = slash) (dropWhile (\<lambda>c. c \<noteq> slash) s)"
    by (auto simp: skipelem_def Let_def s_def split: if_splits)
  have "hd s \<noteq> slash" using hd_dropWhile [of "\<lambda>c. c = slash" path] s by (simp add: s_def)
  then have "length (dropWhile (\<lambda>c. c \<noteq> slash) s) < length s" using s
    by (cases s) (auto simp: le_imp_less_Suc length_dropWhile_le)
  then show ?thesis
    using length_dropWhile_le [of "\<lambda>c. c = slash" path]
      length_dropWhile_le [of "\<lambda>c. c = slash" "dropWhile (\<lambda>c. c \<noteq> slash) s"]
    by (simp add: rest s_def)
qed

text \<open>The loop of namex: the inode reached so far, the rest of the path and the name buffer.\<close>

function namex_loop ::
    "nat \<Rightarrow> u8 list \<Rightarrow> bool \<Rightarrow> bytes \<Rightarrow> kernel \<Rightarrow> (nat option \<times> bytes \<times> kernel) outcome" where
  "namex_loop ip path parent name k =
     (case skipelem path name of
        None \<Rightarrow>
          if parent then obind (iput ip k) (\<lambda>k. Ret (None, name, k)) else Ret (Some ip, name, k)
      | Some (path, name) \<Rightarrow>
          obind (ilock ip k) (\<lambda>k.
          if i_type (k_inode k ip) \<noteq> T_DIR then obind (iunlockput ip k) (\<lambda>k. Ret (None, name, k))
          else if parent \<and> path = [] then obind (iunlock ip k) (\<lambda>k. Ret (Some ip, name, k))
          else
            obind (dirlookup ip name k) (\<lambda>(next, k).
            obind (iunlockput ip k) (\<lambda>k.
            case next of
              None \<Rightarrow> Ret (None, name, k)
            | Some (ip, off) \<Rightarrow> namex_loop ip path parent name k))))"
  by pat_completeness auto
termination
  by (relation "measure (\<lambda>(ip, path, p, name, k). length path)") (auto dest: skipelem_shorter)

declare namex_loop.simps [simp del]

definition namex :: "u8 list \<Rightarrow> bool \<Rightarrow> bytes \<Rightarrow> kernel \<Rightarrow> (nat option \<times> bytes \<times> kernel) outcome" where
  "namex path parent name k =
     obind (if path \<noteq> [] \<and> hd path = slash then iget ROOTDEV ROOTINO k
            else case p_cwd (cur_proc k) of None \<Rightarrow> Fail Undef | Some cwd \<Rightarrow> Ret (idup cwd k))
       (\<lambda>(ip, k). namex_loop ip path parent name k)"

definition namei :: "u8 list \<Rightarrow> kernel \<Rightarrow> (nat option \<times> kernel) outcome" where
  "namei path k = obind (namex path False (\<lambda>_. 0) k) (\<lambda>(ip, name, k). Ret (ip, k))"

definition nameiparent :: "u8 list \<Rightarrow> bytes \<Rightarrow> kernel \<Rightarrow> (nat option \<times> bytes \<times> kernel) outcome" where
  "nameiparent path name = namex path True name"

end
