(* ===== verification/Xv6_Ring.thy ===== *)
theory Xv6_Ring
  imports Xv6_Prelude
begin

text \<open>
  The ring buffers of pipe.c, uart.c and console.c: an array and two free-running word counters
  whose difference is the number of bytes held. The locale states the contract of a bounded
  queue; its lemmas say what a reader and a writer who take turns see.
\<close>

section \<open>Bounded queues\<close>

datatype 'e turn = Put 'e | Take

locale bounded_queue =
  fixes inv :: "'s \<Rightarrow> bool" and content :: "'s \<Rightarrow> 'e list" and cap :: nat
    and full :: "'s \<Rightarrow> bool" and empty :: "'s \<Rightarrow> bool"
    and put :: "'e \<Rightarrow> 's \<Rightarrow> 's" and head :: "'s \<Rightarrow> 'e" and drop1 :: "'s \<Rightarrow> 's"
  assumes bound: "inv s \<Longrightarrow> length (content s) \<le> cap"
    and full_iff: "inv s \<Longrightarrow> full s \<longleftrightarrow> length (content s) = cap"
    and empty_iff: "inv s \<Longrightarrow> empty s \<longleftrightarrow> content s = []"
    and put_inv: "inv s \<Longrightarrow> \<not> full s \<Longrightarrow> inv (put e s)"
    and put_content: "inv s \<Longrightarrow> \<not> full s \<Longrightarrow> content (put e s) = content s @ [e]"
    and drop_inv: "inv s \<Longrightarrow> \<not> empty s \<Longrightarrow> inv (drop1 s)"
    and head_drop: "inv s \<Longrightarrow> \<not> empty s \<Longrightarrow> content s = head s # content (drop1 s)"
begin

text \<open>
  Turns of a writer and a reader: a put into a full queue and a take from an empty one do
  nothing. The result is the state, the elements accepted and the elements delivered.
\<close>

fun turns :: "'e turn list \<Rightarrow> 's \<Rightarrow> 's \<times> 'e list \<times> 'e list" where
  "turns [] s = (s, [], [])"
| "turns (Put e # ts) s =
     (if full s then turns ts s
      else let (s', ins, outs) = turns ts (put e s) in (s', e # ins, outs))"
| "turns (Take # ts) s =
     (if empty s then turns ts s
      else let (s', ins, outs) = turns ts (drop1 s) in (s', ins, head s # outs))"

theorem turns_fifo:
  assumes "inv s" and "turns ts s = (s', ins, outs)"
  shows "inv s'" and "content s @ ins = outs @ content s'"
proof -
  have "inv s' \<and> content s @ ins = outs @ content s'"
    using assms
  proof (induction ts s arbitrary: ins outs rule: turns.induct)
    case (2 e ts s)
    show ?case
    proof (cases "full s")
      case False
      obtain i2 where i: "turns ts (put e s) = (s', i2, outs)" "ins = e # i2"
        using "2.prems"(2) False by (auto split: prod.splits)
      with "2.IH"(2) [OF False put_inv [OF "2.prems"(1) False] i(1)]
        put_content [OF "2.prems"(1) False, of e] show ?thesis by simp
    qed (use 2 in simp)
  next
    case (3 ts s)
    show ?case
    proof (cases "empty s")
      case False
      obtain o2 where i: "turns ts (drop1 s) = (s', ins, o2)" "outs = head s # o2"
        using "3.prems"(2) False by (auto split: prod.splits)
      with "3.IH"(2) [OF False drop_inv [OF "3.prems"(1) False] i(1)]
        head_drop [OF "3.prems"(1) False] show ?thesis by simp
    qed (use 3 in simp)
  qed simp
  then show "inv s'" and "content s @ ins = outs @ content s'" by simp_all
qed

lemma occupancy:
  assumes "inv s" and "turns ts s = (s', ins, outs)"
  shows "length outs \<le> length (content s) + length ins"
    and "length (content s) + length ins \<le> length outs + cap"
proof -
  have "length (content s @ ins) = length (outs @ content s')"
    by (simp only: turns_fifo(2) [OF assms])
  then have e: "length (content s) + length ins = length outs + length (content s')" by simp
  show "length outs \<le> length (content s) + length ins" using e by simp
  show "length (content s) + length ins \<le> length outs + cap"
    using e bound [OF turns_fifo(1) [OF assms]] by simp
qed

lemma put_fills: "inv s \<Longrightarrow> \<not> full s \<Longrightarrow> \<not> empty (put e s)"
  using empty_iff put_inv put_content by (metis append_is_Nil_conv not_Cons_self2)

end

section \<open>Word counters over an array\<close>

definition ring_index :: "nat \<Rightarrow> 'a :: len word \<Rightarrow> nat" where
  "ring_index n x = unat x mod n"

definition ring_content :: "nat \<Rightarrow> (nat \<Rightarrow> 'e) \<Rightarrow> 'a :: len word \<Rightarrow> 'a word \<Rightarrow> 'e list" where
  "ring_content n buf r w = map (\<lambda>i. buf (ring_index n (r + of_nat i))) [0..<unat (w - r)]"

lemma ring_index_add:
  fixes r :: "'a :: len word"
  assumes "n dvd 2 ^ LENGTH('a)"
  shows "ring_index n (r + of_nat i) = (unat r + i) mod n"
proof -
  have "unat (r + of_nat i) = (unat r + i) mod 2 ^ LENGTH('a)"
    by (simp add: unat_word_ariths unat_of_nat mod_add_right_eq)
  with assms show ?thesis by (simp add: ring_index_def mod_mod_cancel)
qed

lemma length_ring_content [simp]: "length (ring_content n buf r w) = unat (w - r)"
  by (simp add: ring_content_def)

lemma ring_put:
  fixes r w :: "'a :: len word"
  assumes n: "n dvd 2 ^ LENGTH('a)" and small: "unat (w - r) < n" and big: "n < 2 ^ LENGTH('a)"
  shows "unat (w + 1 - r) = Suc (unat (w - r))"
    and "ring_content n (buf(ring_index n w := e)) r (w + 1) = ring_content n buf r w @ [e]"
proof -
  define c where "c = unat (w - r)"
  have w: "w = r + of_nat c" by (simp add: c_def)
  have e: "w + 1 - r = (w - r) + 1" by simp
  have "Suc (unat (w - r)) < 2 ^ LENGTH('a)" using small big by simp
  then have "unat ((w - r) + 1) = Suc (unat (w - r))" unfolding unat_word_ariths by simp
  then show s: "unat (w + 1 - r) = Suc (unat (w - r))" by (simp only: e)
  have "ring_index n (r + of_nat i) \<noteq> ring_index n w" if "i < c" for i
  proof
    assume "ring_index n (r + of_nat i) = ring_index n w"
    then have "(unat r + i) mod n = (unat r + c) mod n" by (simp only: w ring_index_add [OF n])
    then have "n dvd (unat r + c) - (unat r + i)" using that by (metis mod_eq_dvd_iff_nat add_le_cancel_left less_imp_le)
    then have "n dvd c - i" by simp
    moreover have "0 < c - i" "c - i < n" using that small by (auto simp: c_def)
    ultimately show False using nat_dvd_not_less by blast
  qed
  then have "map (\<lambda>i. (buf(ring_index n w := e)) (ring_index n (r + of_nat i))) [0..<c] =
      map (\<lambda>i. buf (ring_index n (r + of_nat i))) [0..<c]" by simp
  moreover have "(buf(ring_index n w := e)) (ring_index n (r + of_nat c)) = e"
    by (simp only: w [symmetric] fun_upd_same)
  ultimately show "ring_content n (buf(ring_index n w := e)) r (w + 1) = ring_content n buf r w @ [e]"
    unfolding ring_content_def s by (simp add: c_def [symmetric])
qed

lemma ring_take:
  fixes r w :: "'a :: len word"
  assumes "w \<noteq> r"
  shows "unat (w - (r + 1)) = unat (w - r) - 1"
    and "ring_content n buf r w = buf (ring_index n r) # ring_content n buf (r + 1) w"
proof -
  have e: "w - (r + 1) = (w - r) - 1" by simp
  have nz: "w - r \<noteq> 0" using assms by simp
  show s: "unat (w - (r + 1)) = unat (w - r) - 1" unfolding e by (rule unat_minus_one [OF nz])
  have "0 < unat (w - r)" using nz by (simp add: unat_gt_0)
  then obtain c where c: "unat (w - r) = Suc c" by (cases "unat (w - r)") auto
  have "[0..<Suc c] = 0 # map Suc [0..<c]" by (simp only: map_Suc_upt upt_conv_Cons)
  then show "ring_content n buf r w = buf (ring_index n r) # ring_content n buf (r + 1) w"
    unfolding ring_content_def s c by (simp add: o_def algebra_simps)
qed

lemma ring_empty: "ring_content n buf r w = [] \<longleftrightarrow> r = (w :: 'a :: len word)"
  by (auto simp: ring_content_def unat_eq_zero)

lemma ring_full:
  fixes r w :: "'a :: len word"
  assumes "n < 2 ^ LENGTH('a)"
  shows "unat (w - r) = n \<longleftrightarrow> w = r + of_nat n"
proof
  assume "unat (w - r) = n"
  moreover have "w - r = of_nat (unat (w - r))" by simp
  ultimately have "w - r = of_nat n" by simp
  then show "w = r + of_nat n" by (simp add: algebra_simps)
qed (use assms in \<open>simp add: unat_of_nat\<close>)

lemma ring_mod:
  fixes x :: "'a :: len word"
  assumes "n < 2 ^ LENGTH('a)"
  shows "unat (x mod of_nat n) = ring_index n x"
  using assms by (simp add: ring_index_def unat_mod unat_of_nat)

end
