(* ===== verification/Xv6_Pipe.thy ===== *)
theory Xv6_Pipe
  imports Xv6_Demo Xv6_Ring
begin

text \<open>
  Reading, writing and closing pipes (kernel/pipe.c). A pipe is a ring of PIPESIZE bytes with
  two 32-bit counters that only grow and wrap around together. pipealloc() is with the files.
\<close>

abbreviation (input) PIPESIZE :: u32 where "PIPESIZE \<equiv> 512"

definition pipeclose :: "u64 \<Rightarrow> bool \<Rightarrow> kernel \<Rightarrow> kernel outcome" where
  "pipeclose pi writable k =
     (let k = (if writable then wakeup (Some (ChPipeR pi)) (upd_pipe pi (\<lambda>x. x\<lparr>pi_writeopen := False\<rparr>) k)
               else wakeup (Some (ChPipeW pi)) (upd_pipe pi (\<lambda>x. x\<lparr>pi_readopen := False\<rparr>) k)) in
      if \<not> pi_readopen (k_pipe k pi) \<and> \<not> pi_writeopen (k_pipe k pi) then run_mem (kfree pi) k else Ret k)"

text \<open>\<open>pi->data[pi->nwrite++ % PIPESIZE] = ch\<close> and \<open>ch = pi->data[pi->nread++ % PIPESIZE]\<close>.\<close>

definition pipe_put :: "u8 \<Rightarrow> pipe \<Rightarrow> pipe" where
  "pipe_put ch x = x\<lparr>pi_data := (pi_data x)(unat (pi_nwrite x mod PIPESIZE) := ch), pi_nwrite := pi_nwrite x + 1\<rparr>"

definition pipe_head :: "pipe \<Rightarrow> u8" where
  "pipe_head x = pi_data x (unat (pi_nread x mod PIPESIZE))"

definition pipe_drop :: "pipe \<Rightarrow> pipe" where
  "pipe_drop x = x\<lparr>pi_nread := pi_nread x + 1\<rparr>"

function pipewrite_loop :: "u64 \<Rightarrow> u64 \<Rightarrow> nat \<Rightarrow> nat \<Rightarrow> kernel \<Rightarrow> ((int, nat) run \<times> kernel) outcome" where
  "pipewrite_loop pi addr n i k =
     (let x = k_pipe k pi in
      if i < n then
        (if \<not> pi_readopen x \<or> killed (k_cur k) k then Ret (Done (-1), k)
         else if pi_nwrite x = pi_nread x + PIPESIZE then
           obind (sleep (ChPipeW pi) (wakeup (Some (ChPipeR pi)) k)) (\<lambda>k. Ret (Asleep i, k))
         else
           obind (copyin (p_pagetable (cur_proc k)) (\<lambda>_. 0) 0 (addr + of_nat i) 1 (k_mem k)) (\<lambda>(r, ch).
           if r = -1 then Ret (Done (int i), wakeup (Some (ChPipeR pi)) k)
           else pipewrite_loop pi addr n (Suc i) (upd_pipe pi (pipe_put (ch 0)) k)))
      else Ret (Done (int i), wakeup (Some (ChPipeR pi)) k))"
  by pat_completeness auto
termination
  by (relation "measure (\<lambda>(pi, a, n, i, k). n - i)") auto

declare pipewrite_loop.simps [simp del]

definition pipewrite :: "u64 \<Rightarrow> u64 \<Rightarrow> u32 \<Rightarrow> kernel \<Rightarrow> ((int, nat) run \<times> kernel) outcome" where
  "pipewrite pi addr n = pipewrite_loop pi addr (nat (sint n)) 0"

function piperead_loop :: "u64 \<Rightarrow> u64 \<Rightarrow> nat \<Rightarrow> nat \<Rightarrow> kernel \<Rightarrow> (int \<times> kernel) outcome" where
  "piperead_loop pi addr n i k =
     (let x = k_pipe k pi in
      if i < n \<and> pi_nread x \<noteq> pi_nwrite x then
        obind (on_mem (copyout (p_pagetable (cur_proc k)) (addr + of_nat i) (\<lambda>_. pipe_head x) 0 1)
          (upd_pipe pi pipe_drop k)) (\<lambda>(r, k).
        if r = -1 then Ret (int i, k) else piperead_loop pi addr n (Suc i) k)
      else Ret (int i, k))"
  by pat_completeness auto
termination
  by (relation "measure (\<lambda>(pi, a, n, i, k). n - i)") auto

declare piperead_loop.simps [simp del]

definition piperead :: "u64 \<Rightarrow> u64 \<Rightarrow> u32 \<Rightarrow> kernel \<Rightarrow> ((int, unit) run \<times> kernel) outcome" where
  "piperead pi addr n k =
     (let x = k_pipe k pi in
      if pi_nread x = pi_nwrite x \<and> pi_writeopen x then
        (if killed (k_cur k) k then Ret (Done (-1), k)
         else obind (sleep (ChPipeR pi) k) (\<lambda>k. Ret (Asleep (), k)))
      else
        obind (piperead_loop pi addr (nat (sint n)) 0 k) (\<lambda>(i, k).
        Ret (Done i, wakeup (Some (ChPipeW pi)) k)))"

section \<open>A pipe is a bounded queue\<close>

definition pipe_inv :: "pipe \<Rightarrow> bool" where
  "pipe_inv x \<longleftrightarrow> unat (pi_nwrite x - pi_nread x) \<le> 512"

definition pipe_content :: "pipe \<Rightarrow> u8 list" where
  "pipe_content x = ring_content 512 (pi_data x) (pi_nread x) (pi_nwrite x)"

definition pipe_full :: "pipe \<Rightarrow> bool" where
  "pipe_full x \<longleftrightarrow> pi_nwrite x = pi_nread x + PIPESIZE"

definition pipe_empty :: "pipe \<Rightarrow> bool" where
  "pipe_empty x \<longleftrightarrow> pi_nread x = pi_nwrite x"

lemma pipe_index: "unat (w mod PIPESIZE) = ring_index 512 (w :: u32)"
  using ring_mod [where n = 512 and x = w] by simp

lemma pipe_full_iff: "pipe_inv x \<Longrightarrow> pipe_full x \<longleftrightarrow> unat (pi_nwrite x - pi_nread x) = 512"
  using ring_full [of 512 "pi_nwrite x" "pi_nread x"] by (auto simp: pipe_full_def)

lemma pipe_put_spec:
  assumes "pipe_inv x" and "\<not> pipe_full x"
  shows "unat (pi_nwrite x + 1 - pi_nread x) = Suc (unat (pi_nwrite x - pi_nread x))"
    and "pipe_content (pipe_put e x) = pipe_content x @ [e]"
proof -
  have l: "unat (pi_nwrite x - pi_nread x) < 512"
    using assms pipe_full_iff [OF assms(1)] by (auto simp: pipe_inv_def)
  have d: "512 dvd (2 :: nat) ^ LENGTH(32)" by simp
  note r = ring_put(1) [OF d l] ring_put(2) [OF d l, where buf = "pi_data x" and e = e]
  show "unat (pi_nwrite x + 1 - pi_nread x) = Suc (unat (pi_nwrite x - pi_nread x))" using r(1) by simp
  show "pipe_content (pipe_put e x) = pipe_content x @ [e]"
    using r(2) by (simp add: pipe_content_def pipe_put_def pipe_index)
qed

lemma pipe_drop_spec:
  assumes "\<not> pipe_empty x"
  shows "unat (pi_nwrite x - (pi_nread x + 1)) = unat (pi_nwrite x - pi_nread x) - 1"
    and "pipe_content x = pipe_head x # pipe_content (pipe_drop x)"
  using ring_take(1) [of "pi_nwrite x" "pi_nread x"]
    ring_take(2) [of "pi_nwrite x" "pi_nread x" 512 "pi_data x"] assms
  by (auto simp: pipe_empty_def pipe_content_def pipe_head_def pipe_drop_def pipe_index)

interpretation pq: bounded_queue pipe_inv pipe_content 512 pipe_full pipe_empty pipe_put pipe_head pipe_drop
proof unfold_locales
  fix x e
  show "pipe_inv x \<Longrightarrow> length (pipe_content x) \<le> 512"
    by (simp add: pipe_inv_def pipe_content_def)
  show "pipe_inv x \<Longrightarrow> pipe_full x \<longleftrightarrow> length (pipe_content x) = 512"
    using pipe_full_iff by (simp add: pipe_content_def)
  show "pipe_inv x \<Longrightarrow> pipe_empty x \<longleftrightarrow> pipe_content x = []"
    by (simp add: pipe_empty_def pipe_content_def ring_empty)
  show "pipe_inv x \<Longrightarrow> \<not> pipe_full x \<Longrightarrow> pipe_inv (pipe_put e x)"
    using pipe_put_spec(1) pipe_full_iff [of x] by (auto simp: pipe_inv_def pipe_put_def)
  show "pipe_inv x \<Longrightarrow> \<not> pipe_full x \<Longrightarrow> pipe_content (pipe_put e x) = pipe_content x @ [e]"
    by (rule pipe_put_spec(2))
  show "pipe_inv x \<Longrightarrow> \<not> pipe_empty x \<Longrightarrow> pipe_inv (pipe_drop x)"
    using pipe_drop_spec(1) by (auto simp: pipe_inv_def pipe_drop_def)
  show "pipe_inv x \<Longrightarrow> \<not> pipe_empty x \<Longrightarrow> pipe_content x = pipe_head x # pipe_content (pipe_drop x)"
    by (rule pipe_drop_spec(2))
qed

section \<open>What write() and read() do to the queue\<close>

text \<open>The byte the running process has at user address \<open>a\<close>, as copyin() fetches it.\<close>

definition user_byte :: "u64 \<Rightarrow> u64 \<Rightarrow> physmem \<Rightarrow> u8" where
  "user_byte pt a s = (case copyin pt (\<lambda>_. 0) 0 a 1 s of Ret (r, ch) \<Rightarrow> ch 0 | Fail e \<Rightarrow> 0)"

fun progress :: "(int, nat) run \<Rightarrow> nat option" where
  "progress (Done r) = (if r < 0 then None else Some (nat r))"
| "progress (Asleep i) = Some i"

lemma upd_pipe_simps [simp]:
  "k_pipe (upd_pipe a f k) = (k_pipe k)(a := f (k_pipe k a))" "k_mem (upd_pipe a f k) = k_mem k"
  "k_proc (upd_pipe a f k) = k_proc k" "k_cur (upd_pipe a f k) = k_cur k"
  by (simp_all add: upd_pipe_def)

lemma sleep_pipe: "sleep c k = Ret k' \<Longrightarrow> k_pipe k' = k_pipe k \<and> k_mem k' = k_mem k"
  by (auto simp: sleep_eq)

lemma pipewrite_loop_spec:
  assumes "pipewrite_loop pi addr n i k = Ret (r, k')" and "pipe_inv (k_pipe k pi)" and "i \<le> n"
    and "progress r = Some j"
  shows "i \<le> j \<and> j \<le> n \<and> pipe_inv (k_pipe k' pi) \<and>
    pipe_content (k_pipe k' pi) = pipe_content (k_pipe k pi) @
      map (\<lambda>t. user_byte (p_pagetable (cur_proc k)) (addr + of_nat t) (k_mem k)) [i..<j]"
  using assms
proof (induction pi addr n i k rule: pipewrite_loop.induct)
  case (1 pi addr n i k)
  let ?x = "k_pipe k pi" and ?pt = "p_pagetable (cur_proc k)"
  note unf = pipewrite_loop.simps [of pi addr n i k] Let_def
  show ?case
  proof (cases "i < n \<and> pi_readopen ?x \<and> \<not> killed (k_cur k) k \<and> pi_nwrite ?x \<noteq> pi_nread ?x + PIPESIZE")
    case False
    with 1(2-5) show ?thesis
      by (auto simp: unf obind_eq_Ret split: if_splits dest!: sleep_pipe)
  next
    case True
    with 1(2) obtain c ch where c: "copyin ?pt (\<lambda>_. 0) 0 (addr + of_nat i) 1 (k_mem k) = Ret (c, ch)"
      by (auto simp: unf obind_eq_Ret)
    show ?thesis
    proof (cases "c = -1")
      case True
      with \<open>i < n \<and> _\<close> 1(2-5) c show ?thesis by (auto simp: unf)
    next
      case False
      let ?k = "upd_pipe pi (pipe_put (ch 0)) k"
      have nf: "\<not> pipe_full ?x" using True by (simp add: pipe_full_def)
      have rec: "pipewrite_loop pi addr n (Suc i) ?k = Ret (r, k')"
        using 1(2) True False c by (simp add: unf)
      have inv: "pipe_inv (k_pipe ?k pi)" using pq.put_inv [OF 1(3) nf] by simp
      have u: "user_byte ?pt (addr + of_nat i) (k_mem k) = ch 0" using c by (simp add: user_byte_def)
      have "Suc i \<le> j \<and> j \<le> n \<and> pipe_inv (k_pipe k' pi) \<and>
        pipe_content (k_pipe k' pi) = pipe_content (k_pipe ?k pi) @
          map (\<lambda>t. user_byte (p_pagetable (cur_proc ?k)) (addr + of_nat t) (k_mem ?k)) [Suc i..<j]"
        using "1.IH" [OF refl _ _ _ c refl False rec inv _ 1(5)] True by auto
      then have ih: "Suc i \<le> j" "j \<le> n" "pipe_inv (k_pipe k' pi)"
        "pipe_content (k_pipe k' pi) = pipe_content ?x @ [ch 0] @
          map (\<lambda>t. user_byte ?pt (addr + of_nat t) (k_mem k)) [Suc i..<j]"
        using pq.put_content [OF 1(3) nf, of "ch 0"] by simp_all
      have "[i..<j] = i # [Suc i..<j]" using ih(1) by (simp add: upt_conv_Cons)
      with ih u show ?thesis by simp
    qed
  qed
qed


lemma piperead_loop_spec:
  assumes "pipe_inv (k_pipe k pi)" and "uspace (k_mem k) (p_pagetable (cur_proc k))"
    and "unat addr + n \<le> 0x4000000000" and "\<forall>a \<in> urange addr n. mapped (k_mem k) (p_pagetable (cur_proc k)) a"
    and "i \<le> n"
  shows "\<exists>k'. piperead_loop pi addr n i k = Ret (int (min n (i + length (pipe_content (k_pipe k pi)))), k') \<and>
    pipe_inv (k_pipe k' pi) \<and> pipe_content (k_pipe k' pi) = drop (n - i) (pipe_content (k_pipe k pi)) \<and>
    wrote (k_mem k) (k_mem k') (p_pagetable (cur_proc k)) (addr + of_nat i)
      (\<lambda>t. pipe_content (k_pipe k pi) ! t) 0 (min (n - i) (length (pipe_content (k_pipe k pi))))"
  using assms
proof (induction "n - i" arbitrary: i k)
  case 0
  then have "i = n" by simp
  with 0 show ?case
    by (auto simp: piperead_loop.simps [of pi addr n n k] wrote_nothing)
next
  case (Suc d)
  let ?x = "k_pipe k pi" and ?pt = "p_pagetable (cur_proc k)" and ?c = "pipe_content (k_pipe k pi)"
  show ?case
  proof (cases "pipe_empty ?x")
    case True
    then have "?c = []" using pq.empty_iff [OF Suc.prems(1)] by simp
    with True Suc.prems show ?thesis
      by (auto simp: piperead_loop.simps [of pi addr n i k] pipe_empty_def wrote_nothing Let_def)
  next
    case False
    have lt: "i < n" and d: "d = n - Suc i" using Suc.hyps(2) by simp_all
    note hd = pq.head_drop [OF Suc.prems(1) False]
    have ai: "unat (addr + of_nat i) = unat addr + i" using lt Suc.prems(3) by (intro unat_add_small) simp
    have "urange (addr + of_nat i) 1 \<subseteq> urange addr n" using ai lt by (auto simp: urange_def)
    with Suc.prems(4) have m1: "\<forall>a \<in> urange (addr + of_nat i) 1. mapped (k_mem k) ?pt a" by blast
    obtain s1 where o: "copyout ?pt (addr + of_nat i) (\<lambda>_. pipe_head ?x) 0 1 (k_mem k) = Ret (0, s1)"
      and w: "wrote (k_mem k) s1 ?pt (addr + of_nat i) (\<lambda>_. pipe_head ?x) 0 1"
      using copyout_wrote [OF Suc.prems(2), where va = "addr + of_nat i" and len = 1 and src = "\<lambda>_. pipe_head ?x" and off = 0] m1 by auto
    define k1 where "k1 = (upd_pipe pi pipe_drop k)\<lparr>k_mem := s1\<rparr>"
    have k1: "k_pipe k1 pi = pipe_drop ?x" "k_mem k1 = s1" "k_cur k1 = k_cur k" "k_proc k1 = k_proc k"
      by (simp_all add: k1_def)
    have ev: "piperead_loop pi addr n i k = piperead_loop pi addr n (Suc i) k1"
      using lt False o by (simp add: piperead_loop.simps [of pi addr n i k] pipe_empty_def on_mem_def k1_def Let_def)
    have mp: "mapped s1 ?pt = mapped (k_mem k) ?pt" by (rule wrote_mapped [OF w])
    have "uspace s1 ?pt" using w by (simp add: wrote_def)
    then obtain k' where ih:
      "piperead_loop pi addr n (Suc i) k1 = Ret (int (min n (Suc i + length (pipe_content (pipe_drop ?x)))), k')"
      "pipe_inv (k_pipe k' pi)" "pipe_content (k_pipe k' pi) = drop (n - Suc i) (pipe_content (pipe_drop ?x))"
      "wrote s1 (k_mem k') ?pt (addr + of_nat (Suc i)) (\<lambda>t. pipe_content (pipe_drop ?x) ! t) 0
         (min (n - Suc i) (length (pipe_content (pipe_drop ?x))))"
      using Suc.hyps(1) [OF d, of k1] Suc.prems(3,4) pq.drop_inv [OF Suc.prems(1) False] lt
      by (auto simp: k1 mp)
    have w1: "wrote (k_mem k) s1 ?pt (addr + of_nat i) (\<lambda>t. ?c ! t) 0 1"
      using w hd by (auto simp: wrote_def urange_def)
    have w2: "wrote s1 (k_mem k') ?pt (addr + of_nat (Suc i)) (\<lambda>t. ?c ! t) (0 + 1)
         (min (n - Suc i) (length (pipe_content (pipe_drop ?x))))"
      using ih(4) by (simp add: wrote_def hd)
    have va': "unat (addr + of_nat (Suc i)) = unat (addr + of_nat i) + 1"
    proof -
      have "unat (addr + of_nat (Suc i)) = unat addr + Suc i"
        using lt Suc.prems(3) by (intro unat_add_small) simp
      with ai show ?thesis by simp
    qed
    have len: "1 + min (n - Suc i) (length (pipe_content (pipe_drop ?x))) = min (n - i) (length ?c)"
      using lt hd by (metis (no_types, lifting) Suc_diff_Suc length_Cons min_Suc_Suc plus_1_eq_Suc)
    have "wrote (k_mem k) (k_mem k') ?pt (addr + of_nat i) (\<lambda>t. ?c ! t) 0 (min (n - i) (length ?c))"
      using wrote_trans [OF w1 w2 va'] by (simp only: len)
    moreover have "drop (n - i) ?c = drop (n - Suc i) (pipe_content (pipe_drop ?x))"
      using lt hd by (metis Suc_diff_Suc drop_Suc_Cons)
    moreover have "Suc i + length (pipe_content (pipe_drop ?x)) = i + length ?c"
      using hd by (metis add_Suc_shift length_Cons)
    ultimately show ?thesis using ih(1-3) by (simp add: ev)
  qed
qed

section \<open>Properties\<close>

text \<open>
  C9. A pipe is a first-in first-out queue of at most PIPESIZE bytes: in any interleaving of the
  writer's and the reader's accesses to the ring, the bytes delivered followed by the bytes left
  are the bytes held before followed by the bytes accepted, in order, across the wrap-around of
  the 32-bit counters.
\<close>

theorem pipe_fifo:
  assumes "pipe_inv x" and "pq.turns ts x = (x', ins, outs)"
  shows "pipe_content x @ ins = outs @ pipe_content x' \<and> pipe_inv x' \<and> length (pipe_content x') \<le> 512"
  using pq.turns_fifo [OF assms] pq.bound by blast

theorem pipe_fifo_witness:
  "\<exists>x'. pq.turns [Put 1, Put 2, Take, Take, Take] (zero_pipe\<lparr>pi_nread := - 1, pi_nwrite := - 1\<rparr>) = (x', [1, 2], [1, 2]) \<and>
     pipe_inv x'"
proof -
  let ?x = "zero_pipe\<lparr>pi_nread := - 1, pi_nwrite := - 1\<rparr>"
  have i: "pipe_inv ?x" by (simp add: pipe_inv_def)
  have "\<exists>x'. pq.turns [Put 1, Put 2, Take, Take, Take] ?x = (x', [1, 2], [1, 2])"
    by (simp add: pipe_full_def pipe_empty_def pipe_put_def pipe_head_def pipe_drop_def zero_pipe_def Let_def)
  then obtain x' where x': "pq.turns [Put 1, Put 2, Take, Take, Take] ?x = (x', [1, 2], [1, 2])" ..
  from pipe_fifo [OF i x'] x' show ?thesis by blast
qed

text \<open>
  C17. pipewrite() appends the caller's bytes to the pipe in order, from the first one: whether it
  returns a count or goes to sleep on a full pipe after \<open>j\<close> bytes, exactly the first \<open>j\<close> bytes
  at the user address follow what the pipe held.
\<close>

theorem pipewrite_appends:
  assumes "pipe_inv (k_pipe k pi)" and "pipewrite pi addr n k = Ret (r, k')" and "progress r = Some j"
  shows "j \<le> nat (sint n) \<and> pipe_inv (k_pipe k' pi) \<and>
    pipe_content (k_pipe k' pi) = pipe_content (k_pipe k pi) @
      map (\<lambda>t. user_byte (p_pagetable (cur_proc k)) (addr + of_nat t) (k_mem k)) [0..<j]"
  using pipewrite_loop_spec [OF assms(2) [unfolded pipewrite_def] assms(1) le0 assms(3)] by blast

text \<open>
  C16. piperead() delivers the oldest bytes of the pipe: with \<open>n\<close> bytes asked for and the user
  range mapped it returns the smaller of \<open>n\<close> and the number of bytes held, stores those bytes at
  the user address in order, changes no other user byte and leaves the rest in the pipe.
\<close>

theorem piperead_delivers:
  assumes "pipe_inv (k_pipe k pi)" and "uspace (k_mem k) (p_pagetable (cur_proc k))"
    and "unat addr + nat (sint n) \<le> 0x4000000000"
    and "\<forall>a \<in> urange addr (nat (sint n)). mapped (k_mem k) (p_pagetable (cur_proc k)) a"
    and "pipe_content (k_pipe k pi) \<noteq> [] \<or> \<not> pi_writeopen (k_pipe k pi)"
    and "c = pipe_content (k_pipe k pi)" and "j = min (nat (sint n)) (length c)"
  shows "\<exists>k'. piperead pi addr n k = Ret (Done (int j), k') \<and> pipe_content (k_pipe k' pi) = drop j c \<and>
    (\<forall>a. mapped (k_mem k) (p_pagetable (cur_proc k)) a \<longrightarrow> ubyte (k_mem k') (p_pagetable (cur_proc k)) a =
      (if a \<in> urange addr j then c ! (unat a - unat addr) else ubyte (k_mem k) (p_pagetable (cur_proc k)) a))"
proof -
  obtain k1 where l: "piperead_loop pi addr (nat (sint n)) 0 k = Ret (int j, k1)"
      "pipe_content (k_pipe k1 pi) = drop (nat (sint n)) c"
      "wrote (k_mem k) (k_mem k1) (p_pagetable (cur_proc k)) addr (\<lambda>t. c ! t) 0 j"
    using piperead_loop_spec [OF assms(1-4) le0] by (auto simp: assms(6,7))
  have "drop (nat (sint n)) c = drop j c" by (simp add: assms(7) min_def)
  moreover have "\<not> (pi_nread (k_pipe k pi) = pi_nwrite (k_pipe k pi) \<and> pi_writeopen (k_pipe k pi))"
    using assms(5) pq.empty_iff [OF assms(1)] by (auto simp: pipe_empty_def)
  ultimately show ?thesis using l by (auto simp: piperead_def Let_def wrote_def)
qed

text \<open>Three bytes through a pipe of the demo kernel.\<close>

definition pipe_abc :: pipe where
  "pipe_abc = zero_pipe\<lparr>pi_data := (\<lambda>i. of_nat (65 + i)), pi_nwrite := 3\<rparr>"

lemma pipe_abc: "pipe_inv pipe_abc" "pipe_content pipe_abc = [65, 66, 67]"
  by (simp_all add: pipe_inv_def pipe_content_def pipe_abc_def zero_pipe_def ring_content_def ring_index_def
      upt_conv_Cons)

theorem piperead_delivers_witness:
  "\<exists>k'. piperead 0x80006000 16 2 (upd_pipe 0x80006000 (\<lambda>_. pipe_abc) demo_kernel) = Ret (Done 2, k') \<and>
     pipe_content (k_pipe k' 0x80006000) = [67] \<and> ubyte (k_mem k') 0x80001000 17 = 66"
proof -
  let ?k = "upd_pipe 0x80006000 (\<lambda>_. pipe_abc) demo_kernel"
  have m: "\<forall>a \<in> urange 16 2. mapped demo_mem 0x80001000 a"
    by (auto simp: urange_def demo_mapped vpn_def div_eq_0_iff)
  have k: "pipe_inv (k_pipe ?k 0x80006000)" "uspace (k_mem ?k) (p_pagetable (cur_proc ?k))"
    "unat (16 :: u64) + nat (sint (2 :: u32)) \<le> 0x4000000000"
    "\<forall>a \<in> urange 16 (nat (sint (2 :: u32))). mapped (k_mem ?k) (p_pagetable (cur_proc ?k)) a"
    "pipe_content (k_pipe ?k 0x80006000) \<noteq> [] \<or> \<not> pi_writeopen (k_pipe ?k 0x80006000)"
    "[65, 66, 67] = pipe_content (k_pipe ?k 0x80006000)" "2 = min (nat (sint (2 :: u32))) (length [65 :: u8, 66, 67])"
    using m demo_uspace by (simp_all add: pipe_abc)
  have "mapped demo_mem 0x80001000 17" "(17 :: u64) \<in> urange 16 2"
    by (simp_all add: demo_mapped vpn_def urange_def)
  with piperead_delivers [OF k] show ?thesis by auto
qed

theorem pipewrite_appends_witness:
  "\<exists>r k' j. pipewrite 0x80006000 16 1 (upd_pipe 0x80006000 (\<lambda>_. pipe_abc) demo_kernel) = Ret (r, k') \<and>
     progress r = Some j \<and> length (pipe_content (k_pipe k' 0x80006000)) = 3 + j"
proof -
  let ?k = "upd_pipe 0x80006000 (\<lambda>_. pipe_abc) demo_kernel"
  have m: "\<forall>a \<in> urange 16 1. mapped demo_mem 0x80001000 a"
    by (auto simp: urange_def demo_mapped vpn_def div_eq_0_iff)
  obtain d where c: "copyin 0x80001000 (\<lambda>_. 0) 0 16 1 demo_mem = Ret (0, d)"
    using copyin_fetched [OF demo_uspace, where va = 16 and len = 1 and dst = "\<lambda>_. 0" and off = 0] m by auto
  have "\<exists>k'. pipewrite 0x80006000 16 1 ?k = Ret (Done 1, k')"
    using c by (simp add: pipewrite_def pipewrite_loop.simps killed_def pipe_abc_def zero_pipe_def Let_def)
  then obtain k' where w: "pipewrite 0x80006000 16 1 ?k = Ret (Done 1, k')" ..
  have i: "pipe_inv (k_pipe ?k 0x80006000)" by (simp add: pipe_abc)
  have p: "progress (Done 1) = Some 1" by simp
  from pipewrite_appends [OF i w p] w show ?thesis
    by (intro exI [of _ "Done 1"] exI [of _ k'] exI [of _ 1]) (simp add: pipe_abc)
qed

end
