(* ===== verification/Xv6_Console.thy ===== *)
theory Xv6_Console
  imports Xv6_Demo Xv6_Ring
begin

text \<open>
  The UART and console drivers (kernel/uart.c, kernel/console.c): the transmit ring that
  write() fills and uartstart() drains, and the input ring with its edit, write and read
  indices. Bytes the driver stores in the transmit holding register end up in \<open>thr\<close>.
\<close>

section \<open>UART\<close>

abbreviation (input) UART_TX_BUF_SIZE :: u64 where "UART_TX_BUF_SIZE \<equiv> 32"

definition uart_write_reg :: "nat \<Rightarrow> u8 \<Rightarrow> kernel \<Rightarrow> kernel" where
  "uart_write_reg r v k = k\<lparr>k_uart := (k_uart k)\<lparr>uart_regs := (uart_regs (k_uart k))(r := v)\<rparr>\<rparr>"

text \<open>IER, LCR and FCR are the registers 1, 3 and 2.\<close>

definition uartinit :: "kernel \<Rightarrow> kernel" where
  "uartinit k = fold (\<lambda>(r, v). uart_write_reg r v)
     [(1, 0), (3, 0x80), (0, 3), (1, 0), (3, 3), (2, 7), (1, 3)] k"

definition put_thr :: "u8 \<Rightarrow> kernel \<Rightarrow> kernel" where
  "put_thr c k = k\<lparr>k_out := (k_out k)\<lparr>thr := thr (k_out k) @ [c]\<rparr>\<rparr>"

function uartstart :: "kernel \<Rightarrow> kernel" where
  "uartstart k =
     (let u = k_uart k in
      if uart_tx_w u = uart_tx_r u then k
      else case lsr_idle u of
        [] \<Rightarrow> k
      | idle # lsr \<Rightarrow>
          (let k = k\<lparr>k_uart := u\<lparr>lsr_idle := lsr\<rparr>\<rparr> in
           if \<not> idle then k
           else
             let c = uart_tx_buf u (unat (uart_tx_r u mod UART_TX_BUF_SIZE));
                 k = k\<lparr>k_uart := u\<lparr>uart_tx_r := uart_tx_r u + 1, lsr_idle := lsr\<rparr>\<rparr>
             in uartstart (put_thr c (wakeup (Some ChUartR) k))))"
  by pat_completeness auto
termination
  by (relation "measure (\<lambda>k. length (lsr_idle (k_uart k)))") (auto simp: put_thr_def)

declare uartstart.simps [simp del]

definition uartputc :: "u8 \<Rightarrow> kernel \<Rightarrow> ((unit, unit) run \<times> kernel) outcome" where
  "uartputc c k =
     (let u = k_uart k in
      if panicked (k_out k) then Fail Diverged
      else if uart_tx_w u = uart_tx_r u + UART_TX_BUF_SIZE then
        obind (sleep ChUartR k) (\<lambda>k. Ret (Asleep (), k))
      else Ret (Done (), uartstart (k\<lparr>k_uart := u\<lparr>
        uart_tx_buf := (uart_tx_buf u)(unat (uart_tx_w u mod UART_TX_BUF_SIZE) := c),
        uart_tx_w := uart_tx_w u + 1\<rparr>\<rparr>)))"

text \<open>\<open>None\<close> is the result -1: no input byte is waiting.\<close>

definition uartgetc :: "kernel \<Rightarrow> u8 option \<times> kernel" where
  "uartgetc k = (case rhr (k_uart k) of [] \<Rightarrow> (None, k)
     | c # cs \<Rightarrow> (Some c, k\<lparr>k_uart := (k_uart k)\<lparr>rhr := cs\<rparr>\<rparr>))"

section \<open>Console input\<close>

abbreviation (input) INPUT_BUF_SIZE :: u32 where "INPUT_BUF_SIZE \<equiv> 128"
abbreviation (input) CTRL_P :: u8 where "CTRL_P \<equiv> 16"
abbreviation (input) CTRL_U :: u8 where "CTRL_U \<equiv> 21"
abbreviation (input) CTRL_H :: u8 where "CTRL_H \<equiv> 8"
abbreviation (input) CTRL_D :: u8 where "CTRL_D \<equiv> 4"
abbreviation (input) newline :: u8 where "newline \<equiv> 10"

definition kputc :: "u32 \<Rightarrow> kernel \<Rightarrow> kernel outcome" where
  "kputc c k = obind (consputc c (k_out k)) (\<lambda>u. Ret (k\<lparr>k_out := u\<rparr>))"

lemma kputc_cons: "kputc c k = Ret k' \<Longrightarrow> k_cons k' = k_cons k"
  by (auto simp: kputc_def obind_eq_Ret)

function kill_line :: "kernel \<Rightarrow> kernel outcome" where
  "kill_line k =
     (let s = k_cons k in
      if cons_e s \<noteq> cons_w s \<and> cons_buf s (unat ((cons_e s - 1) mod INPUT_BUF_SIZE)) \<noteq> newline then
        obind (kputc BACKSPACE (k\<lparr>k_cons := s\<lparr>cons_e := cons_e s - 1\<rparr>\<rparr>)) kill_line
      else Ret k)"
  by pat_completeness auto
termination
proof (relation "measure (\<lambda>k. unat (cons_e (k_cons k) - cons_w (k_cons k)))", goal_cases)
  case (2 k s k')
  then have "cons_e (k_cons k') - cons_w (k_cons k') = (cons_e (k_cons k) - cons_w (k_cons k)) - 1"
    by (auto dest!: kputc_cons)
  moreover have "cons_e (k_cons k) - cons_w (k_cons k) \<noteq> 0" using 2 by simp
  ultimately show ?case by (simp add: unat_minus_one unat_gt_0)
qed simp

declare kill_line.simps [simp del]

definition consoleintr :: "u8 \<Rightarrow> kernel \<Rightarrow> kernel outcome" where
  "consoleintr c k =
     (let s = k_cons k in
      if c = CTRL_P then procdump k
      else if c = CTRL_U then kill_line k
      else if c = CTRL_H \<or> c = 0x7F then
        (if cons_e s \<noteq> cons_w s then kputc BACKSPACE (k\<lparr>k_cons := s\<lparr>cons_e := cons_e s - 1\<rparr>\<rparr>) else Ret k)
      else if c \<noteq> 0 \<and> cons_e s - cons_r s < INPUT_BUF_SIZE then
        (let c = (if c = 13 then newline else c) in
         obind (kputc (ucast c) k) (\<lambda>k.
         let s = (k_cons k)\<lparr>cons_buf := (cons_buf s)(unat (cons_e s mod INPUT_BUF_SIZE) := c),
               cons_e := cons_e s + 1\<rparr> in
         if c = newline \<or> c = CTRL_D \<or> cons_e s - cons_r s = INPUT_BUF_SIZE then
           Ret (wakeup (Some ChConsR) (k\<lparr>k_cons := s\<lparr>cons_w := cons_e s\<rparr>\<rparr>))
         else Ret (k\<lparr>k_cons := s\<rparr>)))
      else Ret k)"

text \<open>The bytes waiting in the receive register when the interrupt comes are all consumed.\<close>

definition uartintr :: "kernel \<Rightarrow> kernel outcome" where
  "uartintr k =
     obind (ofold consoleintr (rhr (k_uart k)) (k\<lparr>k_uart := (k_uart k)\<lparr>rhr := []\<rparr>\<rparr>))
       (\<lambda>k. Ret (uartstart k))"

section \<open>Reading and writing the console\<close>

function consolewrite_loop :: "bool \<Rightarrow> u64 \<Rightarrow> nat \<Rightarrow> nat \<Rightarrow> kernel \<Rightarrow> ((int, nat) run \<times> kernel) outcome" where
  "consolewrite_loop user_src src n i k =
     (if i < n then
        obind (either_copyin (\<lambda>_. 0) 0 user_src (src + of_nat i) 1 k) (\<lambda>(r, c).
        if r = -1 then Ret (Done (int i), k)
        else obind (uartputc (c 0) k) (\<lambda>(r, k).
          case r of Asleep _ \<Rightarrow> Ret (Asleep i, k)
          | Done _ \<Rightarrow> consolewrite_loop user_src src n (Suc i) k))
      else Ret (Done (int i), k))"
  by pat_completeness auto
termination
  by (relation "measure (\<lambda>(u, s, n, i, k). n - i)") auto

declare consolewrite_loop.simps [simp del]

definition consolewrite :: "bool \<Rightarrow> u64 \<Rightarrow> u32 \<Rightarrow> kernel \<Rightarrow> ((int, nat) run \<times> kernel) outcome" where
  "consolewrite user_src src n = consolewrite_loop user_src src (nat (sint n)) 0"

function consoleread_loop :: "bool \<Rightarrow> u64 \<Rightarrow> nat \<Rightarrow> nat \<Rightarrow> kernel \<Rightarrow> ((int, nat) run \<times> kernel) outcome" where
  "consoleread_loop user_dst dst target n k =
     (if n > 0 then
        (let s = k_cons k in
         if cons_r s = cons_w s then
           (if killed (k_cur k) k then Ret (Done (-1), k)
            else obind (sleep ChConsR k) (\<lambda>k. Ret (Asleep n, k)))
         else
           (let c = cons_buf s (unat (cons_r s mod INPUT_BUF_SIZE)) in
            if c = CTRL_D then
              Ret (Done (int target - int n),
                if n < target then k else k\<lparr>k_cons := s\<lparr>cons_r := cons_r s + 1\<rparr>\<rparr>)
            else
              obind (either_copyout user_dst dst (\<lambda>_. c) 0 1 (k\<lparr>k_cons := s\<lparr>cons_r := cons_r s + 1\<rparr>\<rparr>)) (\<lambda>(r, k).
              if r = -1 then Ret (Done (int target - int n), k)
              else if c = newline then Ret (Done (int target - int (n - 1)), k)
              else consoleread_loop user_dst (dst + 1) target (n - 1) k)))
      else Ret (Done (int target - int n), k))"
  by pat_completeness auto
termination
  by (relation "measure (\<lambda>(u, d, t, n, k). n)") auto

declare consoleread_loop.simps [simp del]

definition consoleread :: "bool \<Rightarrow> u64 \<Rightarrow> u32 \<Rightarrow> kernel \<Rightarrow> ((int, nat) run \<times> kernel) outcome" where
  "consoleread user_dst dst n = consoleread_loop user_dst dst (nat (sint n)) (nat (sint n))"

definition consoleinit :: "kernel \<Rightarrow> kernel" where
  "consoleinit k = (let k = uartinit k in
     k\<lparr>k_devsw := (k_devsw k)(1 := \<lparr>d_read = Some Consoleread, d_write = Some Consolewrite\<rparr>)\<rparr>)"


section \<open>The transmit ring is a bounded queue\<close>

definition uart_inv :: "uart \<Rightarrow> bool" where
  "uart_inv u \<longleftrightarrow> unat (uart_tx_w u - uart_tx_r u) \<le> 32"

definition uart_content :: "uart \<Rightarrow> u8 list" where
  "uart_content u = ring_content 32 (uart_tx_buf u) (uart_tx_r u) (uart_tx_w u)"

definition uart_full :: "uart \<Rightarrow> bool" where
  "uart_full u \<longleftrightarrow> uart_tx_w u = uart_tx_r u + UART_TX_BUF_SIZE"

definition uart_empty :: "uart \<Rightarrow> bool" where
  "uart_empty u \<longleftrightarrow> uart_tx_w u = uart_tx_r u"

definition uart_put :: "u8 \<Rightarrow> uart \<Rightarrow> uart" where
  "uart_put c u = u\<lparr>uart_tx_buf := (uart_tx_buf u)(unat (uart_tx_w u mod UART_TX_BUF_SIZE) := c),
     uart_tx_w := uart_tx_w u + 1\<rparr>"

definition uart_head :: "uart \<Rightarrow> u8" where
  "uart_head u = uart_tx_buf u (unat (uart_tx_r u mod UART_TX_BUF_SIZE))"

definition uart_drop :: "uart \<Rightarrow> uart" where
  "uart_drop u = u\<lparr>uart_tx_r := uart_tx_r u + 1\<rparr>"

lemma uart_index: "unat (w mod UART_TX_BUF_SIZE) = ring_index 32 (w :: u64)"
  using ring_mod [where n = 32 and x = w] by simp

lemma uart_full_iff: "uart_inv u \<Longrightarrow> uart_full u \<longleftrightarrow> unat (uart_tx_w u - uart_tx_r u) = 32"
  using ring_full [of 32 "uart_tx_w u" "uart_tx_r u"] by (auto simp: uart_full_def)

lemma uart_put_spec:
  assumes "uart_inv u" and "\<not> uart_full u"
  shows "unat (uart_tx_w u + 1 - uart_tx_r u) = Suc (unat (uart_tx_w u - uart_tx_r u))"
    and "uart_content (uart_put e u) = uart_content u @ [e]"
proof -
  have l: "unat (uart_tx_w u - uart_tx_r u) < 32"
    using assms uart_full_iff [OF assms(1)] by (auto simp: uart_inv_def)
  have d: "32 dvd (2 :: nat) ^ LENGTH(64)" by simp
  note r = ring_put(1) [OF d l] ring_put(2) [OF d l, where buf = "uart_tx_buf u" and e = e]
  show "unat (uart_tx_w u + 1 - uart_tx_r u) = Suc (unat (uart_tx_w u - uart_tx_r u))" using r(1) by simp
  show "uart_content (uart_put e u) = uart_content u @ [e]"
    using r(2) by (simp add: uart_content_def uart_put_def uart_index)
qed

lemma uart_drop_spec:
  assumes "\<not> uart_empty u"
  shows "unat (uart_tx_w u - (uart_tx_r u + 1)) = unat (uart_tx_w u - uart_tx_r u) - 1"
    and "uart_content u = uart_head u # uart_content (uart_drop u)"
  using ring_take(1) [of "uart_tx_w u" "uart_tx_r u"]
    ring_take(2) [of "uart_tx_w u" "uart_tx_r u" 32 "uart_tx_buf u"] assms
  by (auto simp: uart_empty_def uart_content_def uart_head_def uart_drop_def uart_index)

interpretation uq: bounded_queue uart_inv uart_content 32 uart_full uart_empty uart_put uart_head uart_drop
proof unfold_locales
  fix u e
  show "uart_inv u \<Longrightarrow> length (uart_content u) \<le> 32"
    by (simp add: uart_inv_def uart_content_def)
  show "uart_inv u \<Longrightarrow> uart_full u \<longleftrightarrow> length (uart_content u) = 32"
    using uart_full_iff by (simp add: uart_content_def)
  show "uart_inv u \<Longrightarrow> uart_empty u \<longleftrightarrow> uart_content u = []"
    by (auto simp: uart_empty_def uart_content_def ring_empty)
  show "uart_inv u \<Longrightarrow> \<not> uart_full u \<Longrightarrow> uart_inv (uart_put e u)"
    using uart_put_spec(1) uart_full_iff [of u] by (auto simp: uart_inv_def uart_put_def)
  show "uart_inv u \<Longrightarrow> \<not> uart_full u \<Longrightarrow> uart_content (uart_put e u) = uart_content u @ [e]"
    by (rule uart_put_spec(2))
  show "uart_inv u \<Longrightarrow> \<not> uart_empty u \<Longrightarrow> uart_inv (uart_drop u)"
    using uart_drop_spec(1) by (auto simp: uart_inv_def uart_drop_def)
  show "uart_inv u \<Longrightarrow> \<not> uart_empty u \<Longrightarrow> uart_content u = uart_head u # uart_content (uart_drop u)"
    by (rule uart_drop_spec(2))
qed

lemma uart_lsr [simp]: "uart_inv (u\<lparr>lsr_idle := l\<rparr>) = uart_inv u" "uart_content (u\<lparr>lsr_idle := l\<rparr>) = uart_content u"
  by (simp_all add: uart_inv_def uart_content_def)

text \<open>What the UART has been given so far and will be given: the bytes sent, then those waiting.\<close>

definition uart_stream :: "kernel \<Rightarrow> u8 list" where
  "uart_stream k = thr (k_out k) @ uart_content (k_uart k)"

lemma uartstart_stream:
  "uart_inv (k_uart k) \<Longrightarrow> uart_inv (k_uart (uartstart k)) \<and> uart_stream (uartstart k) = uart_stream k"
proof (induction k rule: uartstart.induct)
  case (1 k)
  let ?u = "k_uart k"
  note unf = uartstart.simps [of k] Let_def
  show ?case
  proof (cases "\<not> uart_empty ?u \<and> lsr_idle ?u \<noteq> [] \<and> hd (lsr_idle ?u)")
    case True
    then obtain lsr where lsr: "lsr_idle ?u = True # lsr" by (cases "lsr_idle ?u") auto
    let ?k1 = "k\<lparr>k_uart := ?u\<lparr>uart_tx_r := uart_tx_r ?u + 1, lsr_idle := lsr\<rparr>\<rparr>"
    let ?k2 = "put_thr (uart_head ?u) (wakeup (Some ChUartR) ?k1)"
    have ev: "uartstart k = uartstart ?k2"
      using True lsr by (simp add: unf uart_empty_def uart_head_def)
    have u2: "k_uart ?k2 = (uart_drop ?u)\<lparr>lsr_idle := lsr\<rparr>" "thr (k_out ?k2) = thr (k_out k) @ [uart_head ?u]"
      by (simp_all add: put_thr_def uart_drop_def)
    have "uart_inv (k_uart ?k2)" using uq.drop_inv [OF "1.prems"] True by (simp add: u2)
    moreover have "uart_stream ?k2 = uart_stream k"
      using uq.head_drop [OF "1.prems"] True by (simp add: uart_stream_def u2)
    ultimately show ?thesis
      using "1.IH" [OF refl _ lsr refl _ refl refl] True by (simp add: ev uart_empty_def uart_head_def)
  next
    case False
    then have "k_uart (uartstart k) = ?u \<or> (\<exists>l. k_uart (uartstart k) = ?u\<lparr>lsr_idle := l\<rparr>)" "k_out (uartstart k) = k_out k"
      by (auto simp: unf uart_empty_def split: list.splits)
    then show ?thesis using "1.prems" by (auto simp: uart_stream_def)
  qed
qed


section \<open>The input ring\<close>

text \<open>The read index never passes the write index, nor that the edit index, nor that the ring's size.\<close>

definition cons_inv :: "cons \<Rightarrow> bool" where
  "cons_inv s \<longleftrightarrow> unat (cons_w s - cons_r s) \<le> unat (cons_e s - cons_r s) \<and> unat (cons_e s - cons_r s) \<le> 128"

text \<open>The bytes read() may take, and those still being edited.\<close>

definition cons_lines :: "cons \<Rightarrow> u8 list" where
  "cons_lines s = ring_content 128 (cons_buf s) (cons_r s) (cons_w s)"

definition cons_typed :: "cons \<Rightarrow> u8 list" where
  "cons_typed s = ring_content 128 (cons_buf s) (cons_r s) (cons_e s)"

lemma cons_index: "unat (w mod INPUT_BUF_SIZE) = ring_index 128 (w :: u32)"
  using ring_mod [where n = 128 and x = w] by simp

lemma lines_prefix:
  assumes "cons_inv s"
  shows "cons_lines s = take (unat (cons_w s - cons_r s)) (cons_typed s)"
  using assms by (simp add: cons_lines_def cons_typed_def ring_content_def cons_inv_def take_map)

lemma cons_back:
  assumes "cons_inv s" and "cons_e s \<noteq> cons_w s"
  shows "cons_inv (s\<lparr>cons_e := cons_e s - 1\<rparr>)" "cons_lines (s\<lparr>cons_e := cons_e s - 1\<rparr>) = cons_lines s"
proof -
  have ne: "cons_e s - cons_r s \<noteq> cons_w s - cons_r s" using assms(2) by simp
  then have "unat (cons_e s - cons_r s) \<noteq> unat (cons_w s - cons_r s)" by (simp add: word_unat_eq_iff)
  with assms(1) have l: "unat (cons_w s - cons_r s) < unat (cons_e s - cons_r s)" by (simp add: cons_inv_def)
  then have nz: "cons_e s - cons_r s \<noteq> 0" by auto
  have "cons_e s - 1 - cons_r s = (cons_e s - cons_r s) - 1" by simp
  then have "unat (cons_e s - 1 - cons_r s) = unat (cons_e s - cons_r s) - 1" by (simp only: unat_minus_one [OF nz])
  with l assms(1) show "cons_inv (s\<lparr>cons_e := cons_e s - 1\<rparr>)" by (auto simp: cons_inv_def)
qed (simp add: cons_lines_def)

lemma cons_type:
  fixes c :: u8
  assumes "cons_inv s" and "cons_e s - cons_r s < INPUT_BUF_SIZE"
  defines "s' \<equiv> s\<lparr>cons_buf := (cons_buf s)(unat (cons_e s mod INPUT_BUF_SIZE) := c), cons_e := cons_e s + 1\<rparr>"
  shows "cons_inv s'" "cons_typed s' = cons_typed s @ [c]" "cons_lines s' = cons_lines s"
    "cons_inv (s'\<lparr>cons_w := cons_e s'\<rparr>)" "cons_lines (s'\<lparr>cons_w := cons_e s'\<rparr>) = cons_typed s @ [c]"
proof -
  have l: "unat (cons_e s - cons_r s) < 128" using assms(2) by (simp add: word_less_nat_alt)
  have d: "128 dvd (2 :: nat) ^ LENGTH(32)" by simp
  note r = ring_put(1) [OF d l] ring_put(2) [OF d l, where buf = "cons_buf s" and e = c]
  have e: "unat (cons_e s' - cons_r s') = Suc (unat (cons_e s - cons_r s))" using r(1) by (simp add: s'_def)
  show i: "cons_inv s'" using assms(1) l e by (simp add: cons_inv_def s'_def)
  show t: "cons_typed s' = cons_typed s @ [c]" using r(2) by (simp add: cons_typed_def s'_def cons_index)
  show "cons_lines s' = cons_lines s"
    using lines_prefix [OF i] lines_prefix [OF assms(1)] t assms(1)
    by (simp add: s'_def cons_inv_def cons_typed_def)
  show "cons_inv (s'\<lparr>cons_w := cons_e s'\<rparr>)" using l e by (simp add: cons_inv_def s'_def)
  show "cons_lines (s'\<lparr>cons_w := cons_e s'\<rparr>) = cons_typed s @ [c]"
    using t by (simp add: cons_lines_def cons_typed_def)
qed

lemma kill_line_inv:
  "kill_line k = Ret k' \<Longrightarrow> cons_inv (k_cons k) \<Longrightarrow> cons_inv (k_cons k') \<and> cons_lines (k_cons k') = cons_lines (k_cons k)"
proof (induction k rule: kill_line.induct)
  case (1 k)
  let ?s = "k_cons k"
  show ?case
  proof (cases "cons_e ?s \<noteq> cons_w ?s \<and> cons_buf ?s (unat ((cons_e ?s - 1) mod INPUT_BUF_SIZE)) \<noteq> newline")
    case True
    with "1.prems"(1) obtain k1 where k1: "kputc BACKSPACE (k\<lparr>k_cons := ?s\<lparr>cons_e := cons_e ?s - 1\<rparr>\<rparr>) = Ret k1"
      "kill_line k1 = Ret k'"
      by (auto simp: kill_line.simps [of k] Let_def obind_eq_Ret)
    have e: "k_cons k1 = ?s\<lparr>cons_e := cons_e ?s - 1\<rparr>" using kputc_cons [OF k1(1)] by simp
    with "1.IH" [OF refl True k1] cons_back [OF "1.prems"(2)] True show ?thesis by simp
  qed (use "1.prems" in \<open>auto simp: kill_line.simps [of k] Let_def\<close>)
qed

lemma kprintf_cons: "kprintf f a k = Ret k' \<Longrightarrow> k_cons k' = k_cons k"
  by (auto simp: kprintf_def obind_eq_Ret)

lemma procdump_cons:
  assumes "procdump k = Ret k'"
  shows "k_cons k' = k_cons k"
proof -
  obtain k1 where k1: "kprintf NL [] k = Ret k1" and f: "ofold (\<lambda>p k. let x = k_proc k p in
       if p_state x = UNUSED then Ret k
       else obind (kprintf ''%d %s %s'' [AInt (of_int (p_pid x)), AStr (Some (str (state_name (p_state x)))),
              AStr (Some (cstring (p_name x) 16))] k) (kprintf NL [])) [0..<NPROC] k1 = Ret k'"
    using assms by (auto simp: procdump_def obind_eq_Ret)
  show ?thesis
    by (rule ofold_inv [OF f, of "\<lambda>k'. k_cons k' = k_cons k"])
      (auto simp: kprintf_cons [OF k1] obind_eq_Ret Let_def dest!: kprintf_cons split: if_splits)
qed

lemma consoleintr_inv:
  assumes "consoleintr c k = Ret k'" and "cons_inv (k_cons k)"
  shows "cons_inv (k_cons k')" and "\<exists>ys. cons_lines (k_cons k') = cons_lines (k_cons k) @ ys"
proof -
  let ?s = "k_cons k"
  have "cons_inv (k_cons k') \<and> (\<exists>ys. cons_lines (k_cons k') = cons_lines (k_cons k) @ ys)"
  proof (cases "c = CTRL_P \<or> c = CTRL_U \<or> c = CTRL_H \<or> c = 0x7F \<or> c = 0 \<or> \<not> cons_e ?s - cons_r ?s < INPUT_BUF_SIZE")
    case True
    then show ?thesis
      using assms cons_back [OF assms(2)] kill_line_inv [OF _ assms(2)]
      by (auto simp: consoleintr_def Let_def split: if_splits dest!: procdump_cons kputc_cons)
  next
    case False
    define d where "d = (if c = 13 then newline else c)"
    define s1 where "s1 = ?s\<lparr>cons_buf := (cons_buf ?s)(unat (cons_e ?s mod INPUT_BUF_SIZE) := d), cons_e := cons_e ?s + 1\<rparr>"
    have lt: "cons_e ?s - cons_r ?s < INPUT_BUF_SIZE" using False by simp
    note ty = cons_type [OF assms(2) lt, of d, folded s1_def]
    from False assms(1) obtain k1 where k1: "kputc (ucast d) k = Ret k1" and
      k': "k_cons k' = s1 \<or> k_cons k' = s1\<lparr>cons_w := cons_e s1\<rparr>"
      by (auto simp: consoleintr_def Let_def obind_eq_Ret d_def s1_def kputc_cons split: if_splits)
    have "cons_typed ?s = cons_lines ?s @ drop (unat (cons_w ?s - cons_r ?s)) (cons_typed ?s)"
      using lines_prefix [OF assms(2)] by simp
    then have "\<exists>ys. cons_typed ?s @ [d] = cons_lines ?s @ ys" by (metis append.assoc)
    with k' ty show ?thesis by auto
  qed
  then show "cons_inv (k_cons k')" and "\<exists>ys. cons_lines (k_cons k') = cons_lines (k_cons k) @ ys" by auto
qed


section \<open>Properties\<close>

text \<open>
  C22. What a process writes to the console reaches the UART in order: uartputc() puts its byte
  after everything sent or waiting, uartstart() only moves bytes from the ring to the device,
  and the call sleeps exactly when all UART_TX_BUF_SIZE places are taken.
\<close>

theorem uart_in_order:
  assumes "uart_inv (k_uart k)" and "\<not> panicked (k_out k)"
  shows "if length (uart_content (k_uart k)) = 32
    then (\<exists>k'. uartputc c k = Ret (Asleep (), k') \<and> uart_stream k' = uart_stream k)
    else (\<exists>k'. uartputc c k = Ret (Done (), k') \<and> uart_inv (k_uart k') \<and> uart_stream k' = uart_stream k @ [c])"
proof (cases "uart_full (k_uart k)")
  case True
  with assms(2) uq.full_iff [OF assms(1)] show ?thesis
    by (auto simp: uartputc_def Let_def uart_full_def sleep_eq uart_stream_def)
next
  case False
  let ?k = "k\<lparr>k_uart := uart_put c (k_uart k)\<rparr>"
  have i: "uart_inv (k_uart ?k)" using uq.put_inv [OF assms(1) False] by simp
  have "uart_stream ?k = uart_stream k @ [c]"
    using uq.put_content [OF assms(1) False] by (simp add: uart_stream_def)
  moreover have "uartputc c k = Ret (Done (), uartstart ?k)"
    using False assms(2) by (simp add: uartputc_def Let_def uart_full_def uart_put_def)
  ultimately show ?thesis using False uq.full_iff [OF assms(1)] uartstart_stream [OF i] by auto
qed

theorem uart_in_order_witness:
  "\<exists>k'. uartputc 65 (demo_kernel\<lparr>k_uart := (k_uart demo_kernel)\<lparr>lsr_idle := [True]\<rparr>\<rparr>) = Ret (Done (), k') \<and>
     uart_stream k' = [65]"
proof -
  let ?k = "demo_kernel\<lparr>k_uart := (k_uart demo_kernel)\<lparr>lsr_idle := [True]\<rparr>\<rparr>"
  have "uart_inv (k_uart ?k)" "\<not> panicked (k_out ?k)" "uart_content (k_uart ?k) = []" "uart_stream ?k = []"
    by (simp_all add: demo_kernel_def uart_inv_def uart_content_def ring_content_def uart_stream_def)
  with uart_in_order [of ?k 65] show ?thesis by auto
qed

text \<open>
  C19. Line editing: the interrupt handler keeps the three indices of the input ring in order
  and within its size, and the bytes already committed to readers are never erased or changed by
  backspace, kill-line or further typing; they are only added to.
\<close>

theorem console_editing:
  assumes "cons_inv (k_cons k)" and "ofold consoleintr cs k = Ret k'"
  shows "cons_inv (k_cons k') \<and> (\<exists>ys. cons_lines (k_cons k') = cons_lines (k_cons k) @ ys)"
proof (rule ofold_inv [OF assms(2), of "\<lambda>k'. cons_inv (k_cons k') \<and> (\<exists>ys. cons_lines (k_cons k') = cons_lines (k_cons k) @ ys)"])
  show "cons_inv (k_cons k) \<and> (\<exists>ys. cons_lines (k_cons k) = cons_lines (k_cons k) @ ys)" using assms(1) by auto
  fix c k1 k2
  assume "cons_inv (k_cons k1) \<and> (\<exists>ys. cons_lines (k_cons k1) = cons_lines (k_cons k) @ ys)"
    and s: "consoleintr c k1 = Ret k2"
  then obtain ys zs where "cons_inv (k_cons k2)" "cons_lines (k_cons k1) = cons_lines (k_cons k) @ ys"
    "cons_lines (k_cons k2) = cons_lines (k_cons k1) @ zs"
    using consoleintr_inv [OF s] by blast
  then show "cons_inv (k_cons k2) \<and> (\<exists>ys. cons_lines (k_cons k2) = cons_lines (k_cons k) @ ys)" by auto
qed

theorem console_editing_witness:
  "\<exists>k'. ofold consoleintr [97, 8] demo_kernel = Ret k' \<and> cons_inv (k_cons k') \<and> cons_e (k_cons k') = 0"
proof -
  have i: "cons_inv (k_cons demo_kernel)" by (simp add: cons_inv_def demo_kernel_def)
  have e: "cons_e (k_cons demo_kernel) = 0" "cons_r (k_cons demo_kernel) = 0" "cons_w (k_cons demo_kernel) = 0"
    "\<not> panicked (k_out demo_kernel)"
    by (simp_all add: demo_kernel_def)
  obtain k1 where k1: "consoleintr 97 demo_kernel = Ret k1" "cons_e (k_cons k1) = 1" "cons_w (k_cons k1) = 0"
    "\<not> panicked (k_out k1)"
    using e by (simp add: consoleintr_def Let_def kputc_def consputc_def uartputc_sync_def)
  obtain k2 where k2: "consoleintr 8 k1 = Ret k2" "cons_e (k_cons k2) = 0"
    using k1 by (simp add: consoleintr_def Let_def kputc_def consputc_def uartputc_sync_def)
  have "ofold consoleintr [97, 8] demo_kernel = Ret k2" using k1 k2 by simp
  with console_editing [OF i this] k2 show ?thesis by blast
qed

end
