(* ===== verification/Xv6_File.thy ===== *)
theory Xv6_File
  imports Xv6_Dir Xv6_Pipe Xv6_Console
begin

text \<open>
  Open files (kernel/file.c) and the allocation of a pipe's two ends (pipealloc of
  kernel/pipe.c). A file is an index of the file table.
\<close>

definition filealloc :: "kernel \<Rightarrow> nat option \<times> kernel" where
  "filealloc k = (case scan (\<lambda>f. f_ref (k_file k f) = 0) 0 NFILE of
     None \<Rightarrow> (None, k) | Some f \<Rightarrow> (Some f, upd_file f (\<lambda>x. x\<lparr>f_ref := 1\<rparr>) k))"

definition filedup :: "nat \<Rightarrow> kernel \<Rightarrow> (nat \<times> kernel) outcome" where
  "filedup f k = (if f_ref (k_file k f) < 1 then opanic ''filedup''
     else Ret (f, upd_file f (\<lambda>x. x\<lparr>f_ref := f_ref x + 1\<rparr>) k))"

text \<open>\<open>begin_op(); iput(ip); end_op();\<close> The null pointer is no inode.\<close>

definition iput_op :: "nat option \<Rightarrow> kernel \<Rightarrow> kernel outcome" where
  "iput_op ip k =
     obind (run_log begin_op k) (\<lambda>k.
     obind (case ip of None \<Rightarrow> Fail Undef | Some ip \<Rightarrow> iput ip k) (run_log end_op))"

definition fileclose :: "nat \<Rightarrow> kernel \<Rightarrow> kernel outcome" where
  "fileclose f k =
     (let ff = k_file k f in
      if f_ref ff < 1 then opanic ''fileclose''
      else if f_ref ff - 1 > 0 then Ret (upd_file f (\<lambda>x. x\<lparr>f_ref := f_ref x - 1\<rparr>) k)
      else
        let k = upd_file f (\<lambda>x. x\<lparr>f_type := FD_NONE, f_ref := 0\<rparr>) k in
        if f_type ff = FD_PIPE then pipeclose (f_pipe ff) (f_writable ff) k
        else if f_type ff = FD_INODE \<or> f_type ff = FD_DEVICE then iput_op (f_ip ff) k
        else Ret k)"

definition pipealloc_bad :: "u64 \<Rightarrow> nat option \<Rightarrow> nat option \<Rightarrow> kernel \<Rightarrow> kernel outcome" where
  "pipealloc_bad pi f0 f1 k =
     obind (if pi \<noteq> 0 then run_mem (kfree pi) k else Ret k) (\<lambda>k.
     obind (case f0 of None \<Rightarrow> Ret k | Some f \<Rightarrow> fileclose f k) (\<lambda>k.
     case f1 of None \<Rightarrow> Ret k | Some f \<Rightarrow> fileclose f k))"

definition pipealloc :: "kernel \<Rightarrow> ((nat \<times> nat) option \<times> kernel) outcome" where
  "pipealloc k =
     (case filealloc k of
        (None, k) \<Rightarrow> obind (pipealloc_bad 0 None None k) (\<lambda>k. Ret (None, k))
      | (Some f0, k) \<Rightarrow>
          (case filealloc k of
             (None, k) \<Rightarrow> obind (pipealloc_bad 0 (Some f0) None k) (\<lambda>k. Ret (None, k))
           | (Some f1, k) \<Rightarrow>
               (let (pi, k) = kkalloc k in
                if pi = 0 then obind (pipealloc_bad 0 (Some f0) (Some f1) k) (\<lambda>k. Ret (None, k))
                else
                  let k = upd_pipe pi (\<lambda>x. x\<lparr>pi_nread := 0, pi_nwrite := 0, pi_readopen := True,
                            pi_writeopen := True\<rparr>) k;
                      k = upd_file f0 (\<lambda>x. x\<lparr>f_type := FD_PIPE, f_readable := True, f_writable := False,
                            f_pipe := pi\<rparr>) k;
                      k = upd_file f1 (\<lambda>x. x\<lparr>f_type := FD_PIPE, f_readable := False, f_writable := True,
                            f_pipe := pi\<rparr>) k
                  in Ret (Some (f0, f1), k))))"

text \<open>The bytes of a \<open>struct stat\<close>; its four bytes of padding keep what the stack held.\<close>

definition stat_bytes :: "stat \<Rightarrow> bytes \<Rightarrow> bytes" where
  "stat_bytes st d =
     store64 (store16 (store16 (store32 (store32 d 0 (st_dev st)) 4 (st_ino st)) 8 (st_type st))
       10 (st_nlink st)) 16 (st_size st)"

definition filestat :: "nat \<Rightarrow> u64 \<Rightarrow> kernel \<Rightarrow> (int \<times> kernel) outcome" where
  "filestat f addr k =
     (let x = k_file k f in
      if f_type x = FD_INODE \<or> f_type x = FD_DEVICE then
        (case f_ip x of
           None \<Rightarrow> opanic ''ilock''
         | Some ip \<Rightarrow>
             obind (ilock ip k) (\<lambda>k.
             let st = stati ip k in
             obind (iunlock ip k) (\<lambda>k.
             let d = stat_bytes st (\<lambda>i. kload k (unat (local_addr i k))) in
             obind (on_mem (copyout (p_pagetable (cur_proc k)) addr d 0 24) k) (\<lambda>(r, k).
             Ret (if r < 0 then -1 else 0, k)))))
      else Ret (-1, k))"

definition fileread :: "nat \<Rightarrow> u64 \<Rightarrow> u32 \<Rightarrow> kernel \<Rightarrow> (int \<times> kernel) outcome" where
  "fileread f addr n k =
     (let x = k_file k f in
      if \<not> f_readable x then Ret (-1, k)
      else case f_type x of
        FD_PIPE \<Rightarrow> finish (piperead (f_pipe x) addr n k)
      | FD_DEVICE \<Rightarrow>
          if sint (f_major x) < 0 \<or> sint (f_major x) \<ge> NDEV then Ret (-1, k)
          else (case d_read (k_devsw k (unat (f_major x))) of
            None \<Rightarrow> Ret (-1, k)
          | Some Consoleread \<Rightarrow> finish (consoleread True addr n k))
      | FD_INODE \<Rightarrow>
          (case f_ip x of
             None \<Rightarrow> opanic ''ilock''
           | Some ip \<Rightarrow>
               obind (ilock ip k) (\<lambda>k.
               obind (readi ip True addr (f_off x) n k) (\<lambda>(r, k).
               let k = (if r > 0 then upd_file f (\<lambda>x. x\<lparr>f_off := f_off x + of_int r\<rparr>) k else k) in
               obind (iunlock ip k) (\<lambda>k. Ret (r, k)))))
      | FD_NONE \<Rightarrow> opanic ''fileread'')"

text \<open>One chunk of filewrite(): a transaction of its own.\<close>

definition filewrite_chunk :: "nat \<Rightarrow> nat \<Rightarrow> u64 \<Rightarrow> nat \<Rightarrow> kernel \<Rightarrow> (int \<times> kernel) outcome" where
  "filewrite_chunk f ip addr n1 k =
     obind (run_log begin_op k) (\<lambda>k.
     obind (ilock ip k) (\<lambda>k.
     obind (writei ip True addr (f_off (k_file k f)) (of_nat n1) k) (\<lambda>(r, k).
     let k = (if r > 0 then upd_file f (\<lambda>x. x\<lparr>f_off := f_off x + of_int r\<rparr>) k else k) in
     obind (iunlock ip k) (\<lambda>k.
     obind (run_log end_op k) (\<lambda>k. Ret (r, k))))))"

abbreviation (input) filewrite_max :: nat where "filewrite_max \<equiv> 3072"

function filewrite_loop :: "nat \<Rightarrow> nat \<Rightarrow> u64 \<Rightarrow> nat \<Rightarrow> nat \<Rightarrow> kernel \<Rightarrow> (nat \<times> kernel) outcome" where
  "filewrite_loop f ip addr n i k =
     (if i < n then
        (let n1 = (if n - i > filewrite_max then filewrite_max else n - i) in
         obind (filewrite_chunk f ip (addr + of_nat i) n1 k) (\<lambda>(r, k).
         if r \<noteq> int n1 then Ret (i, k) else filewrite_loop f ip addr n (i + n1) k))
      else Ret (i, k))"
  by pat_completeness auto
termination
  by (relation "measure (\<lambda>(f, ip, a, n, i, k). n - i)") auto

declare filewrite_loop.simps [simp del]

definition filewrite :: "nat \<Rightarrow> u64 \<Rightarrow> u32 \<Rightarrow> kernel \<Rightarrow> (int \<times> kernel) outcome" where
  "filewrite f addr n k =
     (let x = k_file k f in
      if \<not> f_writable x then Ret (-1, k)
      else case f_type x of
        FD_PIPE \<Rightarrow> finish (pipewrite (f_pipe x) addr n k)
      | FD_DEVICE \<Rightarrow>
          if sint (f_major x) < 0 \<or> sint (f_major x) \<ge> NDEV then Ret (-1, k)
          else (case d_write (k_devsw k (unat (f_major x))) of
            None \<Rightarrow> Ret (-1, k)
          | Some Consolewrite \<Rightarrow> finish (consolewrite True addr n k))
      | FD_INODE \<Rightarrow>
          (case f_ip x of
             None \<Rightarrow> opanic ''ilock''
           | Some ip \<Rightarrow>
               obind (filewrite_loop f ip addr (nat (sint n)) 0 k) (\<lambda>(i, k).
               Ret (if int i = sint n then sint n else -1, k)))
      | FD_NONE \<Rightarrow> opanic ''filewrite'')"

end
