(* ===== verification/Xv6_Process.thy ===== *)
theory Xv6_Process
  imports Xv6_File
begin

text \<open>
  The life of a process (the second half of kernel/proc.c): userinit, fork, forkn, exit, wait and
  waitall, in the versions of Assignment1_2 with exit messages. The critical sections of
  \<open>wait_lock\<close> and \<open>p->lock\<close> are single steps.
\<close>

section \<open>The first process\<close>

definition initcode :: "u8 list" where
  "initcode =
    [0x17, 0x05, 0x00, 0x00, 0x13, 0x05, 0x45, 0x02,
     0x97, 0x05, 0x00, 0x00, 0x93, 0x85, 0x35, 0x02,
     0x93, 0x08, 0x70, 0x00, 0x73, 0x00, 0x00, 0x00,
     0x93, 0x08, 0x20, 0x00, 0x73, 0x00, 0x00, 0x00,
     0xef, 0xf0, 0x9f, 0xff, 0x2f, 0x69, 0x6e, 0x69,
     0x74, 0x00, 0x00, 0x24, 0x00, 0x00, 0x00, 0x00,
     0x00, 0x00, 0x00, 0x00]"

definition userinit :: "kernel \<Rightarrow> kernel outcome" where
  "userinit k =
     obind (allocproc k) (\<lambda>(r, k).
     let k = k\<lparr>k_initproc := r\<rparr> in
     case r of
       None \<Rightarrow> Fail Undef
     | Some p \<Rightarrow>
         obind (run_mem (uvmfirst (p_pagetable (k_proc k p)) (bytes_of initcode) 52) k) (\<lambda>k.
         let k = upd_proc p (\<lambda>x. x\<lparr>p_sz := 4096\<rparr>) k;
             k = tf_set p TF_epc 0 k;
             k = tf_set p TF_sp 4096 k;
             k = upd_proc p (\<lambda>x. x\<lparr>p_name := safestrcpy_buf 16 (p_name x) (bytes_of (str ''initcode''))\<rparr>) k in
         obind (namei [slash] k) (\<lambda>(ip, k).
         Ret (upd_proc p (\<lambda>x. x\<lparr>p_state := RUNNABLE, p_cwd := ip\<rparr>) k))))"

text \<open>What forkret() does before it returns to user space: the first process sets up the file system.\<close>

definition forkret :: "kernel \<Rightarrow> kernel outcome" where
  "forkret k = (if k_first k then fsinit ROOTDEV (k\<lparr>k_first := False\<rparr>) else Ret k)"

section \<open>fork\<close>

definition copy_trapframe :: "nat \<Rightarrow> nat \<Rightarrow> kernel \<Rightarrow> kernel" where
  "copy_trapframe np p k = kstore (\<lambda>m. copy_range m (unat (p_trapframe (k_proc k np))) m
     (unat (p_trapframe (k_proc k p))) trapframe_size) k"

text \<open>The child's open files, current directory and name.\<close>

definition dup_files :: "nat \<Rightarrow> nat \<Rightarrow> kernel \<Rightarrow> kernel outcome" where
  "dup_files p np = ofold (\<lambda>i k.
     case p_ofile (k_proc k p) i of
       None \<Rightarrow> Ret k
     | Some f \<Rightarrow> obind (filedup f k) (\<lambda>(f, k).
         Ret (upd_proc np (\<lambda>x. x\<lparr>p_ofile := (p_ofile x)(i := Some f)\<rparr>) k))) [0..<NOFILE]"

definition dup_cwd_name :: "nat \<Rightarrow> nat \<Rightarrow> kernel \<Rightarrow> kernel outcome" where
  "dup_cwd_name p np k =
     (case p_cwd (k_proc k p) of
        None \<Rightarrow> Fail Undef
      | Some cwd \<Rightarrow>
          (let (ip, k) = idup cwd k;
               nm = p_name (k_proc k p)
           in Ret (upd_proc np (\<lambda>x. x\<lparr>p_cwd := Some ip, p_name := safestrcpy_buf 16 (p_name x) nm\<rparr>) k)))"

definition fork :: "kernel \<Rightarrow> (int \<times> kernel) outcome" where
  "fork k =
     (let p = k_cur k in
      obind (allocproc k) (\<lambda>(r, k).
      case r of
        None \<Rightarrow> Ret (-1, k)
      | Some np \<Rightarrow>
          obind (on_mem (uvmcopy (p_pagetable (k_proc k p)) (p_pagetable (k_proc k np)) (p_sz (k_proc k p))) k) (\<lambda>(r, k).
          if r < 0 then obind (freeproc np k) (\<lambda>k. Ret (-1, k))
          else
            let k = upd_proc np (\<lambda>x. x\<lparr>p_sz := p_sz (k_proc k p)\<rparr>) k;
                k = copy_trapframe np p k;
                k = tf_set np TF_a0 0 k in
            obind (dup_files p np k) (\<lambda>k.
            obind (dup_cwd_name p np k) (\<lambda>k.
            let pid = p_pid (k_proc k np) in
            Ret (pid, upd_proc np (\<lambda>x. x\<lparr>p_state := RUNNABLE, p_parent := Some p\<rparr>) k))))))"

text \<open>One child of forkn(); \<open>None\<close> when there is no process, \<open>-1\<close> when its memory cannot be copied.\<close>

definition forkn_child :: "nat \<Rightarrow> nat \<Rightarrow> kernel \<Rightarrow> (int option \<times> kernel) outcome" where
  "forkn_child p i k =
     obind (allocproc k) (\<lambda>(r, k).
     case r of
       None \<Rightarrow> Ret (None, k)
     | Some np \<Rightarrow>
         let k = upd_proc np (\<lambda>x. x\<lparr>p_sz := p_sz (k_proc k p)\<rparr>) k in
         obind (on_mem (uvmcopy (p_pagetable (k_proc k p)) (p_pagetable (k_proc k np)) (p_sz (k_proc k p))) k) (\<lambda>(r, k).
         if r < 0 then obind (freeproc np k) (\<lambda>k. Ret (Some (-1), k))
         else
           let k = copy_trapframe np p k;
               k = tf_set np TF_a0 (of_nat i) k in
           obind (dup_files p np k) (\<lambda>k.
           obind (dup_cwd_name p np k) (\<lambda>k.
           let k = upd_proc np (\<lambda>x. x\<lparr>p_state := RUNNABLE, p_parent := Some p\<rparr>) k; pid = p_pid (k_proc k np) in
           obind (kprintf (''Successfully created child process %d with PID %d'' @ NL)
             [AInt (of_nat i), AInt (of_int pid)] k) (\<lambda>k. Ret (Some pid, k))))))"

function forkn_loop :: "nat \<Rightarrow> nat \<Rightarrow> nat \<Rightarrow> (nat \<Rightarrow> int) \<Rightarrow> kernel \<Rightarrow> (int \<times> (nat \<Rightarrow> int) \<times> kernel) outcome" where
  "forkn_loop p n i pids k =
     (if i < n then
        obind (forkn_child p i k) (\<lambda>(r, k).
        case r of
          None \<Rightarrow> Ret (-1, pids, fold (\<lambda>j k. snd (kill (pids j) k)) [0..<i] k)
        | Some pid \<Rightarrow>
            if pid = -1 then Ret (-1, pids, k) else forkn_loop p n (Suc i) (pids(i := pid)) k)
      else Ret (-2, pids, k))"
  by pat_completeness auto
termination
  by (relation "measure (\<lambda>(p, n, i, pids, k). n - i)") auto

declare forkn_loop.simps [simp del]

definition forkn :: "int \<Rightarrow> (nat \<Rightarrow> int) \<Rightarrow> kernel \<Rightarrow> (int \<times> (nat \<Rightarrow> int) \<times> kernel) outcome" where
  "forkn n pids k = (if n < 1 \<or> n > 16 then Ret (-1, pids, k) else forkn_loop (k_cur k) (nat n) 0 pids k)"

section \<open>exit\<close>

definition reparent :: "nat \<Rightarrow> kernel \<Rightarrow> kernel" where
  "reparent p k = fold (\<lambda>pp k.
     if p_parent (k_proc k pp) = Some p
     then wakeup (map_option ChProc (k_initproc k)) (upd_proc pp (\<lambda>x. x\<lparr>p_parent := k_initproc k\<rparr>) k)
     else k) [0..<NPROC] k"

definition close_files :: "nat \<Rightarrow> kernel \<Rightarrow> kernel outcome" where
  "close_files p = ofold (\<lambda>fd k.
     case p_ofile (k_proc k p) fd of
       None \<Rightarrow> Ret k
     | Some f \<Rightarrow> obind (fileclose f k) (\<lambda>k.
         Ret (upd_proc p (\<lambda>x. x\<lparr>p_ofile := (p_ofile x)(fd := None)\<rparr>) k))) [0..<NOFILE]"

definition save_exit_msg :: "nat \<Rightarrow> bytes \<Rightarrow> kernel \<Rightarrow> kernel" where
  "save_exit_msg p msg = upd_proc p (\<lambda>x. x\<lparr>p_exit_msg := (strncpy_buf 32 (p_exit_msg x) msg)(31 := 0)\<rparr>)"

text \<open>The state when exit() switches to the scheduler for the last time.\<close>

definition exit :: "bytes \<Rightarrow> kernel \<Rightarrow> kernel outcome" where
  "exit msg k =
     (let p = k_cur k in
      if k_initproc k = Some p then opanic ''init exiting''
      else
        obind (close_files p (save_exit_msg p msg k)) (\<lambda>k.
        obind (iput_op (p_cwd (k_proc k p)) k) (\<lambda>k.
        let k = upd_proc p (\<lambda>x. x\<lparr>p_cwd := None\<rparr>) k;
            k = reparent p k;
            k = wakeup (map_option ChProc (p_parent (k_proc k p))) k
        in sched (upd_proc p (\<lambda>x. x\<lparr>p_state := ZOMBIE, p_xstate := 0\<rparr>) k))))"

definition exit_num :: "u32 \<Rightarrow> kernel \<Rightarrow> kernel outcome" where
  "exit_num status k =
     exit (bytes_of (str ''exit_num'')) (upd_proc (k_cur k) (\<lambda>x. x\<lparr>p_xstatus := status\<rparr>) k)"

definition exit_msg :: "bytes \<Rightarrow> kernel \<Rightarrow> kernel outcome" where
  "exit_msg msg k = exit (bytes_of (str ''Goodbye World xv6'')) (save_exit_msg (k_cur k) msg k)"

section \<open>wait\<close>

text \<open>
  Reaping the zombie \<open>pp\<close>. The first copyout() of the message is not guarded by
  \<open>msg_addr != 0\<close>.
\<close>

definition wait_reap :: "nat \<Rightarrow> u64 \<Rightarrow> u64 \<Rightarrow> kernel \<Rightarrow> (int \<times> kernel) outcome" where
  "wait_reap pp addr msg_addr k =
     (let p = k_cur k; pid = p_pid (k_proc k pp); pt = p_pagetable (k_proc k p);
          msg = p_exit_msg (k_proc k pp); len = length (cstring msg 32) in
      obind (if addr \<noteq> 0 then on_mem (copyout pt addr (word_bytes (p_xstate (k_proc k pp))) 0 4) k
             else Ret (0, k)) (\<lambda>(r, k).
      if r < 0 then Ret (-1, k)
      else if len = 32 then Fail Undef
      else
        obind (on_mem (copyout pt msg_addr msg 0 (len + 1)) k) (\<lambda>(r, k).
        if r < 0 then Ret (-1, k)
        else
          obind (if msg_addr \<noteq> 0 then on_mem (copyout pt msg_addr msg 0 32) k else Ret (0, k)) (\<lambda>(_, k).
          obind (freeproc pp k) (\<lambda>k. Ret (pid, k))))))"

definition zombie_child :: "nat \<Rightarrow> kernel \<Rightarrow> nat \<Rightarrow> bool" where
  "zombie_child p k pp \<longleftrightarrow> p_parent (k_proc k pp) = Some p \<and> p_state (k_proc k pp) = ZOMBIE"

definition havekids :: "nat \<Rightarrow> kernel \<Rightarrow> bool" where
  "havekids p k \<longleftrightarrow> (\<exists>pp \<in> set [0..<NPROC]. p_parent (k_proc k pp) = Some p)"

definition wait :: "u64 \<Rightarrow> u64 \<Rightarrow> kernel \<Rightarrow> ((int, unit) run \<times> kernel) outcome" where
  "wait addr msg_addr k =
     (let p = k_cur k in
      case scan (zombie_child p k) 0 NPROC of
        Some pp \<Rightarrow> obind (wait_reap pp addr msg_addr k) (\<lambda>(r, k). Ret (Done r, k))
      | None \<Rightarrow>
          if \<not> havekids p k \<or> killed p k then Ret (Done (-1), k)
          else obind (sleep (ChProc p) k) (\<lambda>k. Ret (Asleep (), k)))"

section \<open>waitall\<close>

text \<open>One pass over the table: the statuses collected so far and whether a zombie was found.\<close>

definition waitall_pass :: "nat \<Rightarrow> u32 list \<times> bool \<times> kernel \<Rightarrow> (u32 list \<times> bool \<times> kernel) outcome" where
  "waitall_pass p = ofold (\<lambda>pp (sts, found, k).
     if zombie_child p k pp then
       (if length sts < NPROC then
          obind (kprintf (''[waitall] Found zombie child PID %d with xstate = %d'' @ NL)
            [AInt (of_int (p_pid (k_proc k pp))), AInt (p_xstate (k_proc k pp))] k) (\<lambda>k'.
          obind (freeproc pp k') (\<lambda>k'. Ret (sts @ [p_xstatus (k_proc k pp)], True, k')))
        else Fail Undef)
     else Ret (sts, found, k)) [0..<NPROC]"

definition waitall_run :: "int \<Rightarrow> u32 list \<Rightarrow> kernel \<Rightarrow> ((u32 list, u32 list) run \<times> kernel) outcome" where
  "waitall_run expected_n sts k =
     (let p = k_cur k in
      obind (waitall_pass p (sts, False, k)) (\<lambda>(sts, found, k).
      if int (length sts) \<ge> expected_n \<or> \<not> found then Ret (Done sts, k)
      else
        obind (kprintf (''[waitall] Sleeping... %d statuses collected so far'' @ NL) [AInt (of_nat (length sts))] k) (\<lambda>k.
        obind (sleep (ChProc p) k) (\<lambda>k. Ret (Asleep sts, k)))))"

definition waitall_finish :: "u64 \<Rightarrow> u64 \<Rightarrow> u32 list \<Rightarrow> kernel \<Rightarrow> (int \<times> kernel) outcome" where
  "waitall_finish n statuses sts k =
     obind (kprintf (''[waitall] All children handled, total statuses = %d'' @ NL) [AInt (of_nat (length sts))] k) (\<lambda>k.
     obind (on_mem (copyout (p_pagetable (cur_proc k)) n (word_bytes (of_nat (length sts))) 0 4) k) (\<lambda>(r, k).
     if r < 0 then obind (kprintf (''[waitall] Failed to copy 'n' to user space'' @ NL) [] k) (\<lambda>k. Ret (-1, k))
     else
       obind (on_mem (copyout (p_pagetable (cur_proc k)) statuses (words_bytes sts) 0 (4 * length sts)) k) (\<lambda>(r, k).
       if r < 0 then obind (kprintf (''[waitall] Failed to copy statuses to user space'' @ NL) [] k) (\<lambda>k. Ret (-1, k))
       else obind (kprintf (''[waitall] Successfully copied statuses and count'' @ NL) [] k) (\<lambda>k. Ret (0, k)))))"

definition waitall :: "u64 \<Rightarrow> u64 \<Rightarrow> kernel \<Rightarrow> (int \<times> kernel) outcome" where
  "waitall n statuses k =
     obind (kprintf (''[waitall] Start waitall syscall'' @ NL) [] k) (\<lambda>k.
     obind (copyin (p_pagetable (cur_proc k)) (\<lambda>_. 0) 0 n 4 (k_mem k)) (\<lambda>(r, d).
     if r < 0 then obind (kprintf (''[waitall] copyin failed for n'' @ NL) [] k) (\<lambda>k. Ret (-1, k))
     else
       obind (finish (waitall_run (sint (load32 d 0)) [] k)) (\<lambda>(sts, k).
       waitall_finish n statuses sts k)))"


section \<open>Exit messages\<close>

text \<open>The characters of a name or message that strncpy() stores in a buffer of its own size.\<close>

lemma strncpy_buf_eq: "strncpy_buf n dst src i = (if i < n then padded src 0 i else dst i)"
proof -
  have "padded (beside n dst src) n i = padded src 0 i" by (auto simp: padded_def beside_def)
  then show ?thesis
    using strncpy_spec [of "int n" 0 n "beside n dst src" i] by (simp add: strncpy_buf_def copy_range_def)
qed

lemma save_exit_msg_twice: "save_exit_msg p msg' (save_exit_msg p msg k) = save_exit_msg p msg' k"
proof -
  have "(strncpy_buf 32 ((strncpy_buf 32 d msg)(31 := 0)) msg')(31 := 0) = (strncpy_buf 32 d msg')(31 := 0)" for d
    by (rule ext) (simp add: strncpy_buf_eq)
  then show ?thesis by (simp add: save_exit_msg_def upd_proc_def)
qed

text \<open>
  exit_msg() loses the message it is given: whatever the program passes, the process ends
  as if it had called exit() with the fixed message, because exit() stores its own message over
  the one exit_msg() has just saved.
\<close>

theorem exit_msg_lost: "exit_msg msg k = exit (bytes_of (str ''Goodbye World xv6'')) k"
proof -
  have c: "k_cur (save_exit_msg p m k) = k_cur k" "k_initproc (save_exit_msg p m k) = k_initproc k" for p m
    by (simp_all add: save_exit_msg_def)
  show ?thesis unfolding exit_msg_def exit_def by (simp only: c save_exit_msg_twice Let_def)
qed

end
