(* ===== verification/Xv6_Exec.thy ===== *)
theory Xv6_Exec
  imports Xv6_Process
begin

text \<open>
  Loading a program (kernel/exec.c). The ELF header and the program header are read into local
  structures of the kernel stack; \<open>argv\<close> is the list of the pages that hold the argument
  strings, up to the null pointer.
\<close>

definition flags2perm :: "u32 \<Rightarrow> u64" where
  "flags2perm flags = (let perm = (if flags AND 1 \<noteq> 0 then PTE_X else 0)
     in if flags AND 2 \<noteq> 0 then perm OR PTE_W else perm)"

abbreviation (input) elfhdr_size :: nat where "elfhdr_size \<equiv> 64"
abbreviation (input) proghdr_size :: nat where "proghdr_size \<equiv> 56"
abbreviation ELF_MAGIC :: u32 where "ELF_MAGIC \<equiv> 0x464C457F"
abbreviation (input) ELF_PROG_LOAD :: u32 where "ELF_PROG_LOAD \<equiv> 1"

text \<open>The fields of the two structures that exec uses, at their offsets.\<close>

record elfhdr =
  e_magic :: u32
  e_entry :: u64
  e_phoff :: u64
  e_phnum :: u16

record proghdr =
  ph_type :: u32
  ph_flags :: u32
  ph_off :: u64
  ph_vaddr :: u64
  ph_filesz :: u64
  ph_memsz :: u64

definition elf_addr :: "kernel \<Rightarrow> u64" where "elf_addr = local_addr 64"
definition ph_addr :: "kernel \<Rightarrow> u64" where "ph_addr = local_addr 128"

definition get_elf :: "kernel \<Rightarrow> elfhdr" where
  "get_elf k = (let m = kload k; a = unat (elf_addr k) in
     \<lparr>e_magic = load32 m a, e_entry = load64 m (a + 24), e_phoff = load64 m (a + 32),
      e_phnum = load16 m (a + 56)\<rparr>)"

definition get_ph :: "kernel \<Rightarrow> proghdr" where
  "get_ph k = (let m = kload k; a = unat (ph_addr k) in
     \<lparr>ph_type = load32 m a, ph_flags = load32 m (a + 4), ph_off = load64 m (a + 8),
      ph_vaddr = load64 m (a + 16), ph_filesz = load64 m (a + 32), ph_memsz = load64 m (a + 40)\<rparr>)"

function loadseg_loop :: "u64 \<Rightarrow> u64 \<Rightarrow> nat \<Rightarrow> u32 \<Rightarrow> nat \<Rightarrow> nat \<Rightarrow> kernel \<Rightarrow> (int \<times> kernel) outcome" where
  "loadseg_loop pagetable va ip offset i sz k =
     (if i < sz then
        obind (walkaddr pagetable (va + of_nat i) (k_mem k)) (\<lambda>pa.
        if pa = 0 then opanic ''loadseg: address should exist''
        else
          let n = (if sz - i < PGSIZE then sz - i else PGSIZE) in
          obind (readi ip False pa (offset + of_nat i) (of_nat n) k) (\<lambda>(r, k).
          if r \<noteq> int n then Ret (-1, k) else loadseg_loop pagetable va ip offset (i + PGSIZE) sz k))
      else Ret (0, k))"
  by pat_completeness auto
termination
  by (relation "measure (\<lambda>(pt, va, ip, off, i, sz, k). sz - i)") auto

declare loadseg_loop.simps [simp del]

definition loadseg :: "u64 \<Rightarrow> u64 \<Rightarrow> nat \<Rightarrow> u32 \<Rightarrow> u32 \<Rightarrow> kernel \<Rightarrow> (int \<times> kernel) outcome" where
  "loadseg pagetable va ip offset sz = loadseg_loop pagetable va ip offset 0 (unat sz)"

text \<open>
  The loop over the program headers: \<open>n\<close> headers are left. The result is the size reached and
  whether every segment was loaded.
\<close>

fun load_segments :: "nat \<Rightarrow> nat \<Rightarrow> u32 \<Rightarrow> u64 \<Rightarrow> u64 \<Rightarrow> kernel \<Rightarrow> (bool \<times> u64 \<times> kernel) outcome" where
  "load_segments ip 0 off pagetable sz k = Ret (True, sz, k)"
| "load_segments ip (Suc n) off pagetable sz k =
     obind (readi ip False (ph_addr k) off 56 k) (\<lambda>(r, k).
     let ph = get_ph k in
     if r \<noteq> 56 then Ret (False, sz, k)
     else if ph_type ph \<noteq> ELF_PROG_LOAD then load_segments ip n (off + 56) pagetable sz k
     else if ph_memsz ph < ph_filesz ph then Ret (False, sz, k)
     else if ph_vaddr ph + ph_memsz ph < ph_vaddr ph then Ret (False, sz, k)
     else if ph_vaddr ph mod 4096 \<noteq> 0 then Ret (False, sz, k)
     else
       obind (on_mem (uvmalloc pagetable sz (ph_vaddr ph + ph_memsz ph) (flags2perm (ph_flags ph))) k) (\<lambda>(sz1, k).
       if sz1 = 0 then Ret (False, sz, k)
       else
         obind (loadseg pagetable (ph_vaddr ph) ip (ucast (ph_off ph)) (ucast (ph_filesz ph)) k) (\<lambda>(r, k).
         if r < 0 then Ret (False, sz1, k)
         else load_segments ip n (off + 56) pagetable sz1 k)))"

text \<open>The loop that copies the argument strings to the new stack; \<open>None\<close> is \<open>goto bad\<close>.\<close>

fun push_args :: "u64 \<Rightarrow> u64 \<Rightarrow> u64 list \<Rightarrow> u64 \<Rightarrow> u64 list \<Rightarrow> kernel \<Rightarrow> ((u64 \<times> u64 list) option \<times> kernel) outcome" where
  "push_args pagetable stackbase [] sp ustack k = Ret (Some (sp, ustack), k)"
| "push_args pagetable stackbase (a # argv) sp ustack k =
     (if length ustack \<ge> MAXARG then Ret (None, k)
      else case strlen (kload k) (unat a) of
        None \<Rightarrow> Fail Diverged
      | Some len \<Rightarrow>
          (let sp = sp - (of_nat len + 1); sp = sp - sp mod 16 in
           if sp < stackbase then Ret (None, k)
           else
             obind (on_mem (copyout pagetable sp (kload k) (unat a) (len + 1)) k) (\<lambda>(r, k).
             if r < 0 then Ret (None, k)
             else push_args pagetable stackbase argv sp (ustack @ [sp]) k)))"

definition exec_bad :: "u64 \<Rightarrow> u64 \<Rightarrow> nat option \<Rightarrow> kernel \<Rightarrow> (int \<times> kernel) outcome" where
  "exec_bad pagetable sz ip k =
     obind (if pagetable \<noteq> 0 then proc_freepagetable pagetable sz k else Ret k) (\<lambda>k.
     obind (case ip of None \<Rightarrow> Ret k
            | Some ip \<Rightarrow> obind (iunlockput ip k) (run_log end_op)) (\<lambda>k. Ret (-1, k)))"

text \<open>The pointers of \<open>ustack\<close> as bytes.\<close>

definition dwords_bytes :: "u64 list \<Rightarrow> bytes" where
  "dwords_bytes xs = (\<lambda>i. if i < 8 * length xs then store64 (\<lambda>_. 0) 0 (xs ! (i div 8)) (i mod 8) else 0)"

text \<open>The part of the path after its last slash.\<close>

definition last_elem :: "u8 list \<Rightarrow> u8 list" where
  "last_elem path = rev (takeWhile (\<lambda>c. c \<noteq> slash) (rev path))"

text \<open>Setting up the user stack and switching to the new image.\<close>

definition exec_commit :: "u8 list \<Rightarrow> u64 list \<Rightarrow> u64 \<Rightarrow> u64 \<Rightarrow> elfhdr \<Rightarrow> kernel \<Rightarrow> (int \<times> kernel) outcome" where
  "exec_commit path argv pagetable sz elf k =
     (let p = k_cur k; oldsz = p_sz (k_proc k p); sz = PGROUNDUP sz in
      obind (on_mem (uvmalloc pagetable sz (sz + 2 * 4096) PTE_W) k) (\<lambda>(sz1, k).
      if sz1 = 0 then exec_bad pagetable sz None k
      else
        obind (run_mem (uvmclear pagetable (sz1 - 2 * 4096)) k) (\<lambda>k.
        let stackbase = sz1 - 4096 in
        obind (push_args pagetable stackbase argv sz1 [] k) (\<lambda>(r, k).
        case r of
          None \<Rightarrow> exec_bad pagetable sz1 None k
        | Some (sp, ustack) \<Rightarrow>
            (let argc = length ustack; ustack = ustack @ [0];
                 sp = sp - (of_nat argc + 1) * 8; sp = sp - sp mod 16 in
             if argc \<ge> MAXARG then Fail Undef
             else if sp < stackbase then exec_bad pagetable sz1 None k
             else
               obind (on_mem (copyout pagetable sp (dwords_bytes ustack) 0 (8 * (argc + 1))) k) (\<lambda>(r, k).
               if r < 0 then exec_bad pagetable sz1 None k
               else
                 let k = tf_set p TF_a1 sp k;
                     k = upd_proc p (\<lambda>x. x\<lparr>p_name := safestrcpy_buf 16 (p_name x) (bytes_of (last_elem path))\<rparr>) k;
                     oldpagetable = p_pagetable (k_proc k p);
                     k = upd_proc p (\<lambda>x. x\<lparr>p_sz := sz1, p_pagetable := pagetable\<rparr>) k;
                     k = tf_set p TF_epc (e_entry elf) k;
                     k = tf_set p TF_sp sp k in
                 obind (proc_freepagetable oldpagetable oldsz k) (\<lambda>k. Ret (int argc, k)))))))) "

definition exec :: "u8 list \<Rightarrow> u64 list \<Rightarrow> kernel \<Rightarrow> (int \<times> kernel) outcome" where
  "exec path argv k =
     obind (run_log begin_op k) (\<lambda>k.
     obind (namei path k) (\<lambda>(r, k).
     case r of
       None \<Rightarrow> obind (run_log end_op k) (\<lambda>k. Ret (-1, k))
     | Some ip \<Rightarrow>
         obind (ilock ip k) (\<lambda>k.
         obind (readi ip False (elf_addr k) 0 64 k) (\<lambda>(r, k).
         let elf = get_elf k in
         if r \<noteq> 64 then exec_bad 0 0 (Some ip) k
         else if e_magic elf \<noteq> ELF_MAGIC then exec_bad 0 0 (Some ip) k
         else
           obind (proc_pagetable (k_cur k) k) (\<lambda>(pagetable, k).
           if pagetable = 0 then exec_bad 0 0 (Some ip) k
           else
             obind (load_segments ip (unat (e_phnum elf)) (ucast (e_phoff elf)) pagetable 0 k) (\<lambda>(ok, sz, k).
             if \<not> ok then exec_bad pagetable sz (Some ip) k
             else
               obind (iunlockput ip k) (\<lambda>k.
               obind (run_log end_op k) (\<lambda>k.
               exec_commit path argv pagetable sz elf k))))))))"

end
