(* ===== verification/Xv6_Sysfile.thy ===== *)
theory Xv6_Sysfile
  imports Xv6_Exec
begin

text \<open>
  Fetching system call arguments (kernel/syscall.c) and the file system calls
  (kernel/sysfile.c). A failed call returns \<open>-1\<close>, that is \<open>minus1\<close> as an unsigned 64-bit word.
\<close>

abbreviation (input) minus1 :: u64 where "minus1 \<equiv> - 1"

section \<open>Arguments\<close>

definition fetchaddr :: "u64 \<Rightarrow> kernel \<Rightarrow> u64 option outcome" where
  "fetchaddr addr k =
     (let sz = p_sz (cur_proc k) in
      if addr \<ge> sz \<or> addr + 8 > sz then Ret None
      else
        obind (copyin (p_pagetable (cur_proc k)) (\<lambda>_. 0) 0 addr 8 (k_mem k)) (\<lambda>(r, d).
        Ret (if r \<noteq> 0 then None else Some (load64 d 0))))"

text \<open>The buffer is \<open>buf\<close> from \<open>off\<close>; the result is the length of the string or -1.\<close>

definition fetchstr :: "u64 \<Rightarrow> bytes \<Rightarrow> nat \<Rightarrow> nat \<Rightarrow> kernel \<Rightarrow> (int \<times> bytes) outcome" where
  "fetchstr addr buf off maxlen k =
     obind (copyinstr (p_pagetable (cur_proc k)) buf off addr maxlen (k_mem k)) (\<lambda>(r, buf).
     if r < 0 then Ret (-1, buf)
     else case strlen buf off of None \<Rightarrow> Fail Diverged | Some n \<Rightarrow> Ret (int n, buf))"

definition argraw :: "nat \<Rightarrow> kernel \<Rightarrow> u64 outcome" where
  "argraw n k = (if n \<le> 5 then Ret (tf_get (k_cur k) (TF_a0 + 8 * n) k) else opanic ''argraw'')"

definition argint :: "nat \<Rightarrow> kernel \<Rightarrow> u32 outcome" where
  "argint n k = obind (argraw n k) (\<lambda>x. Ret (ucast x))"

definition argaddr :: "nat \<Rightarrow> kernel \<Rightarrow> u64 outcome" where
  "argaddr n k = argraw n k"

definition argstr :: "nat \<Rightarrow> nat \<Rightarrow> kernel \<Rightarrow> (int \<times> bytes) outcome" where
  "argstr n maxlen k = obind (argaddr n k) (\<lambda>addr. fetchstr addr (\<lambda>_. 0) 0 maxlen k)"

text \<open>A path argument: the string, or \<open>None\<close> when argstr() fails.\<close>

definition argpath :: "nat \<Rightarrow> kernel \<Rightarrow> u8 list option outcome" where
  "argpath n k = obind (argstr n MAXPATH k) (\<lambda>(r, buf). Ret (if r < 0 then None else Some (cstring buf MAXPATH)))"

section \<open>File descriptors\<close>

definition argfd :: "nat \<Rightarrow> kernel \<Rightarrow> (nat \<times> nat) option outcome" where
  "argfd n k =
     obind (argint n k) (\<lambda>fd.
     if sint fd < 0 \<or> sint fd \<ge> int NOFILE then Ret None
     else Ret (case p_ofile (cur_proc k) (unat fd) of None \<Rightarrow> None | Some f \<Rightarrow> Some (unat fd, f)))"

definition set_ofile :: "nat \<Rightarrow> nat option \<Rightarrow> kernel \<Rightarrow> kernel" where
  "set_ofile fd f k = upd_proc (k_cur k) (\<lambda>x. x\<lparr>p_ofile := (p_ofile x)(fd := f)\<rparr>) k"

definition fdalloc :: "nat \<Rightarrow> kernel \<Rightarrow> nat option \<times> kernel" where
  "fdalloc f k = (case scan (\<lambda>fd. p_ofile (cur_proc k) fd = None) 0 NOFILE of
     None \<Rightarrow> (None, k) | Some fd \<Rightarrow> (Some fd, set_ofile fd (Some f) k))"

definition sys_dup :: "kernel \<Rightarrow> (u64 \<times> kernel) outcome" where
  "sys_dup k =
     obind (argfd 0 k) (\<lambda>r.
     case r of None \<Rightarrow> Ret (minus1, k)
     | Some (_, f) \<Rightarrow>
         (case fdalloc f k of
            (None, k) \<Rightarrow> Ret (minus1, k)
          | (Some fd, k) \<Rightarrow> obind (filedup f k) (\<lambda>(_, k). Ret (of_nat fd, k))))"

definition sys_read :: "kernel \<Rightarrow> (u64 \<times> kernel) outcome" where
  "sys_read k =
     obind (argaddr 1 k) (\<lambda>p.
     obind (argint 2 k) (\<lambda>n.
     obind (argfd 0 k) (\<lambda>r.
     case r of None \<Rightarrow> Ret (minus1, k)
     | Some (_, f) \<Rightarrow> obind (fileread f p n k) (\<lambda>(r, k). Ret (of_int r, k)))))"

definition sys_write :: "kernel \<Rightarrow> (u64 \<times> kernel) outcome" where
  "sys_write k =
     obind (argaddr 1 k) (\<lambda>p.
     obind (argint 2 k) (\<lambda>n.
     obind (argfd 0 k) (\<lambda>r.
     case r of None \<Rightarrow> Ret (minus1, k)
     | Some (_, f) \<Rightarrow> obind (filewrite f p n k) (\<lambda>(r, k). Ret (of_int r, k)))))"

definition sys_close :: "kernel \<Rightarrow> (u64 \<times> kernel) outcome" where
  "sys_close k =
     obind (argfd 0 k) (\<lambda>r.
     case r of None \<Rightarrow> Ret (minus1, k)
     | Some (fd, f) \<Rightarrow> obind (fileclose f (set_ofile fd None k)) (\<lambda>k. Ret (0, k)))"

definition sys_fstat :: "kernel \<Rightarrow> (u64 \<times> kernel) outcome" where
  "sys_fstat k =
     obind (argaddr 1 k) (\<lambda>st.
     obind (argfd 0 k) (\<lambda>r.
     case r of None \<Rightarrow> Ret (minus1, k)
     | Some (_, f) \<Rightarrow> obind (filestat f st k) (\<lambda>(r, k). Ret (of_int r, k))))"

section \<open>link and unlink\<close>

definition op_fail :: "kernel \<Rightarrow> (u64 \<times> kernel) outcome" where
  "op_fail k = obind (run_log end_op k) (\<lambda>k. Ret (minus1, k))"

definition put_fail :: "nat \<Rightarrow> kernel \<Rightarrow> (u64 \<times> kernel) outcome" where
  "put_fail ip k = obind (iunlockput ip k) op_fail"

definition add_nlink :: "nat \<Rightarrow> u16 \<Rightarrow> kernel \<Rightarrow> kernel outcome" where
  "add_nlink ip d k = iupdate ip (upd_inode ip (\<lambda>x. x\<lparr>i_nlink := i_nlink x + d\<rparr>) k)"

text \<open>The label \<open>bad\<close> of sys_link: the link count goes back.\<close>

definition link_bad :: "nat \<Rightarrow> kernel \<Rightarrow> (u64 \<times> kernel) outcome" where
  "link_bad ip k =
     obind (ilock ip k) (\<lambda>k.
     obind (add_nlink ip (- 1) k) (put_fail ip))"

definition sys_link :: "kernel \<Rightarrow> (u64 \<times> kernel) outcome" where
  "sys_link k =
     obind (argpath 0 k) (\<lambda>old.
     case old of None \<Rightarrow> Ret (minus1, k) | Some old \<Rightarrow>
     obind (argpath 1 k) (\<lambda>new.
     case new of None \<Rightarrow> Ret (minus1, k) | Some new \<Rightarrow>
     obind (run_log begin_op k) (\<lambda>k.
     obind (namei old k) (\<lambda>(r, k).
     case r of None \<Rightarrow> op_fail k
     | Some ip \<Rightarrow>
         obind (ilock ip k) (\<lambda>k.
         if i_type (k_inode k ip) = T_DIR then put_fail ip k
         else
           obind (add_nlink ip 1 k) (\<lambda>k.
           obind (iunlock ip k) (\<lambda>k.
           obind (nameiparent new (\<lambda>_. 0) k) (\<lambda>(r, name, k).
           case r of None \<Rightarrow> link_bad ip k
           | Some dp \<Rightarrow>
               obind (ilock dp k) (\<lambda>k.
               if i_dev (k_inode k dp) \<noteq> i_dev (k_inode k ip) then obind (iunlockput dp k) (link_bad ip)
               else
                 obind (dirlink dp name (i_inum (k_inode k ip)) k) (\<lambda>(r, k).
                 if r < 0 then obind (iunlockput dp k) (link_bad ip)
                 else
                   obind (iunlockput dp k) (\<lambda>k.
                   obind (iput ip k) (\<lambda>k.
                   obind (run_log end_op k) (\<lambda>k. Ret (0, k))))))))))))))"

function isdirempty_loop :: "nat \<Rightarrow> nat \<Rightarrow> kernel \<Rightarrow> (bool \<times> kernel) outcome" where
  "isdirempty_loop dp off k =
     (if off < unat (i_size (k_inode k dp)) then
        obind (readi dp False (de_addr k) (of_nat off) 16 k) (\<lambda>(r, k1).
        if r \<noteq> 16 then opanic ''isdirempty: readi''
        else if de_inum k1 \<noteq> 0 then Ret (False, k1)
        else isdirempty_loop dp (off + dirent_size) k1)
      else Ret (True, k))"
  by pat_completeness auto
termination
  by (relation "measure (\<lambda>(dp, off, k). unat (i_size (k_inode k dp)) - off)") (auto simp: readi_size)

declare isdirempty_loop.simps [simp del]

definition isdirempty :: "nat \<Rightarrow> kernel \<Rightarrow> (bool \<times> kernel) outcome" where
  "isdirempty dp = isdirempty_loop dp (2 * dirent_size)"

definition is_name :: "string \<Rightarrow> bytes \<Rightarrow> bool" where
  "is_name s name \<longleftrightarrow> namecmp name (bytes_of (str s)) = 0"

text \<open>The part of sys_unlink after the entry is found: \<open>ip\<close> is the inode, \<open>off\<close> the entry's offset.\<close>

definition unlink_entry :: "nat \<Rightarrow> nat \<Rightarrow> u32 \<Rightarrow> kernel \<Rightarrow> (u64 \<times> kernel) outcome" where
  "unlink_entry dp ip off k =
     obind (writei dp False (de_addr k) off 16 (kstore (\<lambda>m. memset (unat (de_addr k)) 0 dirent_size m) k)) (\<lambda>(r, k).
     if r \<noteq> 16 then opanic ''unlink: writei''
     else
       obind (if i_type (k_inode k ip) = T_DIR then add_nlink dp (- 1) k else Ret k) (\<lambda>k.
       obind (iunlockput dp k) (\<lambda>k.
       obind (add_nlink ip (- 1) k) (\<lambda>k.
       obind (iunlockput ip k) (\<lambda>k.
       obind (run_log end_op k) (\<lambda>k. Ret (0, k)))))))"

definition sys_unlink :: "kernel \<Rightarrow> (u64 \<times> kernel) outcome" where
  "sys_unlink k =
     obind (argpath 0 k) (\<lambda>path.
     case path of None \<Rightarrow> Ret (minus1, k) | Some path \<Rightarrow>
     obind (run_log begin_op k) (\<lambda>k.
     obind (nameiparent path (\<lambda>_. 0) k) (\<lambda>(r, name, k).
     case r of None \<Rightarrow> op_fail k
     | Some dp \<Rightarrow>
         obind (ilock dp k) (\<lambda>k.
         if is_name ''.'' name \<or> is_name ''..'' name then put_fail dp k
         else
           obind (dirlookup dp name k) (\<lambda>(r, k).
           case r of None \<Rightarrow> put_fail dp k
           | Some (ip, off) \<Rightarrow>
               obind (ilock ip k) (\<lambda>k.
               if sint (i_nlink (k_inode k ip)) < 1 then opanic ''unlink: nlink < 1''
               else
                 obind (if i_type (k_inode k ip) = T_DIR then isdirempty ip k else Ret (True, k)) (\<lambda>(empty, k).
                 if \<not> empty then obind (iunlockput ip k) (put_fail dp)
                 else unlink_entry dp ip off k)))))))"

section \<open>create and open\<close>

text \<open>The label \<open>fail\<close> of create.\<close>

definition create_fail :: "nat \<Rightarrow> nat \<Rightarrow> kernel \<Rightarrow> (nat option \<times> kernel) outcome" where
  "create_fail dp ip k =
     obind (iupdate ip (upd_inode ip (\<lambda>x. x\<lparr>i_nlink := 0\<rparr>) k)) (\<lambda>k.
     obind (iunlockput ip k) (\<lambda>k.
     obind (iunlockput dp k) (\<lambda>k. Ret (None, k))))"

text \<open>The entries \<open>.\<close> and \<open>..\<close> of a new directory; \<open>False\<close> when one could not be written.\<close>

definition link_dots :: "nat \<Rightarrow> nat \<Rightarrow> kernel \<Rightarrow> (bool \<times> kernel) outcome" where
  "link_dots dp ip k =
     obind (dirlink ip (bytes_of (str ''.'')) (i_inum (k_inode k ip)) k) (\<lambda>(r, k).
     if r < 0 then Ret (False, k)
     else obind (dirlink ip (bytes_of (str ''..'')) (i_inum (k_inode k dp)) k) (\<lambda>(r, k). Ret (\<not> r < 0, k)))"

definition create :: "u8 list \<Rightarrow> u16 \<Rightarrow> u16 \<Rightarrow> u16 \<Rightarrow> kernel \<Rightarrow> (nat option \<times> kernel) outcome" where
  "create path type major minor k =
     obind (nameiparent path (\<lambda>_. 0) k) (\<lambda>(r, name, k).
     case r of None \<Rightarrow> Ret (None, k)
     | Some dp \<Rightarrow>
         obind (ilock dp k) (\<lambda>k.
         obind (dirlookup dp name k) (\<lambda>(r, k).
         case r of
           Some (ip, _) \<Rightarrow>
             obind (iunlockput dp k) (\<lambda>k.
             obind (ilock ip k) (\<lambda>k.
             if type = T_FILE \<and> (i_type (k_inode k ip) = T_FILE \<or> i_type (k_inode k ip) = T_DEVICE)
             then Ret (Some ip, k)
             else obind (iunlockput ip k) (\<lambda>k. Ret (None, k))))
         | None \<Rightarrow>
             obind (ialloc (i_dev (k_inode k dp)) type k) (\<lambda>(r, k).
             case r of None \<Rightarrow> obind (iunlockput dp k) (\<lambda>k. Ret (None, k))
             | Some ip \<Rightarrow>
                 obind (ilock ip k) (\<lambda>k.
                 obind (iupdate ip (upd_inode ip (\<lambda>x. x\<lparr>i_major := major, i_minor := minor, i_nlink := 1\<rparr>) k)) (\<lambda>k.
                 obind (if type = T_DIR then link_dots dp ip k else Ret (True, k)) (\<lambda>(ok, k).
                 if \<not> ok then create_fail dp ip k
                 else
                   obind (dirlink dp name (i_inum (k_inode k ip)) k) (\<lambda>(r, k).
                   if r < 0 then create_fail dp ip k
                   else
                     obind (if type = T_DIR then add_nlink dp 1 k else Ret k) (\<lambda>k.
                     obind (iunlockput dp k) (\<lambda>k. Ret (Some ip, k)))))))))))"

abbreviation (input) O_WRONLY :: u32 where "O_WRONLY \<equiv> 1"
abbreviation (input) O_RDWR :: u32 where "O_RDWR \<equiv> 2"
abbreviation (input) O_CREATE :: u32 where "O_CREATE \<equiv> 0x200"
abbreviation (input) O_TRUNC :: u32 where "O_TRUNC \<equiv> 0x400"

text \<open>The first half of sys_open: the locked inode, or \<open>None\<close> when the call has failed.\<close>

definition open_inode :: "u8 list \<Rightarrow> u32 \<Rightarrow> kernel \<Rightarrow> (nat option \<times> kernel) outcome" where
  "open_inode path omode k =
     (if omode AND O_CREATE \<noteq> 0 then create path T_FILE 0 0 k
      else
        obind (namei path k) (\<lambda>(r, k).
        case r of None \<Rightarrow> Ret (None, k)
        | Some ip \<Rightarrow>
            obind (ilock ip k) (\<lambda>k.
            if i_type (k_inode k ip) = T_DIR \<and> omode \<noteq> 0 then obind (iunlockput ip k) (\<lambda>k. Ret (None, k))
            else Ret (Some ip, k))))"

text \<open>
  The second half: a file and a descriptor for the locked inode \<open>ip\<close>. \<open>f\<close> is the file when one
  was allocated but no descriptor was free.
\<close>

definition open_file :: "nat \<Rightarrow> u32 \<Rightarrow> kernel \<Rightarrow> (u64 \<times> kernel) outcome" where
  "open_file ip omode k =
     (case filealloc k of
        (None, k) \<Rightarrow> put_fail ip k
      | (Some f, k) \<Rightarrow>
          (case fdalloc f k of
             (None, k) \<Rightarrow> obind (fileclose f k) (put_fail ip)
           | (Some fd, k) \<Rightarrow>
               (let k = (if i_type (k_inode k ip) = T_DEVICE
                         then upd_file f (\<lambda>x. x\<lparr>f_type := FD_DEVICE, f_major := i_major (k_inode k ip)\<rparr>) k
                         else upd_file f (\<lambda>x. x\<lparr>f_type := FD_INODE, f_off := 0\<rparr>) k);
                    k = upd_file f (\<lambda>x. x\<lparr>f_readable := (omode AND O_WRONLY = 0),
                          f_writable := (omode AND O_WRONLY \<noteq> 0 \<or> omode AND O_RDWR \<noteq> 0), f_ip := Some ip\<rparr>) k in
                obind (if omode AND O_TRUNC \<noteq> 0 \<and> i_type (k_inode k ip) = T_FILE then itrunc ip k else Ret k) (\<lambda>k.
                obind (iunlock ip k) (\<lambda>k.
                obind (run_log end_op k) (\<lambda>k. Ret (of_nat fd, k)))))))"

definition sys_open :: "kernel \<Rightarrow> (u64 \<times> kernel) outcome" where
  "sys_open k =
     obind (argint 1 k) (\<lambda>omode.
     obind (argpath 0 k) (\<lambda>path.
     case path of None \<Rightarrow> Ret (minus1, k) | Some path \<Rightarrow>
     obind (run_log begin_op k) (\<lambda>k.
     obind (open_inode path omode k) (\<lambda>(r, k).
     case r of None \<Rightarrow> op_fail k
     | Some ip \<Rightarrow>
         let x = k_inode k ip in
         if i_type x = T_DEVICE \<and> (sint (i_major x) < 0 \<or> sint (i_major x) \<ge> NDEV) then put_fail ip k
         else open_file ip omode k))))"

text \<open>mkdir and mknod check their path inside the transaction.\<close>

definition create_call :: "u16 \<Rightarrow> u16 \<Rightarrow> u16 \<Rightarrow> kernel \<Rightarrow> (u64 \<times> kernel) outcome" where
  "create_call type major minor k =
     obind (argpath 0 k) (\<lambda>path.
     case path of None \<Rightarrow> op_fail k | Some path \<Rightarrow>
     obind (create path type major minor k) (\<lambda>(r, k).
     case r of None \<Rightarrow> op_fail k
     | Some ip \<Rightarrow> obind (iunlockput ip k) (\<lambda>k. obind (run_log end_op k) (\<lambda>k. Ret (0, k)))))"

definition sys_mkdir :: "kernel \<Rightarrow> (u64 \<times> kernel) outcome" where
  "sys_mkdir k = obind (run_log begin_op k) (create_call T_DIR 0 0)"

definition sys_mknod :: "kernel \<Rightarrow> (u64 \<times> kernel) outcome" where
  "sys_mknod k =
     obind (run_log begin_op k) (\<lambda>k.
     obind (argint 1 k) (\<lambda>major.
     obind (argint 2 k) (\<lambda>minor.
     create_call T_DEVICE (ucast major) (ucast minor) k)))"

definition sys_chdir :: "kernel \<Rightarrow> (u64 \<times> kernel) outcome" where
  "sys_chdir k =
     obind (run_log begin_op k) (\<lambda>k.
     obind (argpath 0 k) (\<lambda>path.
     case path of None \<Rightarrow> op_fail k | Some path \<Rightarrow>
     obind (namei path k) (\<lambda>(r, k).
     case r of None \<Rightarrow> op_fail k
     | Some ip \<Rightarrow>
         obind (ilock ip k) (\<lambda>k.
         if i_type (k_inode k ip) \<noteq> T_DIR then put_fail ip k
         else
           obind (iunlock ip k) (\<lambda>k.
           obind (case p_cwd (cur_proc k) of None \<Rightarrow> Fail Undef | Some cwd \<Rightarrow> iput cwd k) (\<lambda>k.
           obind (run_log end_op k) (\<lambda>k.
           Ret (0, upd_proc (k_cur k) (\<lambda>x. x\<lparr>p_cwd := Some ip\<rparr>) k))))))))"

section \<open>exec and pipe\<close>

text \<open>
  The loop that fetches the argument vector: the pages allocated so far, and whether the whole
  vector was fetched.
\<close>

function exec_args :: "nat \<Rightarrow> u64 \<Rightarrow> u64 list \<Rightarrow> kernel \<Rightarrow> (bool \<times> u64 list \<times> kernel) outcome" where
  "exec_args i uargv argv k =
     (if i < MAXARG then
        obind (fetchaddr (uargv + 8 * of_nat i) k) (\<lambda>r.
        case r of None \<Rightarrow> Ret (False, argv, k)
        | Some uarg \<Rightarrow>
            if uarg = 0 then Ret (True, argv, k)
            else
              (let (pg, k) = kkalloc k in
               if pg = 0 then Ret (False, argv, k)
               else
                 obind (fetchstr uarg (kload k) (unat pg) PGSIZE k) (\<lambda>(r, m).
                 let k = kstore (\<lambda>_. m) k in
                 if r < 0 then Ret (False, argv @ [pg], k)
                 else exec_args (Suc i) uargv (argv @ [pg]) k)))
      else Ret (False, argv, k))"
  by pat_completeness auto
termination
  by (relation "measure (\<lambda>(i, u, a, k). MAXARG - i)") auto

declare exec_args.simps [simp del]

definition free_args :: "u64 list \<Rightarrow> kernel \<Rightarrow> kernel outcome" where
  "free_args = ofold (\<lambda>pg. run_mem (kfree pg))"

definition sys_exec :: "kernel \<Rightarrow> (u64 \<times> kernel) outcome" where
  "sys_exec k =
     obind (argaddr 1 k) (\<lambda>uargv.
     obind (argpath 0 k) (\<lambda>path.
     case path of None \<Rightarrow> Ret (minus1, k) | Some path \<Rightarrow>
     obind (exec_args 0 uargv [] k) (\<lambda>(ok, argv, k).
     if ok then
       obind (exec path argv k) (\<lambda>(r, k). obind (free_args argv k) (\<lambda>k. Ret (of_int r, k)))
     else obind (free_args argv k) (\<lambda>k. Ret (minus1, k)))))"

text \<open>Closing both ends again; \<open>fds\<close> are the descriptors to clear.\<close>

definition pipe_fail :: "nat list \<Rightarrow> nat \<Rightarrow> nat \<Rightarrow> kernel \<Rightarrow> (u64 \<times> kernel) outcome" where
  "pipe_fail fds rf wrf k =
     obind (fileclose rf (fold (\<lambda>fd. set_ofile fd None) fds k)) (\<lambda>k.
     obind (fileclose wrf k) (\<lambda>k. Ret (minus1, k)))"

definition sys_pipe :: "kernel \<Rightarrow> (u64 \<times> kernel) outcome" where
  "sys_pipe k =
     obind (argaddr 0 k) (\<lambda>fdarray.
     obind (pipealloc k) (\<lambda>(r, k).
     case r of None \<Rightarrow> Ret (minus1, k)
     | Some (rf, wrf) \<Rightarrow>
         (case fdalloc rf k of
            (None, k) \<Rightarrow> pipe_fail [] rf wrf k
          | (Some fd0, k) \<Rightarrow>
              (case fdalloc wrf k of
                 (None, k) \<Rightarrow> pipe_fail [fd0] rf wrf k
               | (Some fd1, k) \<Rightarrow>
                   (let pt = p_pagetable (cur_proc k) in
                    obind (on_mem (copyout pt fdarray (word_bytes (of_nat fd0)) 0 4) k) (\<lambda>(r, k).
                    if r < 0 then pipe_fail [fd0, fd1] rf wrf k
                    else
                      obind (on_mem (copyout pt (fdarray + 4) (word_bytes (of_nat fd1)) 0 4) k) (\<lambda>(r, k).
                      if r < 0 then pipe_fail [fd0, fd1] rf wrf k else Ret (0, k))))))))"

end
