(* ===== verification/Xv6_Syscall.thy ===== *)
theory Xv6_Syscall
  imports Xv6_Sysfile
begin

text \<open>
  The process system calls (kernel/sysproc.c), the dispatch of system calls (kernel/syscall.c)
  and traps (kernel/trap.c). A call that ends or suspends its process is \<open>Asleep ()\<close>: nothing is
  stored in \<open>a0\<close>. The control registers a trap reads are arguments.
\<close>

section \<open>Process calls\<close>

type_synonym call = "((u64, unit) run \<times> kernel) outcome"

definition returning :: "(u64 \<times> kernel) outcome \<Rightarrow> call" where
  "returning m = obind m (\<lambda>(r, k). Ret (Done r, k))"

definition not_returning :: "kernel outcome \<Rightarrow> call" where
  "not_returning m = obind m (\<lambda>k. Ret (Asleep (), k))"

definition sys_exit :: "kernel \<Rightarrow> call" where
  "sys_exit k = obind (argint 0 k) (\<lambda>status. not_returning (exit_num status k))"

definition sys_exitmsg :: "kernel \<Rightarrow> call" where
  "sys_exitmsg k =
     obind (argstr 0 32 k) (\<lambda>(r, msg).
     if r < 0 then Ret (Done minus1, k) else not_returning (exit_msg msg k))"

definition sys_exit_num :: "kernel \<Rightarrow> call" where
  "sys_exit_num k = obind (argint 0 k) (\<lambda>status. not_returning (exit_num status k))"

definition sys_getpid :: "kernel \<Rightarrow> (u64 \<times> kernel) outcome" where
  "sys_getpid k = Ret (of_int (p_pid (cur_proc k)), k)"

definition sys_fork :: "kernel \<Rightarrow> (u64 \<times> kernel) outcome" where
  "sys_fork k = obind (fork k) (\<lambda>(r, k). Ret (of_int r, k))"

definition sys_wait :: "kernel \<Rightarrow> call" where
  "sys_wait k =
     obind (argaddr 0 k) (\<lambda>status_addr.
     obind (argaddr 1 k) (\<lambda>msg_addr.
     obind (wait status_addr msg_addr k) (\<lambda>(r, k).
     Ret (case r of Done v \<Rightarrow> Done (of_int v) | Asleep u \<Rightarrow> Asleep u, k))))"

definition sys_sbrk :: "kernel \<Rightarrow> (u64 \<times> kernel) outcome" where
  "sys_sbrk k =
     obind (argint 0 k) (\<lambda>n.
     let addr = p_sz (cur_proc k) in
     obind (growproc n k) (\<lambda>(r, k). Ret (if r < 0 then minus1 else addr, k)))"

text \<open>
  The loop of sys_sleep with \<open>ticks0\<close> read on entry. The comparison is between unsigned words,
  so a negative \<open>n\<close> waits for a very long time.
\<close>

definition sleep_until :: "u32 \<Rightarrow> u32 \<Rightarrow> kernel \<Rightarrow> call" where
  "sleep_until ticks0 n k =
     (if k_ticks k - ticks0 < n then
        (if killed (k_cur k) k then Ret (Done minus1, k) else not_returning (sleep ChTicks k))
      else Ret (Done 0, k))"

definition sys_sleep :: "kernel \<Rightarrow> call" where
  "sys_sleep k = obind (argint 0 k) (\<lambda>n. sleep_until (k_ticks k) n k)"

definition sys_kill :: "kernel \<Rightarrow> (u64 \<times> kernel) outcome" where
  "sys_kill k = obind (argint 0 k) (\<lambda>pid. let (r, k) = kill (sint pid) k in Ret (of_int r, k))"

definition sys_uptime :: "kernel \<Rightarrow> (u64 \<times> kernel) outcome" where
  "sys_uptime k = Ret (ucast (k_ticks k), k)"

definition sys_memsize :: "kernel \<Rightarrow> (u64 \<times> kernel) outcome" where
  "sys_memsize k = Ret (p_sz (cur_proc k), k)"

definition pids_bytes :: "nat \<Rightarrow> (nat \<Rightarrow> int) \<Rightarrow> bytes" where
  "pids_bytes n pids = words_bytes (map (\<lambda>i. of_int (pids i)) [0..<n])"

definition sys_forkn :: "kernel \<Rightarrow> (u64 \<times> kernel) outcome" where
  "sys_forkn k =
     obind (argint 0 k) (\<lambda>n.
     obind (argaddr 1 k) (\<lambda>pids_addr.
     if sint n < 1 \<or> sint n > 16 \<or> pids_addr = 0 then Ret (minus1, k)
     else
       obind (forkn (sint n) (\<lambda>_. 0) k) (\<lambda>(result, pids, k).
       if result = 0 then
         obind (on_mem (copyout (p_pagetable (cur_proc k)) pids_addr (pids_bytes (unat n) pids) 0 (4 * unat n)) k) (\<lambda>(r, k).
         if r < 0 then Ret (minus1, k) else Ret (of_int result, k))
       else Ret (of_int result, k))))"

definition sys_waitall :: "kernel \<Rightarrow> (u64 \<times> kernel) outcome" where
  "sys_waitall k =
     obind (argaddr 0 k) (\<lambda>n_addr.
     obind (argaddr 1 k) (\<lambda>statuses_addr.
     if n_addr = 0 \<or> statuses_addr = 0 then Ret (minus1, k)
     else obind (waitall n_addr statuses_addr k) (\<lambda>(r, k). Ret (of_int r, k))))"

section \<open>Dispatch\<close>

text \<open>The table of system calls, by the numbers of syscall.h; there is no call 22.\<close>

definition syscalls :: "nat \<Rightarrow> (kernel \<Rightarrow> call) option" where
  "syscalls num =
     (if num = 1 then Some (\<lambda>k. returning (sys_fork k))
      else if num = 2 then Some sys_exit
      else if num = 3 then Some sys_wait
      else if num = 4 then Some (\<lambda>k. returning (sys_pipe k))
      else if num = 5 then Some (\<lambda>k. returning (sys_read k))
      else if num = 6 then Some (\<lambda>k. returning (sys_kill k))
      else if num = 7 then Some (\<lambda>k. returning (sys_exec k))
      else if num = 8 then Some (\<lambda>k. returning (sys_fstat k))
      else if num = 9 then Some (\<lambda>k. returning (sys_chdir k))
      else if num = 10 then Some (\<lambda>k. returning (sys_dup k))
      else if num = 11 then Some (\<lambda>k. returning (sys_getpid k))
      else if num = 12 then Some (\<lambda>k. returning (sys_sbrk k))
      else if num = 13 then Some sys_sleep
      else if num = 14 then Some (\<lambda>k. returning (sys_uptime k))
      else if num = 15 then Some (\<lambda>k. returning (sys_open k))
      else if num = 16 then Some (\<lambda>k. returning (sys_write k))
      else if num = 17 then Some (\<lambda>k. returning (sys_mknod k))
      else if num = 18 then Some (\<lambda>k. returning (sys_unlink k))
      else if num = 19 then Some (\<lambda>k. returning (sys_link k))
      else if num = 20 then Some (\<lambda>k. returning (sys_mkdir k))
      else if num = 21 then Some (\<lambda>k. returning (sys_close k))
      else if num = 23 then Some (\<lambda>k. returning (sys_memsize k))
      else if num = 24 then Some sys_exitmsg
      else if num = 25 then Some (\<lambda>k. returning (sys_forkn k))
      else if num = 26 then Some (\<lambda>k. returning (sys_waitall k))
      else if num = 27 then Some sys_exit_num
      else None)"

text \<open>\<open>num\<close> is an \<open>int\<close>: register a7 is truncated to 32 bits.\<close>

definition syscall :: "kernel \<Rightarrow> kernel outcome" where
  "syscall k =
     (let p = k_cur k; num = (ucast (tf_get p TF_a7 k) :: u32) in
      case (if sint num > 0 then syscalls (unat num) else None) of
        Some f \<Rightarrow>
          obind (f k) (\<lambda>(r, k).
          case r of Done v \<Rightarrow> Ret (tf_set p TF_a0 v k) | Asleep _ \<Rightarrow> Ret k)
      | None \<Rightarrow>
          obind (kprintf (''%d %s: unknown sys call %d'' @ NL)
            [AInt (of_int (p_pid (k_proc k p))), AStr (Some (cstring (p_name (k_proc k p)) 16)), AInt num] k) (\<lambda>k.
          Ret (tf_set p TF_a0 minus1 k)))"

section \<open>Traps\<close>

text \<open>The control and status registers a trap handler reads, and the interrupt the PLIC reports.\<close>

record csr =
  r_sstatus :: u64
  r_sepc :: u64
  r_scause :: u64
  r_stval :: u64
  r_satp :: u64
  r_tp :: u64
  plic_irq :: nat

definition clockintr :: "kernel \<Rightarrow> kernel" where
  "clockintr k = wakeup (Some ChTicks) (k\<lparr>k_ticks := k_ticks k + 1\<rparr>)"

text \<open>
  2 is a timer interrupt, 1 another device, 0 not recognized. The completion interrupt of the
  disk has nothing to do here: a disk transfer of the model is finished when it returns.
\<close>

definition devintr :: "csr \<Rightarrow> kernel \<Rightarrow> (nat \<times> kernel) outcome" where
  "devintr c k =
     (if r_scause c AND 0x8000000000000000 \<noteq> 0 \<and> r_scause c AND 0xff = 9 then
        obind (if plic_irq c = 10 then uartintr k
               else if plic_irq c = 1 then Ret k
               else if plic_irq c \<noteq> 0 then
                 kprintf (''unexpected interrupt irq=%d'' @ NL) [AInt (of_nat (plic_irq c))] k
               else Ret k) (\<lambda>k. Ret (1, k))
      else if r_scause c = 0x8000000000000001 then
        Ret (2, if r_tp c = 0 then clockintr k else k)
      else Ret (0, k))"

text \<open>The trap frame set up for the next trap; the last result is the satp value for userret.\<close>

definition usertrapret :: "csr \<Rightarrow> kernel \<Rightarrow> u64 \<times> kernel" where
  "usertrapret c k =
     (let p = k_cur k;
          k = tf_set p TF_kernel_satp (r_satp c) k;
          k = tf_set p TF_kernel_sp (p_kstack (k_proc k p) + 4096) k;
          k = tf_set p TF_kernel_trap (a_usertrap (k_link k)) k;
          k = tf_set p TF_kernel_hartid (r_tp c) k
      in (push_bit 60 8 OR drop_bit 12 (p_pagetable (k_proc k p)), k))"

text \<open>
  What usertrap() does between saving the program counter and \<open>if(killed(p))\<close>: the interrupt
  that was handled, or \<open>Asleep ()\<close> when the process gave up the CPU for good or in a sleep.
\<close>

definition handle_trap :: "csr \<Rightarrow> kernel \<Rightarrow> ((nat, unit) run \<times> kernel) outcome" where
  "handle_trap c k =
     (let p = k_cur k in
      if r_scause c = 8 then
        (if killed p k then
           obind (exit (bytes_of (str ''syscall error'')) k) (\<lambda>k. Ret (Asleep (), k))
         else
           obind (syscall (tf_set p TF_epc (tf_get p TF_epc k + 4) k)) (\<lambda>k.
           Ret (if k_cur k = p then Done 0 else Asleep (), k)))
      else
        obind (devintr c k) (\<lambda>(which_dev, k).
        if which_dev \<noteq> 0 then Ret (Done which_dev, k)
        else
          obind (kprintf (''usertrap(): unexpected scause %p pid=%d'' @ NL)
            [APtr (r_scause c), AInt (of_int (p_pid (k_proc k p)))] k) (\<lambda>k.
          obind (kprintf (''            sepc=%p stval=%p'' @ NL) [APtr (r_sepc c), APtr (r_stval c)] k) (\<lambda>k.
          Ret (Done 0, setkilled p k)))))"

text \<open>
  After a timer interrupt the process yields; usertrapret() then runs when it is scheduled
  again, and so it does after a sleep.
\<close>

definition usertrap :: "csr \<Rightarrow> kernel \<Rightarrow> kernel outcome" where
  "usertrap c k =
     (let p = k_cur k in
      if r_sstatus c AND 0x100 \<noteq> 0 then opanic ''usertrap: not from user mode''
      else
        obind (handle_trap c (tf_set p TF_epc (r_sepc c) k)) (\<lambda>(r, k).
        case r of
          Asleep _ \<Rightarrow> Ret k
        | Done which_dev \<Rightarrow>
            if killed p k then exit (bytes_of (str ''killed'')) k
            else if which_dev = 2 then yield_cpu k
            else Ret (snd (usertrapret c k))))"

definition kerneltrap :: "csr \<Rightarrow> kernel \<Rightarrow> kernel outcome" where
  "kerneltrap c k =
     (if r_sstatus c AND 0x100 = 0 then opanic ''kerneltrap: not from supervisor mode''
      else if r_sstatus c AND 2 \<noteq> 0 then opanic ''kerneltrap: interrupts enabled''
      else
        obind (devintr c k) (\<lambda>(which_dev, k).
        if which_dev = 0 then opanic ''kerneltrap''
        else if which_dev = 2 \<and> k_cur k < NPROC \<and> p_state (cur_proc k) = RUNNING then yield_cpu k
        else Ret k))"

end
