(* ===== verification/Xv6_Assignment2.thy ===== *)
theory Xv6_Assignment2
  imports Xv6_Syscall
begin

text \<open>
  The kernel of src/Assignment2 is that of src/Assignment1_2 without the additions to proc.c,
  sysproc.c and syscall.c: exit() takes the status it leaves in \<open>xstate\<close>, wait() takes one
  address, and there is no exit message, forkn or waitall. The operations that differ are here,
  over the same state.
\<close>

definition a2_exit :: "u32 \<Rightarrow> kernel \<Rightarrow> kernel outcome" where
  "a2_exit status k =
     (let p = k_cur k in
      if k_initproc k = Some p then opanic ''init exiting''
      else
        obind (close_files p k) (\<lambda>k.
        obind (iput_op (p_cwd (k_proc k p)) k) (\<lambda>k.
        let k = upd_proc p (\<lambda>x. x\<lparr>p_cwd := None\<rparr>) k;
            k = reparent p k;
            k = wakeup (map_option ChProc (p_parent (k_proc k p))) k
        in sched (upd_proc p (\<lambda>x. x\<lparr>p_state := ZOMBIE, p_xstate := status\<rparr>) k))))"

definition a2_wait_reap :: "nat \<Rightarrow> u64 \<Rightarrow> kernel \<Rightarrow> (int \<times> kernel) outcome" where
  "a2_wait_reap pp addr k =
     (let p = k_cur k; pid = p_pid (k_proc k pp); pt = p_pagetable (k_proc k p) in
      obind (if addr \<noteq> 0 then on_mem (copyout pt addr (word_bytes (p_xstate (k_proc k pp))) 0 4) k
             else Ret (0, k)) (\<lambda>(r, k).
      if r < 0 then Ret (-1, k)
      else obind (freeproc pp k) (\<lambda>k. Ret (pid, k))))"

definition a2_wait :: "u64 \<Rightarrow> kernel \<Rightarrow> ((int, unit) run \<times> kernel) outcome" where
  "a2_wait addr k =
     (let p = k_cur k in
      case scan (zombie_child p k) 0 NPROC of
        Some pp \<Rightarrow> obind (a2_wait_reap pp addr k) (\<lambda>(r, k). Ret (Done r, k))
      | None \<Rightarrow>
          if \<not> havekids p k \<or> killed p k then Ret (Done (-1), k)
          else obind (sleep (ChProc p) k) (\<lambda>k. Ret (Asleep (), k)))"

definition a2_sys_exit :: "kernel \<Rightarrow> call" where
  "a2_sys_exit k = obind (argint 0 k) (\<lambda>n. not_returning (a2_exit n k))"

definition a2_sys_wait :: "kernel \<Rightarrow> call" where
  "a2_sys_wait k =
     obind (argaddr 0 k) (\<lambda>p.
     obind (a2_wait p k) (\<lambda>(r, k).
     Ret (case r of Done v \<Rightarrow> Done (of_int v) | Asleep u \<Rightarrow> Asleep u, k)))"

text \<open>The table of system calls 1 to 21.\<close>

definition a2_syscalls :: "nat \<Rightarrow> (kernel \<Rightarrow> call) option" where
  "a2_syscalls num =
     (if num = 2 then Some a2_sys_exit
      else if num = 3 then Some a2_sys_wait
      else if num \<le> 21 then syscalls num
      else None)"

definition a2_syscall :: "kernel \<Rightarrow> kernel outcome" where
  "a2_syscall k =
     (let p = k_cur k; num = (ucast (tf_get p TF_a7 k) :: u32) in
      case (if sint num > 0 then a2_syscalls (unat num) else None) of
        Some f \<Rightarrow>
          obind (f k) (\<lambda>(r, k).
          case r of Done v \<Rightarrow> Ret (tf_set p TF_a0 v k) | Asleep _ \<Rightarrow> Ret k)
      | None \<Rightarrow>
          obind (kprintf (''%d %s: unknown sys call %d'' @ NL)
            [AInt (of_int (p_pid (k_proc k p))), AStr (Some (cstring (p_name (k_proc k p)) 16)), AInt num] k) (\<lambda>k.
          Ret (tf_set p TF_a0 minus1 k)))"

definition a2_handle_trap :: "csr \<Rightarrow> kernel \<Rightarrow> ((nat, unit) run \<times> kernel) outcome" where
  "a2_handle_trap c k =
     (let p = k_cur k in
      if r_scause c = 8 then
        (if killed p k then obind (a2_exit (- 1) k) (\<lambda>k. Ret (Asleep (), k))
         else
           obind (a2_syscall (tf_set p TF_epc (tf_get p TF_epc k + 4) k)) (\<lambda>k.
           Ret (if k_cur k = p then Done 0 else Asleep (), k)))
      else
        obind (devintr c k) (\<lambda>(which_dev, k).
        if which_dev \<noteq> 0 then Ret (Done which_dev, k)
        else
          obind (kprintf (''usertrap(): unexpected scause %p pid=%d'' @ NL)
            [APtr (r_scause c), AInt (of_int (p_pid (k_proc k p)))] k) (\<lambda>k.
          obind (kprintf (''            sepc=%p stval=%p'' @ NL) [APtr (r_sepc c), APtr (r_stval c)] k) (\<lambda>k.
          Ret (Done 0, setkilled p k)))))"

definition a2_usertrap :: "csr \<Rightarrow> kernel \<Rightarrow> kernel outcome" where
  "a2_usertrap c k =
     (let p = k_cur k in
      if r_sstatus c AND 0x100 \<noteq> 0 then opanic ''usertrap: not from user mode''
      else
        obind (a2_handle_trap c (tf_set p TF_epc (r_sepc c) k)) (\<lambda>(r, k).
        case r of
          Asleep _ \<Rightarrow> Ret k
        | Done which_dev \<Rightarrow>
            if killed p k then a2_exit (- 1) k
            else if which_dev = 2 then yield_cpu k
            else Ret (snd (usertrapret c k))))"

end
