(* ===== verification/Xv6_Grep.thy ===== *)
theory Xv6_Grep
  imports Xv6_Prelude
begin

text \<open>
  The regular-expression matcher and the line loop of user/grep.c. A C string is the list of its
  characters without the final zero byte; reading past the end of \<open>re\<close> sees that zero byte.
\<close>

abbreviation (input) caret :: u8 where "caret \<equiv> 94"
abbreviation (input) dot :: u8 where "dot \<equiv> 46"
abbreviation (input) star :: u8 where "star \<equiv> 42"
abbreviation (input) dollar :: u8 where "dollar \<equiv> 36"
abbreviation (input) nl :: u8 where "nl \<equiv> 10"

section \<open>The matcher\<close>

function (sequential) matchhere :: "u8 list \<Rightarrow> u8 list \<Rightarrow> bool"
  and matchstar :: "u8 \<Rightarrow> u8 list \<Rightarrow> u8 list \<Rightarrow> bool" where
  "matchhere re tx =
     (case re of
        [] \<Rightarrow> True
      | c # re' \<Rightarrow>
          if re' \<noteq> [] \<and> hd re' = star then matchstar c (tl re') tx
          else if c = dollar \<and> re' = [] then tx = []
          else case tx of
            [] \<Rightarrow> False
          | t # tx' \<Rightarrow> if c = dot \<or> c = t then matchhere re' tx' else False)"
| "matchstar c re tx =
     (if matchhere re tx then True
      else case tx of
        [] \<Rightarrow> False
      | t # tx' \<Rightarrow> if t = c \<or> c = dot then matchstar c re tx' else False)"
  by pat_completeness auto
termination
  by (relation "measure (\<lambda>x. case x of Inl (re, tx) \<Rightarrow> 2 * (length re + length tx)
      | Inr (c, re, tx) \<Rightarrow> 2 * (length re + length tx) + 1)")
    (auto simp: neq_Nil_conv)

declare matchhere.simps [simp del] matchstar.simps [simp del]

fun match_from :: "u8 list \<Rightarrow> u8 list \<Rightarrow> bool" where
  "match_from re [] = matchhere re []"
| "match_from re (t # tx) = (if matchhere re (t # tx) then True else match_from re tx)"

definition match :: "u8 list \<Rightarrow> u8 list \<Rightarrow> bool" where
  "match re tx = (if re \<noteq> [] \<and> hd re = caret then matchhere (tl re) tx else match_from re tx)"

section \<open>What a pattern denotes\<close>

text \<open>A character, any character, or repetition of one of these.\<close>

datatype piece = One u8 | Many u8

text \<open>The pieces of a pattern and whether it ends in \<open>$\<close>.\<close>

fun pieces :: "u8 list \<Rightarrow> piece list \<times> bool" where
  "pieces [] = ([], False)"
| "pieces (c # d # re) =
     (if d = star then (let (ps, e) = pieces re in (Many c # ps, e))
      else (let (ps, e) = pieces (d # re) in (One c # ps, e)))"
| "pieces [c] = (if c = dollar then ([], True) else ([One c], False))"

definition accepts :: "u8 \<Rightarrow> u8 \<Rightarrow> bool" where
  "accepts c t \<longleftrightarrow> c = dot \<or> c = t"

fun denotes :: "piece list \<Rightarrow> u8 list \<Rightarrow> bool" where
  "denotes [] w \<longleftrightarrow> w = []"
| "denotes (One c # ps) w \<longleftrightarrow> (\<exists>t v. w = t # v \<and> accepts c t \<and> denotes ps v)"
| "denotes (Many c # ps) w \<longleftrightarrow> (\<exists>u v. w = u @ v \<and> (\<forall>t \<in> set u. accepts c t) \<and> denotes ps v)"

text \<open>A match at the start of the text.\<close>

definition begins :: "piece list \<Rightarrow> bool \<Rightarrow> u8 list \<Rightarrow> bool" where
  "begins ps e tx \<longleftrightarrow> (\<exists>w post. tx = w @ post \<and> denotes ps w \<and> (e \<longrightarrow> post = []))"

definition starts :: "u8 list \<Rightarrow> u8 list \<Rightarrow> bool" where
  "starts re tx \<longleftrightarrow> begins (fst (pieces re)) (snd (pieces re)) tx"

lemma begins_Nil: "begins [] e tx \<longleftrightarrow> (e \<longrightarrow> tx = [])"
  by (auto simp: begins_def)

lemma begins_One: "begins (One c # ps) e tx \<longleftrightarrow> (\<exists>t tx'. tx = t # tx' \<and> accepts c t \<and> begins ps e tx')"
proof
  assume "begins (One c # ps) e tx"
  then obtain w post where "tx = w @ post" "denotes (One c # ps) w" "e \<longrightarrow> post = []"
    unfolding begins_def by blast
  then obtain t v where "tx = t # (v @ post)" "accepts c t" "denotes ps v" "e \<longrightarrow> post = []" by auto
  moreover from this have "begins ps e (v @ post)" unfolding begins_def by blast
  ultimately show "\<exists>t tx'. tx = t # tx' \<and> accepts c t \<and> begins ps e tx'" by blast
next
  assume "\<exists>t tx'. tx = t # tx' \<and> accepts c t \<and> begins ps e tx'"
  then obtain t v post where "tx = (t # v) @ post" "accepts c t" "denotes ps v" "e \<longrightarrow> post = []"
    by (auto simp: begins_def)
  moreover from this have "denotes (One c # ps) (t # v)" by simp
  ultimately show "begins (One c # ps) e tx" unfolding begins_def by blast
qed

lemma begins_Many:
  "begins (Many c # ps) e tx \<longleftrightarrow>
     begins ps e tx \<or> (\<exists>t tx'. tx = t # tx' \<and> accepts c t \<and> begins (Many c # ps) e tx')"
  (is "?l \<longleftrightarrow> _ \<or> ?r")
proof
  assume ?l
  then obtain w post where "tx = w @ post" "denotes (Many c # ps) w" and e: "e \<longrightarrow> post = []"
    unfolding begins_def by blast
  then obtain u v where w: "tx = u @ v @ post" "\<forall>t \<in> set u. accepts c t" "denotes ps v" by auto
  show "begins ps e tx \<or> ?r"
  proof (cases u)
    case Nil
    with w have "begins ps e tx" unfolding begins_def using e by auto
    then show ?thesis ..
  next
    case (Cons x u')
    then have "denotes (Many c # ps) (u' @ v)" using w by auto
    then have "begins (Many c # ps) e ((u' @ v) @ post)" unfolding begins_def using e by blast
    with w Cons show ?thesis by auto
  qed
next
  assume "begins ps e tx \<or> ?r"
  then show ?l
  proof
    assume "begins ps e tx"
    then obtain v post where v: "tx = v @ post" "denotes ps v" "e \<longrightarrow> post = []" by (auto simp: begins_def)
    have "denotes (Many c # ps) v" unfolding denotes.simps by (rule exI [of _ "[]"]) (use v in auto)
    with v show ?l unfolding begins_def by blast
  next
    assume ?r
    then obtain t w post where "tx = (t # w) @ post" "accepts c t" "denotes (Many c # ps) w" "e \<longrightarrow> post = []"
      unfolding begins_def by (metis append_Cons)
    then obtain u v where v: "tx = (t # u @ v) @ post" "accepts c t" "\<forall>t \<in> set u. accepts c t"
      "denotes ps v" "e \<longrightarrow> post = []" by auto
    have "denotes (Many c # ps) (t # u @ v)" unfolding denotes.simps by (rule exI [of _ "t # u"]) (use v in auto)
    with v show ?l unfolding begins_def by blast
  qed
qed

lemma starts_Nil [simp]: "starts [] tx"
  by (simp add: starts_def begins_Nil)

lemma starts_one:
  assumes "re = [] \<or> hd re \<noteq> star" and "\<not> (c = dollar \<and> re = [])"
  shows "starts (c # re) tx \<longleftrightarrow> (\<exists>t tx'. tx = t # tx' \<and> accepts c t \<and> starts re tx')"
proof -
  have "pieces (c # re) = (One c # fst (pieces re), snd (pieces re))"
    using assms by (cases re) (auto simp: split_def Let_def)
  then show ?thesis by (simp add: starts_def begins_One)
qed

lemma starts_many:
  "starts (c # star # re) tx \<longleftrightarrow>
     starts re tx \<or> (\<exists>t tx'. tx = t # tx' \<and> accepts c t \<and> starts (c # star # re) tx')"
proof -
  have "pieces (c # star # re) = (Many c # fst (pieces re), snd (pieces re))"
    by (simp add: split_def Let_def)
  then show ?thesis unfolding starts_def by (simp only: fst_conv snd_conv) (rule begins_Many)
qed

lemma match_starts:
  "matchhere re tx \<longleftrightarrow> starts re tx"
  "matchstar c re tx \<longleftrightarrow> starts (c # star # re) tx"
proof (induction re tx and c re tx rule: matchhere_matchstar.induct)
  case (1 re tx)
  show ?case
  proof (cases re)
    case (Cons c re')
    show ?thesis
    proof (cases "re' \<noteq> [] \<and> hd re' = star")
      case True
      then have e: "c # star # tl re' = re" using Cons by (cases re') auto
      have "matchhere (c # star # tl re') tx = matchstar c (tl re') tx"
        by (simp add: matchhere.simps [of "c # star # tl re'"])
      then have "matchhere re tx = matchstar c (tl re') tx" by (simp only: e)
      with "1.IH"(1) [OF Cons True] e show ?thesis by simp
    next
      case False
      show ?thesis
      proof (cases "c = dollar \<and> re' = []")
        case True
        then show ?thesis using Cons by (auto simp: matchhere.simps [of "[dollar]"] starts_def begins_Nil)
      next
        case d: False
        have s: "starts re tx \<longleftrightarrow> (\<exists>t tx'. tx = t # tx' \<and> accepts c t \<and> starts re' tx')"
          unfolding Cons by (rule starts_one) (use False d in auto)
        show ?thesis
        proof (cases tx)
          case Nil
          with s \<open>re = c # re'\<close> False d show ?thesis by (auto simp: matchhere.simps [of "c # re'"])
        next
          case (Cons t tx')
          with s \<open>re = c # re'\<close> False d "1.IH"(2) [OF \<open>re = c # re'\<close> False d Cons] show ?thesis
            by (auto simp: matchhere.simps [of "c # re'"] accepts_def)
        qed
      qed
    qed
  next
    case Nil
    then show ?thesis by (simp add: matchhere.simps [of "[]"])
  qed
next
  case (2 c re tx)
  show ?case
  proof (cases tx)
    case Nil
    with 2 show ?thesis by (simp add: matchstar.simps [of c re "[]"] starts_many [of c re "[]"])
  next
    case (Cons t tx')
    with 2 show ?thesis
      by (auto simp: matchstar.simps [of c re "t # tx'"] starts_many [of c re "t # tx'"] accepts_def)
  qed
qed

lemma match_from_starts: "match_from re tx \<longleftrightarrow> (\<exists>pre s. tx = pre @ s \<and> starts re s)"
proof (induction tx)
  case (Cons t tx)
  have "(\<exists>pre s. t # tx = pre @ s \<and> starts re s) \<longleftrightarrow>
      starts re (t # tx) \<or> (\<exists>pre s. tx = pre @ s \<and> starts re s)"
    by (auto simp: Cons_eq_append_conv)
  with Cons match_starts(1) show ?case by auto
qed (simp add: match_starts(1))

section \<open>Properties\<close>

text \<open>
  C34. grep's matcher decides the language of its pattern: a text matches when some part of it is
  a string the pattern denotes, the part starting the text if the pattern begins with \<open>^\<close> and
  ending it if the pattern ends with \<open>$\<close>. The greedy-free backtracking over \<open>*\<close> finds a split
  whenever there is one.
\<close>

theorem match_decides:
  "match re tx \<longleftrightarrow>
     (let anchored = (re \<noteq> [] \<and> hd re = caret); (ps, ends) = pieces (if anchored then tl re else re) in
      \<exists>pre w post. tx = pre @ w @ post \<and> denotes ps w \<and> (anchored \<longrightarrow> pre = []) \<and> (ends \<longrightarrow> post = []))"
  unfolding match_def match_starts(1) match_from_starts starts_def begins_def by (auto simp: Let_def split_def)

theorem match_decides_witness:
  "match [caret, 97, dot, star, 98, dollar] [97, 120, 121, 98] \<and> \<not> match [98, 98] [97, 98, 97]"
proof
  have "denotes [One 97, Many dot, One 98] [97, 120, 121, 98]"
    by (auto simp: accepts_def intro: exI [of _ "[120, 121]"])
  then show "match [caret, 97, dot, star, 98, dollar] [97, 120, 121, 98]"
    by (subst match_decides) (auto simp: Let_def intro: exI [of _ "[97, 120, 121, 98]"])
  show "\<not> match [98, 98] [97, 98, 97]"
    by (subst match_decides) (auto simp: Let_def accepts_def append_eq_Cons_conv Cons_eq_append_conv)
qed

section \<open>The line loop\<close>

text \<open>
  The inner loop of grep over the buffer: the lines up to the first zero byte; the bytes written
  and the rest of the buffer. strchr() does not look past a zero byte.
\<close>

function grep_lines :: "u8 list \<Rightarrow> u8 list \<Rightarrow> u8 list \<times> u8 list" where
  "grep_lines pattern buf =
     (let line = takeWhile (\<lambda>c. c \<noteq> nl \<and> c \<noteq> 0) buf; rest = dropWhile (\<lambda>c. c \<noteq> nl \<and> c \<noteq> 0) buf in
      if rest \<noteq> [] \<and> hd rest = nl then
        (let (out, left) = grep_lines pattern (tl rest)
         in ((if match pattern line then line @ [nl] else []) @ out, left))
      else ([], buf))"
  by pat_completeness auto
termination
proof (relation "measure (\<lambda>(p, buf). length buf)", goal_cases)
  case (2 p buf line rest)
  have "length rest \<le> length buf" unfolding 2(2) by (rule length_dropWhile_le)
  with 2(3) show ?case by (cases rest) auto
qed simp

declare grep_lines.simps [simp del]

abbreviation (input) buf_size :: nat where "buf_size \<equiv> 1024"

text \<open>
  The outer loop on a regular file with the bytes \<open>inp\<close> left: read() returns as many bytes as
  fit in the buffer of 1024 bytes with its terminating zero byte; it ends when none fits.
\<close>

function grep :: "u8 list \<Rightarrow> u8 list \<Rightarrow> u8 list \<Rightarrow> u8 list" where
  "grep pattern buf inp =
     (let n = min (buf_size - length buf - 1) (length inp) in
      if n = 0 then []
      else let (out, left) = grep_lines pattern (buf @ take n inp)
           in out @ grep pattern left (drop n inp))"
  by pat_completeness auto
termination
  by (relation "measure (\<lambda>(p, buf, inp). length inp)") auto

declare grep.simps [simp del]



definition text_line :: "u8 list \<Rightarrow> bool" where
  "text_line l \<longleftrightarrow> nl \<notin> set l \<and> 0 \<notin> set l"

definition unlines :: "u8 list list \<Rightarrow> u8 list" where
  "unlines ls = concat (map (\<lambda>l. l @ [nl]) ls)"

lemma unlines_simps [simp]:
  "unlines [] = []"
  "unlines (l # ls) = l @ nl # unlines ls"
  "unlines (ls @ ls') = unlines ls @ unlines ls'"
  by (simp_all add: unlines_def)

lemma grep_lines_unlines:
  assumes "\<forall>l \<in> set ls. text_line l" and "text_line r"
  shows "grep_lines p (unlines ls @ r) = (unlines (filter (match p) ls), r)"
  using assms(1)
proof (induction ls)
  case Nil
  from assms(2) have "takeWhile (\<lambda>c. c \<noteq> nl \<and> c \<noteq> 0) r = r" "dropWhile (\<lambda>c. c \<noteq> nl \<and> c \<noteq> 0) r = []"
    by (auto simp: text_line_def)
  then show ?case by (simp add: grep_lines.simps [of p r])
next
  case (Cons l ls)
  then have l: "\<And>c. c \<in> set l \<Longrightarrow> c \<noteq> nl \<and> c \<noteq> 0" by (auto simp: text_line_def)
  have t: "takeWhile (\<lambda>c. c \<noteq> nl \<and> c \<noteq> 0) (l @ nl # xs) = l"
    and d: "dropWhile (\<lambda>c. c \<noteq> nl \<and> c \<noteq> 0) (l @ nl # xs) = nl # xs" for xs
    using l by (simp_all add: takeWhile_append2 dropWhile_append2)
  show ?case using Cons by (simp add: grep_lines.simps [of p "l @ nl # unlines ls @ r"] t d)
qed

text \<open>A prefix of a text is some of its lines and the beginning of the next.\<close>

lemma prefix_unlines:
  "\<lbrakk>xs @ ys = unlines ls; \<forall>l \<in> set ls. text_line l\<rbrakk> \<Longrightarrow>
     \<exists>ls1 ls2 r. ls = ls1 @ ls2 \<and> xs = unlines ls1 @ r \<and> r @ ys = unlines ls2 \<and> text_line r"
proof (induction ls arbitrary: xs)
  case Nil
  then show ?case by (auto simp: text_line_def)
next
  case (Cons l ls)
  from Cons.prems(1) have "xs @ ys = l @ (nl # unlines ls)" by simp
  then consider us where "xs @ us = l" "ys = us @ nl # unlines ls"
    | us where "xs = l @ us" "us @ ys = nl # unlines ls"
    by (auto simp: append_eq_append_conv2)
  then show ?case
  proof cases
    case 1
    with Cons.prems(2) have "text_line xs" by (auto simp: text_line_def)
    with Cons.prems(1) show ?thesis by (intro exI [of _ "[]"] exI [of _ "l # ls"] exI [of _ xs]) simp
  next
    case us: 2
    show ?thesis
    proof (cases us)
      case Nil
      with us Cons.prems show ?thesis
        by (intro exI [of _ "[]"] exI [of _ "l # ls"] exI [of _ xs]) (auto simp: text_line_def)
    next
      case (Cons u us')
      with us have u: "u = nl" "us' @ ys = unlines ls" by auto
      from Cons.IH [OF u(2)] Cons.prems(2) obtain ls1 ls2 r where
        "ls = ls1 @ ls2" "us' = unlines ls1 @ r" "r @ ys = unlines ls2" "text_line r" by auto
      with us Cons u show ?thesis
        by (intro exI [of _ "l # ls1"] exI [of _ ls2] exI [of _ r]) simp
    qed
  qed
qed

lemma line_start_short:
  assumes "xs @ ys = unlines ls" and "text_line xs" and "ys \<noteq> []"
    and "\<forall>l \<in> set ls. length l < buf_size - 1"
  shows "length xs < buf_size - 1"
proof (cases ls)
  case Nil
  with assms show ?thesis by simp
next
  case (Cons l ls')
  with assms(1) have "xs @ ys = l @ (nl # unlines ls')" by simp
  then obtain us where "xs @ us = l \<or> (xs = l @ us \<and> us @ ys = nl # unlines ls')"
    by (auto simp: append_eq_append_conv2)
  then have "length xs \<le> length l"
  proof
    assume "xs = l @ us \<and> us @ ys = nl # unlines ls'"
    with assms(2) show ?thesis by (cases us) (auto simp: text_line_def)
  qed auto
  with assms(4) Cons show ?thesis by auto
qed

lemma grep_unlines:
  "\<lbrakk>buf @ inp = unlines ls; text_line buf; \<forall>l \<in> set ls. text_line l \<and> length l < buf_size - 1\<rbrakk> \<Longrightarrow>
     grep p buf inp = unlines (filter (match p) ls)"
proof (induction "length inp" arbitrary: buf inp ls rule: less_induct)
  case less
  show ?case
  proof (cases "inp = []")
    case True
    with less.prems(1,2) have "ls = []" by (cases ls) (auto simp: text_line_def)
    with True show ?thesis by (simp add: grep.simps [of p buf "[]"])
  next
    case False
    from line_start_short [OF less.prems(1,2) False] less.prems(3)
    have "length buf < buf_size - 1" by auto
    define n where "n = min (buf_size - length buf - 1) (length inp)"
    have n: "n > 0" using False \<open>length buf < buf_size - 1\<close> by (auto simp: n_def)
    have "(buf @ take n inp) @ drop n inp = unlines ls" using less.prems(1) by simp
    from prefix_unlines [OF this] less.prems(3) obtain ls1 ls2 r where
      p: "ls = ls1 @ ls2" "buf @ take n inp = unlines ls1 @ r" "r @ drop n inp = unlines ls2" "text_line r"
      by blast
    have "length (drop n inp) < length inp" using n False by simp
    from less.hyps [OF this p(3,4)] less.prems(3) p(1)
    have "grep p r (drop n inp) = unlines (filter (match p) ls2)" by auto
    moreover have "grep_lines p (buf @ take n inp) = (unlines (filter (match p) ls1), r)"
      unfolding p(2) by (rule grep_lines_unlines) (use less.prems(3) p in auto)
    moreover have "grep p buf inp = (if n = 0 then [] else
        (case grep_lines p (buf @ take n inp) of (out, left) \<Rightarrow> out @ grep p left (drop n inp)))"
      by (subst grep.simps) (simp only: Let_def n_def)
    ultimately show ?thesis
      using n p(1) by simp
  qed
qed

text \<open>
  C35. On a file whose lines fit in the buffer, hold no zero byte and all end in a newline, the last
  one too, grep prints exactly the lines that match, in order, however the lines fall across the
  reads.
\<close>

theorem grep_prints_matches:
  assumes "\<forall>l \<in> set ls. text_line l \<and> length l < buf_size - 1"
  shows "grep p [] (unlines ls) = unlines (filter (match p) ls)"
  by (rule grep_unlines) (use assms in \<open>auto simp: text_line_def\<close>)

theorem grep_prints_matches_witness:
  "grep [97, dollar] [] (unlines [[98, 97], [97, 98], [97]]) = unlines [[98, 97], [97]]"
proof -
  have "match [97, dollar] [98, 97]" "match [97, dollar] [97]" "\<not> match [97, dollar] [97, 98]"
    by (simp_all add: match_def matchhere.simps)
  then show ?thesis
    using grep_prints_matches [of "[[98, 97], [97, 98], [97]]" "[97, dollar]"]
    by (simp add: text_line_def)
qed

end
