(* ===== verification/Xv6_Shell.thy ===== *)
theory Xv6_Shell
  imports Xv6_Prelude
begin

text \<open>
  The command parser of user/sh.c. The command line \<open>tx\<close> is the list of its characters without
  the final zero byte; a pointer into it is an index, so \<open>es\<close> is always \<open>length tx\<close>. A command is
  a tree whose words are pairs of the pointers \<open>q\<close> and \<open>eq\<close>. panic() ends the shell's child.
\<close>

section \<open>Tokens\<close>

abbreviation MAXARGS :: nat where "MAXARGS \<equiv> 10"

definition whitespace :: "u8 list" where "whitespace = [32, 9, 13, 10, 11]"

text \<open>The characters \<open><|>&;()\<close>.\<close>

definition symbols :: "u8 list" where "symbols = [60, 124, 62, 38, 59, 40, 41]"

definition char_at :: "u8 list \<Rightarrow> nat \<Rightarrow> u8" where
  "char_at tx s = (if s < length tx then tx ! s else 0)"

abbreviation space :: "u8 \<Rightarrow> bool" where "space c \<equiv> c \<in> set whitespace"
abbreviation plain :: "u8 \<Rightarrow> bool" where "plain c \<equiv> c \<notin> set whitespace \<and> c \<notin> set symbols"

text \<open>The loop \<open>while(s < es && P(*s)) s++\<close>.\<close>

function skip_while :: "(u8 \<Rightarrow> bool) \<Rightarrow> u8 list \<Rightarrow> nat \<Rightarrow> nat" where
  "skip_while P tx s = (if s < length tx \<and> P (char_at tx s) then skip_while P tx (s + 1) else s)"
  by pat_completeness auto
termination
  by (relation "measure (\<lambda>(P, tx, s). length tx - s)") auto

declare skip_while.simps [simp del]

text \<open>Returns the token, the pointers \<open>*q\<close> and \<open>*eq\<close>, and the new \<open>*ps\<close>.\<close>

definition gettoken :: "u8 list \<Rightarrow> nat \<Rightarrow> u8 \<times> nat \<times> nat \<times> nat" where
  "gettoken tx s =
     (let q = skip_while space tx s;
          c = char_at tx q;
          (ret, eq) =
            (if c = 0 then (0, q)
             else if c \<in> {124, 40, 41, 59, 38, 60} then (c, q + 1)
             else if c = 62 then (if char_at tx (q + 1) = 62 then (43, q + 2) else (62, q + 1))
             else (97, skip_while plain tx q))
      in (ret, q, eq, skip_while space tx eq))"

definition peek :: "u8 list \<Rightarrow> nat \<Rightarrow> u8 list \<Rightarrow> bool \<times> nat" where
  "peek tx s toks =
     (let s = skip_while space tx s; c = char_at tx s in (c \<noteq> 0 \<and> c \<in> set toks, s))"

lemma skip_while_bounds:
  "s \<le> skip_while P tx s" "s \<le> length tx \<Longrightarrow> skip_while P tx s \<le> length tx"
proof (induction P tx s rule: skip_while.induct)
  case (1 P tx s)
  { case 1 with "1.IH" show ?case by (auto simp: skip_while.simps [of P tx s]) }
  { case 2 with "1.IH" show ?case by (auto simp: skip_while.simps [of P tx s]) }
qed

lemma skip_while_all:
  "s \<le> i \<Longrightarrow> i < skip_while P tx s \<Longrightarrow> P (tx ! i)"
proof (induction P tx s rule: skip_while.induct)
  case (1 P tx s)
  show ?case
  proof (cases "s < length tx \<and> P (char_at tx s)")
    case True
    with 1 show ?thesis
      by (cases "i = s") (auto simp: skip_while.simps [of P tx s] char_at_def)
  next
    case False
    with 1 show ?thesis by (auto simp: skip_while.simps [of P tx s])
  qed
qed

lemma skip_while_stop:
  "s \<le> length tx \<Longrightarrow> skip_while P tx s = length tx \<or> \<not> P (tx ! skip_while P tx s)"
proof (induction P tx s rule: skip_while.induct)
  case (1 P tx s)
  then show ?case by (auto simp: skip_while.simps [of P tx s] char_at_def)
qed

lemma skip_while_first:
  assumes "s < length tx" and "P (tx ! s)"
  shows "s < skip_while P tx s"
  using assms skip_while_bounds(1) [of "s + 1" P tx]
  by (simp add: skip_while.simps [of P tx s] char_at_def)

lemma char_at_nonzero: "char_at tx s \<noteq> 0 \<Longrightarrow> s < length tx"
  by (auto simp: char_at_def split: if_splits)

lemma gettoken_bounds:
  assumes "gettoken tx s = (ret, q, eq, s')" and "s \<le> length tx"
  shows "s \<le> q" "q \<le> eq" "eq \<le> s'" "s' \<le> length tx"
proof -
  define k where "k = skip_while space tx s"
  have k: "s \<le> k" "k \<le> length tx"
    using skip_while_bounds [where s = s and tx = tx] assms(2) by (auto simp: k_def)
  have e: "q = k" "s' = skip_while space tx eq"
    using assms(1) by (auto simp: gettoken_def Let_def k_def split: if_splits)
  have "k \<le> eq \<and> eq \<le> length tx"
    using assms(1) k skip_while_bounds [where s = k and tx = tx]
      char_at_nonzero [of tx k] char_at_nonzero [of tx "k + 1"]
    by (auto simp: gettoken_def Let_def k_def [symmetric] split: if_splits)
  with e k show "s \<le> q" "q \<le> eq" "eq \<le> s'" "s' \<le> length tx"
    using skip_while_bounds [where s = eq and tx = tx] by auto
qed

lemma gettoken_progress:
  assumes "gettoken tx s = (ret, q, eq, s')" and "s \<le> length tx" and "char_at tx q \<noteq> 0"
  shows "q < eq"
proof -
  have q: "q = skip_while space tx s" using assms(1) by (auto simp: gettoken_def Let_def split: if_splits)
  have l: "q < length tx" using assms(3) by (rule char_at_nonzero)
  with skip_while_stop [OF assms(2), of space] q have "\<not> space (tx ! q)" by auto
  then have "\<not> (char_at tx q \<in> {124, 40, 41, 59, 38, 60, 62}) \<Longrightarrow> plain (tx ! q)"
    using l by (auto simp: char_at_def symbols_def)
  then show ?thesis
    using assms(1,3) l skip_while_first [of q tx plain]
    by (auto simp: gettoken_def Let_def q [symmetric] split: if_splits)
qed

text \<open>What a word token is: characters that are neither spaces nor symbols, as many as there are.\<close>

definition word_at :: "u8 list \<Rightarrow> nat \<times> nat \<Rightarrow> bool" where
  "word_at tx w \<longleftrightarrow> (case w of (q, eq) \<Rightarrow> q < eq \<and> eq \<le> length tx \<and> (\<forall>i. q \<le> i \<and> i < eq \<longrightarrow> plain (tx ! i))
     \<and> (eq = length tx \<or> \<not> plain (tx ! eq)))"

lemma gettoken_word:
  assumes "gettoken tx s = (97, q, eq, s')" and "s \<le> length tx"
  shows "word_at tx (q, eq)"
proof -
  have q: "q = skip_while space tx s" and c: "char_at tx q \<noteq> 0"
    and eq: "eq = skip_while plain tx q"
    using assms(1) by (auto simp: gettoken_def Let_def split: if_splits)
  have "q \<le> length tx" using gettoken_bounds [OF assms] by simp
  then show ?thesis
    using gettoken_progress [OF assms c] gettoken_bounds [OF assms] skip_while_all [of q _ plain tx]
      skip_while_stop [of q tx plain]
    by (auto simp: word_at_def eq [symmetric])
qed

section \<open>The parser\<close>

type_synonym word_ptr = "nat \<times> nat"

datatype cmd =
    Execcmd "word_ptr list"
  | Redircmd cmd word_ptr int int
  | Pipecmd cmd cmd
  | Listcmd cmd cmd
  | Backcmd cmd

abbreviation (input) O_RDONLY :: int where "O_RDONLY \<equiv> 0"
abbreviation (input) O_WRONLY :: int where "O_WRONLY \<equiv> 1"
abbreviation (input) O_CREATE :: int where "O_CREATE \<equiv> 512"
abbreviation (input) O_TRUNC :: int where "O_TRUNC \<equiv> 1024"

lemma peek_bounds:
  assumes "peek tx s toks = (b, s')" and "s \<le> length tx"
  shows "s \<le> s'" "s' \<le> length tx"
  using assms skip_while_bounds [where s = s and tx = tx and P = space]
  by (auto simp: peek_def Let_def)

text \<open>After a successful peek() the next token consumes something.\<close>

lemma peek_gettoken:
  assumes "peek tx s toks = (True, s1)" and "gettoken tx s1 = (ret, q, eq, s2)" and "s \<le> length tx"
  shows "s1 < length tx" "s1 < s2" "s2 \<le> length tx"
proof -
  have s1: "s1 = skip_while space tx s" and c: "char_at tx s1 \<noteq> 0"
    using assms(1) by (auto simp: peek_def Let_def)
  show l: "s1 < length tx" using c by (rule char_at_nonzero)
  with skip_while_stop [OF assms(3), of space] s1 have "\<not> space (tx ! s1)" by auto
  then have "skip_while space tx s1 = s1" using l by (simp add: skip_while.simps [of _ tx s1] char_at_def)
  then have "q = s1" using assms(2) by (auto simp: gettoken_def Let_def split: if_splits)
  moreover have "q < eq"
    by (rule gettoken_progress [OF assms(2)]) (use \<open>q = s1\<close> c l in auto)
  ultimately show "s1 < s2" "s2 \<le> length tx" using gettoken_bounds [OF assms(2)] l by auto
qed

lemma two_tokens:
  assumes "(p, s1) = peek tx s toks" and p and "(tok, y) = gettoken tx s1"
    and "(q1, z) = y" and "(eq1, s2) = z" and "(ret, u) = gettoken tx s2" and "(q, v) = u" and "(eq, s3) = v"
  shows "length tx - s3 < length tx - s"
proof -
  have p: "peek tx s toks = (True, s1)" and g: "gettoken tx s1 = (tok, q1, eq1, s2)"
    and h: "gettoken tx s2 = (ret, q, eq, s3)"
    using assms by auto
  have "s \<le> s1" "s1 < length tx"
    using p skip_while_bounds(1) [of s space tx] char_at_nonzero [of tx s1]
    by (auto simp: peek_def Let_def)
  then have l: "s \<le> length tx" by simp
  from peek_bounds [OF p l] peek_gettoken [OF p g l] have "s < s2" "s2 \<le> length tx" by auto
  with gettoken_bounds [OF h] show ?thesis by auto
qed

lemma peek_true_le:
  assumes "peek tx s toks = (True, s1)"
  shows "s \<le> length tx"
  using assms skip_while_bounds(1) [of s space tx] char_at_nonzero [of tx s1]
  by (auto simp: peek_def Let_def)

text \<open>
  parseredirs(). The pointer \<open>*ps\<close> is passed as \<open>s\<close> and returned with the command.
\<close>

function parseredirs :: "u8 list \<Rightarrow> cmd \<Rightarrow> nat \<Rightarrow> (cmd \<times> nat) outcome" where
  "parseredirs tx cmd s =
     (let (p, s1) = peek tx s [60, 62] in
      if p then
        (let (tok, _, _, s2) = gettoken tx s1; (ret, q, eq, s3) = gettoken tx s2 in
         if ret \<noteq> 97 then opanic ''missing file for redirection''
         else if tok = 60 then parseredirs tx (Redircmd cmd (q, eq) O_RDONLY 0) s3
         else if tok = 62 then parseredirs tx (Redircmd cmd (q, eq) (O_WRONLY + O_CREATE + O_TRUNC) 1) s3
         else if tok = 43 then parseredirs tx (Redircmd cmd (q, eq) (O_WRONLY + O_CREATE) 1) s3
         else parseredirs tx cmd s3)
      else Ret (cmd, s1))"
  by pat_completeness auto

termination
  by (relation "measure (\<lambda>(tx, c, s). length tx - s)") (auto simp: two_tokens)

declare parseredirs.simps [simp del]


lemma parseredirs_bounds:
  "\<lbrakk>parseredirs tx cmd s = Ret (cmd', s'); s \<le> length tx\<rbrakk> \<Longrightarrow> s \<le> s' \<and> s' \<le> length tx"
proof (induction tx cmd s rule: parseredirs.induct)
  case (1 tx cmd s)
  obtain p s1 where p: "peek tx s [60, 62] = (p, s1)" by fastforce
  obtain tok q1 eq1 s2 where g: "gettoken tx s1 = (tok, q1, eq1, s2)" by (metis prod_cases4)
  obtain ret q eq s3 where h: "gettoken tx s2 = (ret, q, eq, s3)" by (metis prod_cases4)
  show ?case
  proof (cases p)
    case True
    have "s \<le> s3" "s3 \<le> length tx"
      using peek_bounds [OF p "1.prems"(2)] gettoken_bounds [OF g] gettoken_bounds [OF h] by auto
    with "1.IH" [OF p [symmetric] refl True g [symmetric] refl refl refl h [symmetric] refl refl] "1.prems"
    show ?thesis
      by (auto simp: parseredirs.simps [of tx cmd s] p g h True split: if_splits)
  next
    case False
    with "1.prems" peek_bounds [OF p "1.prems"(2)] show ?thesis
      by (auto simp: parseredirs.simps [of tx cmd s] p)
  qed
qed

text \<open>The store \<open>cmd->argv[argc] = q\<close> through the pointer to the innermost command of \<open>ret\<close>.\<close>

fun add_arg :: "word_ptr \<Rightarrow> cmd \<Rightarrow> cmd" where
  "add_arg w (Execcmd args) = Execcmd (args @ [w])"
| "add_arg w (Redircmd cmd f mode fd) = Redircmd (add_arg w cmd) f mode fd"
| "add_arg w cmd = cmd"

text \<open>The loop of parseexec().\<close>

function parseexec_loop :: "u8 list \<Rightarrow> nat \<Rightarrow> cmd \<Rightarrow> nat \<Rightarrow> (cmd \<times> nat) outcome" where
  "parseexec_loop tx argc ret s =
     (let (p, s1) = peek tx s [124, 41, 38, 59] in
      if p then Ret (ret, s1)
      else
        (let (tok, q, eq, s2) = gettoken tx s1 in
         if tok = 0 then Ret (ret, s2)
         else if tok \<noteq> 97 then opanic ''syntax''
         else
           (let ret = add_arg (q, eq) ret; argc = argc + 1 in
            if argc \<ge> MAXARGS then opanic ''too many args''
            else obind (parseredirs tx ret s2) (\<lambda>(ret, s3). parseexec_loop tx argc ret s3))))"
  by pat_completeness auto
termination
  by (relation "measure (\<lambda>(tx, argc, ret, s). MAXARGS - argc)") auto

declare parseexec_loop.simps [simp del]

text \<open>The loop \<open>while(peek(ps, es, "&"))\<close> of parseline().\<close>

function parse_backs :: "u8 list \<Rightarrow> cmd \<Rightarrow> nat \<Rightarrow> cmd \<times> nat" where
  "parse_backs tx cmd s =
     (let (p, s1) = peek tx s [38] in
      if p then (let (_, _, _, s2) = gettoken tx s1 in parse_backs tx (Backcmd cmd) s2)
      else (cmd, s1))"
  by pat_completeness auto

termination
proof (relation "measure (\<lambda>(tx, c, s). length tx - s)", goal_cases)
  case (2 tx cmd s x p s1 x1 a y b z c s2)
  then have p: "peek tx s [38] = (True, s1)" by auto
  have "gettoken tx s1 = (a, b, c, s2)" using 2 by auto
  from peek_gettoken [OF p this peek_true_le [OF p]] peek_bounds [OF p peek_true_le [OF p]]
  show ?case by auto
qed simp

declare parse_backs.simps [simp del]

text \<open>
  The mutually recursive functions. \<open>fuel\<close> bounds the depth of the recursion; running out of it
  is \<open>Diverged\<close>. \<open>parsecmd\<close> gives enough for any text.
\<close>

fun parseline :: "nat \<Rightarrow> u8 list \<Rightarrow> nat \<Rightarrow> (cmd \<times> nat) outcome"
  and parsepipe :: "nat \<Rightarrow> u8 list \<Rightarrow> nat \<Rightarrow> (cmd \<times> nat) outcome"
  and parseblock :: "nat \<Rightarrow> u8 list \<Rightarrow> nat \<Rightarrow> (cmd \<times> nat) outcome"
  and parseexec :: "nat \<Rightarrow> u8 list \<Rightarrow> nat \<Rightarrow> (cmd \<times> nat) outcome" where
  "parseline 0 tx s = Fail Diverged"
| "parseline (Suc fuel) tx s =
     obind (parsepipe fuel tx s) (\<lambda>(cmd, s).
       let (cmd, s) = parse_backs tx cmd s; (p, s) = peek tx s [59] in
       if p then
         (let (_, _, _, s) = gettoken tx s in
          obind (parseline fuel tx s) (\<lambda>(right, s). Ret (Listcmd cmd right, s)))
       else Ret (cmd, s))"
| "parsepipe 0 tx s = Fail Diverged"
| "parsepipe (Suc fuel) tx s =
     obind (parseexec fuel tx s) (\<lambda>(cmd, s).
       let (p, s) = peek tx s [124] in
       if p then
         (let (_, _, _, s) = gettoken tx s in
          obind (parsepipe fuel tx s) (\<lambda>(right, s). Ret (Pipecmd cmd right, s)))
       else Ret (cmd, s))"
| "parseblock 0 tx s = Fail Diverged"
| "parseblock (Suc fuel) tx s =
     (let (p, s) = peek tx s [40] in
      if \<not> p then opanic ''parseblock''
      else (let (_, _, _, s) = gettoken tx s in
        obind (parseline fuel tx s) (\<lambda>(cmd, s).
          let (p, s) = peek tx s [41] in
          if \<not> p then opanic ''syntax - missing )''
          else (let (_, _, _, s) = gettoken tx s in parseredirs tx cmd s))))"
| "parseexec 0 tx s = Fail Diverged"
| "parseexec (Suc fuel) tx s =
     (let (p, s) = peek tx s [40] in
      if p then parseblock fuel tx s
      else obind (parseredirs tx (Execcmd []) s) (\<lambda>(ret, s). parseexec_loop tx 0 ret s))"

text \<open>The zero bytes nulterminate() stores after the words.\<close>

fun nulterminate :: "cmd \<Rightarrow> u8 list \<Rightarrow> u8 list" where
  "nulterminate (Execcmd args) buf = foldl (\<lambda>buf (q, eq). buf[eq := 0]) buf args"
| "nulterminate (Redircmd cmd (q, eq) mode fd) buf = (nulterminate cmd buf)[eq := 0]"
| "nulterminate (Pipecmd l r) buf = nulterminate r (nulterminate l buf)"
| "nulterminate (Listcmd l r) buf = nulterminate r (nulterminate l buf)"
| "nulterminate (Backcmd cmd) buf = nulterminate cmd buf"

definition parse_fuel :: "u8 list \<Rightarrow> nat" where "parse_fuel tx = 4 * length tx + 4"

text \<open>Returns the command and the buffer with its final zero byte.\<close>

definition parsecmd :: "u8 list \<Rightarrow> (cmd \<times> u8 list) outcome" where
  "parsecmd tx =
     obind (parseline (parse_fuel tx) tx 0) (\<lambda>(cmd, s).
       let (_, s) = peek tx s [] in
       if s \<noteq> length tx then opanic ''syntax''
       else Ret (cmd, nulterminate cmd (tx @ [0])))"


section \<open>The parser moves forward\<close>

text \<open>\<open>forward tx s m\<close>: the outcome \<open>m\<close> leaves the pointer at \<open>s\<close> or later, within the text.\<close>

abbreviation forward :: "u8 list \<Rightarrow> nat \<Rightarrow> (cmd \<times> nat) outcome \<Rightarrow> bool" where
  "forward tx s m \<equiv> (\<forall>cmd s'. m = Ret (cmd, s') \<longrightarrow> s \<le> s' \<and> s' \<le> length tx)"

lemma peek_gettoken_forward:
  assumes "peek tx s toks = (p, s1)" and "gettoken tx s1 = (ret, q, eq, s2)" and "s \<le> length tx"
  shows "s \<le> s2" "s2 \<le> length tx" "p \<Longrightarrow> s < s2"
proof -
  from peek_bounds [OF assms(1,3)] have b: "s \<le> s1" "s1 \<le> length tx" .
  with gettoken_bounds [OF assms(2)] show "s \<le> s2" "s2 \<le> length tx" by auto
  assume p
  with assms have "peek tx s toks = (True, s1)" by simp
  from peek_gettoken [OF this assms(2,3)] b show "s < s2" by simp
qed

lemma parse_backs_bounds:
  "\<lbrakk>parse_backs tx cmd s = (cmd', s'); s \<le> length tx\<rbrakk> \<Longrightarrow> s \<le> s' \<and> s' \<le> length tx"
proof (induction tx cmd s rule: parse_backs.induct)
  case (1 tx cmd s)
  obtain p s1 where p: "peek tx s [38] = (p, s1)" by fastforce
  obtain tok q eq s2 where g: "gettoken tx s1 = (tok, q, eq, s2)" by (metis prod_cases4)
  show ?case
  proof (cases p)
    case True
    note b = peek_gettoken_forward(1,2) [OF p g "1.prems"(2)]
    from "1.prems"(1) True have "parse_backs tx (Backcmd cmd) s2 = (cmd', s')"
      by (simp add: parse_backs.simps [of tx cmd s] p g)
    from "1.IH" [OF p [symmetric] refl True g [symmetric] refl refl refl this b(2)] b show ?thesis by simp
  next
    case False
    with 1 p peek_bounds [OF p "1.prems"(2)] show ?thesis
      by (auto simp: parse_backs.simps [of tx cmd s])
  qed
qed

lemma parseredirs_not_Diverged: "parseredirs tx cmd s \<noteq> Fail Diverged"
proof (induction tx cmd s rule: parseredirs.induct)
  case (1 tx cmd s)
  obtain p s1 where p: "peek tx s [60, 62] = (p, s1)" by fastforce
  obtain tok q1 eq1 s2 where g: "gettoken tx s1 = (tok, q1, eq1, s2)" by (metis prod_cases4)
  obtain ret q eq s3 where h: "gettoken tx s2 = (ret, q, eq, s3)" by (metis prod_cases4)
  show ?case
  proof (cases p)
    case True
    with "1.IH" [OF p [symmetric] refl True g [symmetric] refl refl refl h [symmetric] refl refl]
    show ?thesis by (auto simp: parseredirs.simps [of tx cmd s] p g h)
  qed (simp add: parseredirs.simps [of tx cmd s] p)
qed

lemma parseexec_loop_facts:
  shows "s \<le> length tx \<Longrightarrow> forward tx s (parseexec_loop tx argc ret s)"
    and "parseexec_loop tx argc ret s \<noteq> Fail Diverged"
proof (induction tx argc ret s rule: parseexec_loop.induct)
  case (1 tx argc ret s)
  obtain p s1 where p: "peek tx s [124, 41, 38, 59] = (p, s1)" by fastforce
  obtain tok q eq s2 where g: "gettoken tx s1 = (tok, q, eq, s2)" by (metis prod_cases4)
  note IH = "1.IH" [OF p [symmetric] refl _ g [symmetric] refl refl refl _ _ refl refl]
  note unfold = parseexec_loop.simps [of tx argc ret s] p g
  { case 1
    note b = peek_bounds [OF p 1] peek_gettoken_forward [OF p g 1]
    show ?case
    proof (intro allI impI)
      fix cmd s'
      assume r: "parseexec_loop tx argc ret s = Ret (cmd, s')"
      show "s \<le> s' \<and> s' \<le> length tx"
      proof (cases "p \<or> tok = 0")
        case True
        with r b show ?thesis by (auto simp: unfold split: if_splits)
      next
        case False
        with r obtain ret' s3 where
          t: "tok = 97" "\<not> MAXARGS \<le> argc + 1" "parseredirs tx (add_arg (q, eq) ret) s2 = Ret (ret', s3)"
            "parseexec_loop tx (argc + 1) ret' s3 = Ret (cmd, s')"
          by (auto simp: unfold obind_eq_Ret split: if_splits)
        from parseredirs_bounds [OF t(3)] b have "s2 \<le> s3" "s3 \<le> length tx" by auto
        with IH(1) [OF _ _ _ _ t(3) refl, of] False t b show ?thesis by fastforce
      qed
    qed
  }
  { case 2
    show ?case using IH(2)
      by (auto simp: unfold obind_eq_Fail parseredirs_not_Diverged)
  }
qed


lemma parseline_unfold:
  obtains (failed) e where "parsepipe n tx s = Fail e" "parseline (Suc n) tx s = Fail e"
  | (parsed) c1 s1 c2 s2 p s3 tok q eq s4 where
      "parsepipe n tx s = Ret (c1, s1)" "parse_backs tx c1 s1 = (c2, s2)" "peek tx s2 [59] = (p, s3)"
      "gettoken tx s3 = (tok, q, eq, s4)"
      "parseline (Suc n) tx s =
         (if p then obind (parseline n tx s4) (\<lambda>(right, s). Ret (Listcmd c2 right, s)) else Ret (c2, s3))"
proof (cases "parsepipe n tx s")
  case (Ret x)
  obtain c1 s1 where x: "x = (c1, s1)" by fastforce
  obtain c2 s2 where b: "parse_backs tx c1 s1 = (c2, s2)" by fastforce
  obtain p s3 where p: "peek tx s2 [59] = (p, s3)" by fastforce
  obtain tok q eq s4 where g: "gettoken tx s3 = (tok, q, eq, s4)" by (metis prod_cases4)
  show thesis by (rule parsed [OF Ret [unfolded x] b p g]) (simp add: Ret x b p g)
qed (use failed in simp)

lemma parsepipe_unfold:
  obtains (failed) e where "parseexec n tx s = Fail e" "parsepipe (Suc n) tx s = Fail e"
  | (parsed) c1 s1 p s3 tok q eq s4 where
      "parseexec n tx s = Ret (c1, s1)" "peek tx s1 [124] = (p, s3)" "gettoken tx s3 = (tok, q, eq, s4)"
      "parsepipe (Suc n) tx s =
         (if p then obind (parsepipe n tx s4) (\<lambda>(right, s). Ret (Pipecmd c1 right, s)) else Ret (c1, s3))"
proof (cases "parseexec n tx s")
  case (Ret x)
  obtain c1 s1 where x: "x = (c1, s1)" by fastforce
  obtain p s3 where p: "peek tx s1 [124] = (p, s3)" by fastforce
  obtain tok q eq s4 where g: "gettoken tx s3 = (tok, q, eq, s4)" by (metis prod_cases4)
  show thesis by (rule parsed [OF Ret [unfolded x] p g]) (simp add: Ret x p g)
qed (use failed in simp)

lemma parseblock_unfold:
  obtains (missing) "parseblock (Suc n) tx s = opanic ''parseblock''"
  | (failed) e s1 tok q eq s2 where
      "peek tx s [40] = (True, s1)" "gettoken tx s1 = (tok, q, eq, s2)" "parseline n tx s2 = Fail e"
      "parseblock (Suc n) tx s = Fail e"
  | (parsed) s1 tok q eq s2 c s3 p s4 tok' q' eq' s5 where
      "peek tx s [40] = (True, s1)" "gettoken tx s1 = (tok, q, eq, s2)" "parseline n tx s2 = Ret (c, s3)"
      "peek tx s3 [41] = (p, s4)" "gettoken tx s4 = (tok', q', eq', s5)"
      "parseblock (Suc n) tx s = (if p then parseredirs tx c s5 else opanic ''syntax - missing )'')"
proof -
  obtain p0 s1 where p0: "peek tx s [40] = (p0, s1)" by fastforce
  obtain tok q eq s2 where g: "gettoken tx s1 = (tok, q, eq, s2)" by (metis prod_cases4)
  show thesis
  proof (cases p0)
    case True
    with p0 have p1: "peek tx s [40] = (True, s1)" by simp
    show thesis
    proof (cases "parseline n tx s2")
      case (Ret x)
      obtain c s3 where x: "x = (c, s3)" by fastforce
      obtain p s4 where p: "peek tx s3 [41] = (p, s4)" by fastforce
      obtain tok' q' eq' s5 where g': "gettoken tx s4 = (tok', q', eq', s5)" by (metis prod_cases4)
      show thesis by (rule parsed [OF p1 g Ret [unfolded x] p g']) (simp add: Ret x p p1 g g')
    next
      case (Fail e)
      show thesis by (rule failed [OF p1 g Fail]) (simp add: p1 g Fail)
    qed
  qed (use missing p0 in simp)
qed

lemma parseexec_unfold:
  obtains (block) s1 where "peek tx s [40] = (True, s1)" "parseexec (Suc n) tx s = parseblock n tx s1"
  | (simple) s1 where "peek tx s [40] = (False, s1)"
      "parseexec (Suc n) tx s =
         obind (parseredirs tx (Execcmd []) s1) (\<lambda>(ret, s). parseexec_loop tx 0 ret s)"
proof -
  obtain p s1 where p: "peek tx s [40] = (p, s1)" by fastforce
  show thesis using block simple by (cases p) (simp_all add: p)
qed

declare parseline.simps [simp del] parsepipe.simps [simp del] parseblock.simps [simp del] parseexec.simps [simp del]

lemma forward_trans: "forward tx s1 m \<Longrightarrow> s \<le> s1 \<Longrightarrow> forward tx s m"
  by (fastforce intro: order_trans)

lemma forward_map: "forward tx s m \<Longrightarrow> forward tx s (obind m (\<lambda>(r, s). Ret (f r, s)))"
  by (cases m) auto

lemma parseredirs_forward: "s \<le> length tx \<Longrightarrow> forward tx s (parseredirs tx cmd s)"
  using parseredirs_bounds by blast

lemma parse_forward:
  "s \<le> length tx \<Longrightarrow> forward tx s (parseline n tx s)"
  "s \<le> length tx \<Longrightarrow> forward tx s (parsepipe n tx s)"
  "s \<le> length tx \<Longrightarrow> forward tx s (parseblock n tx s)"
  "s \<le> length tx \<Longrightarrow> forward tx s (parseexec n tx s)"
proof (induction n arbitrary: s)
  case (Suc n)
  { case 1
    show ?case
    proof (cases rule: parseline_unfold [where n = n and tx = tx and s = s])
      case (parsed c1 s1 c2 s2 p s3 tok q eq s4)
      from Suc.IH(2) [OF 1] parsed(1) have a: "s \<le> s1" "s1 \<le> length tx" by auto
      from parse_backs_bounds [OF parsed(2) a(2)] have b: "s1 \<le> s2" "s2 \<le> length tx" by auto
      note c = peek_bounds [OF parsed(3) b(2)] peek_gettoken_forward(1,2) [OF parsed(3,4) b(2)]
      have "s \<le> s4" using a b c by linarith
      from forward_map [OF forward_trans [OF Suc.IH(1) [OF c(4)] this]]
      have "forward tx s (obind (parseline n tx s4) (\<lambda>(right, s). Ret (Listcmd c2 right, s)))" .
      then show ?thesis unfolding parsed(5) using a b c by (cases p) simp_all
    qed simp
  }
  { case 2
    show ?case
    proof (cases rule: parsepipe_unfold [where n = n and tx = tx and s = s])
      case (parsed c1 s1 p s3 tok q eq s4)
      from Suc.IH(4) [OF 2] parsed(1) have a: "s \<le> s1" "s1 \<le> length tx" by auto
      note c = peek_bounds [OF parsed(2) a(2)] peek_gettoken_forward(1,2) [OF parsed(2,3) a(2)]
      have "s \<le> s4" using a c by linarith
      from forward_map [OF forward_trans [OF Suc.IH(2) [OF c(4)] this]]
      have "forward tx s (obind (parsepipe n tx s4) (\<lambda>(right, s). Ret (Pipecmd c1 right, s)))" .
      then show ?thesis unfolding parsed(4) using a c by (cases p) simp_all
    qed simp
  }
  { case 3
    show ?case
    proof (cases rule: parseblock_unfold [where n = n and tx = tx and s = s])
      case (parsed s1 tok q eq s2 c s3 p s4 tok' q' eq' s5)
      note a = peek_gettoken_forward(1,2) [OF parsed(1,2) 3]
      from Suc.IH(1) [OF a(2)] parsed(3) have b: "s2 \<le> s3" "s3 \<le> length tx" by auto
      note c = peek_gettoken_forward(1,2) [OF parsed(4,5) b(2)]
      have "s \<le> s5" using a b c by linarith
      from forward_trans [OF parseredirs_forward [OF c(2)] this]
      show ?thesis unfolding parsed(6) by (cases p) simp_all
    qed simp_all
  }
  { case 4
    show ?case
    proof (cases rule: parseexec_unfold [where n = n and tx = tx and s = s])
      case (block s1)
      note a = peek_bounds [OF block(1) 4]
      from forward_trans [OF Suc.IH(3) [OF a(2)] a(1)] show ?thesis unfolding block(2) .
    next
      case (simple s1)
      note a = peek_bounds [OF simple(1) 4]
      show ?thesis
      proof (cases "parseredirs tx (Execcmd []) s1")
        case (Ret x)
        obtain c s2 where x: "x = (c, s2)" by fastforce
        from parseredirs_bounds [OF Ret [unfolded x] a(2)] have b: "s1 \<le> s2" "s2 \<le> length tx" by auto
        have "s \<le> s2" using a b by linarith
        from forward_trans [OF parseexec_loop_facts(1) [OF b(2)] this] show ?thesis
          unfolding simple(2) Ret x by simp
      qed (simp add: simple(2))
    qed
  }
qed (simp_all add: parseline.simps parsepipe.simps parseblock.simps parseexec.simps)

text \<open>Four levels of recursion per character and four at the end of the text are enough.\<close>

lemma parse_enough:
  "\<lbrakk>s \<le> length tx; 4 * (length tx - s) + 4 \<le> n\<rbrakk> \<Longrightarrow> parseline n tx s \<noteq> Fail Diverged"
  "\<lbrakk>s \<le> length tx; 4 * (length tx - s) + 3 \<le> n\<rbrakk> \<Longrightarrow> parsepipe n tx s \<noteq> Fail Diverged"
  "\<lbrakk>s \<le> length tx; 4 * (length tx - s) + 1 \<le> n\<rbrakk> \<Longrightarrow> parseblock n tx s \<noteq> Fail Diverged"
  "\<lbrakk>s \<le> length tx; 4 * (length tx - s) + 2 \<le> n\<rbrakk> \<Longrightarrow> parseexec n tx s \<noteq> Fail Diverged"
proof (induction n arbitrary: s)
  case (Suc n)
  { case 1
    have pp: "parsepipe n tx s \<noteq> Fail Diverged" by (rule Suc.IH(2)) (use 1 in auto)
    show ?case
    proof (cases rule: parseline_unfold [where n = n and tx = tx and s = s])
      case (parsed c1 s1 c2 s2 p s3 tok q eq s4)
      from parse_forward(2) [OF 1(1)] parsed(1) have a: "s \<le> s1" "s1 \<le> length tx" by auto
      from parse_backs_bounds [OF parsed(2) a(2)] have b: "s1 \<le> s2" "s2 \<le> length tx" by auto
      note c = peek_gettoken_forward [OF parsed(3,4) b(2)]
      have "p \<Longrightarrow> parseline n tx s4 \<noteq> Fail Diverged" by (rule Suc.IH(1)) (use 1 a b c in auto)
      then show ?thesis unfolding parsed(5) by (auto simp: obind_eq_Fail)
    qed (use pp in auto)
  }
  { case 2
    have pe: "parseexec n tx s \<noteq> Fail Diverged" by (rule Suc.IH(4)) (use 2 in auto)
    show ?case
    proof (cases rule: parsepipe_unfold [where n = n and tx = tx and s = s])
      case (parsed c1 s1 p s3 tok q eq s4)
      from parse_forward(4) [OF 2(1)] parsed(1) have a: "s \<le> s1" "s1 \<le> length tx" by auto
      note c = peek_gettoken_forward [OF parsed(2,3) a(2)]
      have "p \<Longrightarrow> parsepipe n tx s4 \<noteq> Fail Diverged" by (rule Suc.IH(2)) (use 2 a c in auto)
      then show ?thesis unfolding parsed(4) by (auto simp: obind_eq_Fail)
    qed (use pe in auto)
  }
  { case 3
    show ?case
    proof (cases rule: parseblock_unfold [where n = n and tx = tx and s = s])
      case (failed e s1 tok q eq s2)
      note c = peek_gettoken_forward [OF failed(1,2) 3(1)]
      have "parseline n tx s2 \<noteq> Fail Diverged" by (rule Suc.IH(1)) (use 3 c in auto)
      with failed show ?thesis by simp
    qed (simp_all add: parseredirs_not_Diverged)
  }
  { case 4
    show ?case
    proof (cases rule: parseexec_unfold [where n = n and tx = tx and s = s])
      case (block s1)
      note a = peek_bounds [OF block(1) 4(1)]
      have "parseblock n tx s1 \<noteq> Fail Diverged" by (rule Suc.IH(3)) (use 4 a in auto)
      with block show ?thesis by simp
    next
      case (simple s1)
      then show ?thesis
        by (auto simp: obind_eq_Fail parseredirs_not_Diverged parseexec_loop_facts(2))
    qed
  }
qed simp_all


section \<open>The words of a command\<close>

fun words_of :: "cmd \<Rightarrow> word_ptr list" where
  "words_of (Execcmd args) = args"
| "words_of (Redircmd cmd w mode fd) = words_of cmd @ [w]"
| "words_of (Pipecmd l r) = words_of l @ words_of r"
| "words_of (Listcmd l r) = words_of l @ words_of r"
| "words_of (Backcmd cmd) = words_of cmd"

text \<open>Every \<open>argv\<close> array has room for its final null pointer.\<close>

fun argv_fits :: "cmd \<Rightarrow> bool" where
  "argv_fits (Execcmd args) \<longleftrightarrow> length args < MAXARGS"
| "argv_fits (Redircmd cmd w mode fd) \<longleftrightarrow> argv_fits cmd"
| "argv_fits (Pipecmd l r) \<longleftrightarrow> argv_fits l \<and> argv_fits r"
| "argv_fits (Listcmd l r) \<longleftrightarrow> argv_fits l \<and> argv_fits r"
| "argv_fits (Backcmd cmd) \<longleftrightarrow> argv_fits cmd"

text \<open>Redirections are of standard input or output.\<close>

fun fds_std :: "cmd \<Rightarrow> bool" where
  "fds_std (Execcmd args) \<longleftrightarrow> True"
| "fds_std (Redircmd cmd w mode fd) \<longleftrightarrow> fds_std cmd \<and> (fd = 0 \<or> fd = 1)"
| "fds_std (Pipecmd l r) \<longleftrightarrow> fds_std l \<and> fds_std r"
| "fds_std (Listcmd l r) \<longleftrightarrow> fds_std l \<and> fds_std r"
| "fds_std (Backcmd cmd) \<longleftrightarrow> fds_std cmd"

definition cmd_ok :: "u8 list \<Rightarrow> cmd \<Rightarrow> bool" where
  "cmd_ok tx c \<longleftrightarrow> argv_fits c \<and> fds_std c \<and> (\<forall>w \<in> set (words_of c). word_at tx w)"

lemma cmd_ok_simps [simp]:
  "cmd_ok tx (Redircmd c w mode fd) \<longleftrightarrow> cmd_ok tx c \<and> word_at tx w \<and> (fd = 0 \<or> fd = 1)"
  "cmd_ok tx (Pipecmd l r) \<longleftrightarrow> cmd_ok tx l \<and> cmd_ok tx r"
  "cmd_ok tx (Listcmd l r) \<longleftrightarrow> cmd_ok tx l \<and> cmd_ok tx r"
  "cmd_ok tx (Backcmd c) \<longleftrightarrow> cmd_ok tx c"
  by (auto simp: cmd_ok_def)

text \<open>A simple command with \<open>n\<close> arguments so far, under redirections.\<close>

fun argc_is :: "nat \<Rightarrow> cmd \<Rightarrow> bool" where
  "argc_is n (Execcmd args) \<longleftrightarrow> length args = n"
| "argc_is n (Redircmd cmd w mode fd) \<longleftrightarrow> argc_is n cmd"
| "argc_is n cmd \<longleftrightarrow> False"

lemma argc_is_add: "argc_is n c \<Longrightarrow> argc_is (n + 1) (add_arg w c)"
  by (induction c) auto

lemma argc_is_fits: "argc_is n c \<Longrightarrow> n < MAXARGS \<Longrightarrow> argv_fits c"
  by (induction c) auto

lemma fds_std_add: "fds_std (add_arg w c) = fds_std c"
  by (induction c) auto

lemma words_of_add: "argc_is n c \<Longrightarrow> set (words_of (add_arg w c)) = insert w (set (words_of c))"
  by (induction c) auto

lemma parseredirs_inv:
  assumes "\<And>c w mode fd. P c \<Longrightarrow> word_at tx w \<Longrightarrow> fd = 0 \<or> fd = 1 \<Longrightarrow> P (Redircmd c w mode fd)"
    and "parseredirs tx cmd s = Ret (cmd', s')" and "s \<le> length tx" and "P cmd"
  shows "P cmd'"
  using assms
proof (induction tx cmd s rule: parseredirs.induct)
  case (1 tx cmd s)
  obtain p s1 where p: "peek tx s [60, 62] = (p, s1)" by fastforce
  obtain tok q1 eq1 s2 where g: "gettoken tx s1 = (tok, q1, eq1, s2)" by (metis prod_cases4)
  obtain ret q eq s3 where h: "gettoken tx s2 = (ret, q, eq, s3)" by (metis prod_cases4)
  note IH = "1.IH" [OF p [symmetric] refl _ g [symmetric] refl refl refl h [symmetric] refl refl]
  show ?case
  proof (cases p)
    case True
    have b: "s2 \<le> length tx" "s3 \<le> length tx"
      using peek_gettoken_forward(2) [OF p g "1.prems"(3)] gettoken_bounds [OF h] by auto
    from "1.prems"(2) True have r: "ret = 97"
      by (auto simp: parseredirs.simps [of tx cmd s] p g h split: if_splits)
    then have "word_at tx (q, eq)" using gettoken_word [OF h [unfolded r] b(1)] by simp
    with IH [OF True] b(2) r "1.prems"(1,2,4) True show ?thesis
      by (auto simp: parseredirs.simps [of tx cmd s] p g h split: if_splits)
  next
    case False
    with "1.prems" show ?thesis by (simp add: parseredirs.simps [of tx cmd s] p)
  qed
qed

lemma parseexec_loop_ok:
  "\<lbrakk>parseexec_loop tx argc ret s = Ret (cmd, s'); s \<le> length tx; argc < MAXARGS;
    argc_is argc ret; fds_std ret \<and> (\<forall>w \<in> set (words_of ret). word_at tx w)\<rbrakk> \<Longrightarrow> cmd_ok tx cmd"
proof (induction tx argc ret s rule: parseexec_loop.induct)
  case (1 tx argc ret s)
  obtain p s1 where p: "peek tx s [124, 41, 38, 59] = (p, s1)" by fastforce
  obtain tok q eq s2 where g: "gettoken tx s1 = (tok, q, eq, s2)" by (metis prod_cases4)
  note IH = "1.IH" [OF p [symmetric] refl _ g [symmetric] refl refl refl _ _ refl refl]
  note unfold = parseexec_loop.simps [of tx argc ret s] p g
  note b = peek_bounds [OF p "1.prems"(2)] peek_gettoken_forward(1,2) [OF p g "1.prems"(2)]
  show ?case
  proof (cases "p \<or> tok = 0")
    case True
    with "1.prems" show ?thesis
      by (auto simp: unfold cmd_ok_def argc_is_fits split: if_splits)
  next
    case False
    with "1.prems"(1) obtain ret' s3 where
      t: "tok = 97" "\<not> MAXARGS \<le> argc + 1" "parseredirs tx (add_arg (q, eq) ret) s2 = Ret (ret', s3)"
        "parseexec_loop tx (argc + 1) ret' s3 = Ret (cmd, s')"
      by (auto simp: unfold obind_eq_Ret split: if_splits)
    have w: "word_at tx (q, eq)" using gettoken_word [OF g [unfolded t(1)] b(2)] .
    let ?P = "\<lambda>c. argc_is (argc + 1) c \<and> fds_std c \<and> (\<forall>w \<in> set (words_of c). word_at tx w)"
    have "?P (add_arg (q, eq) ret)"
      using "1.prems"(4,5) w words_of_add [OF "1.prems"(4)] argc_is_add fds_std_add by auto
    with parseredirs_inv [where P = ?P, OF _ t(3) b(4)] have "?P ret'" by auto
    moreover have "s3 \<le> length tx" using parseredirs_bounds [OF t(3) b(4)] by simp
    ultimately show ?thesis using IH [OF _ _ _ _ t(3) refl t(4)] False t(1,2) by simp
  qed
qed

lemma parse_backs_ok:
  "\<lbrakk>parse_backs tx cmd s = (cmd', s'); cmd_ok tx cmd\<rbrakk> \<Longrightarrow> cmd_ok tx cmd'"
proof (induction tx cmd s rule: parse_backs.induct)
  case (1 tx cmd s)
  obtain p s1 where p: "peek tx s [38] = (p, s1)" by fastforce
  obtain tok q eq s2 where g: "gettoken tx s1 = (tok, q, eq, s2)" by (metis prod_cases4)
  show ?case
  proof (cases p)
    case True
    from "1.prems"(1) True have "parse_backs tx (Backcmd cmd) s2 = (cmd', s')"
      by (simp add: parse_backs.simps [of tx cmd s] p g)
    from "1.IH" [OF p [symmetric] refl True g [symmetric] refl refl refl this] "1.prems"(2)
    show ?thesis by simp
  next
    case False
    with "1.prems" p show ?thesis by (simp add: parse_backs.simps [of tx cmd s])
  qed
qed

text \<open>\<open>sound tx m\<close>: the command in the outcome \<open>m\<close> is well-formed.\<close>

abbreviation sound :: "u8 list \<Rightarrow> (cmd \<times> nat) outcome \<Rightarrow> bool" where
  "sound tx m \<equiv> (\<forall>cmd s'. m = Ret (cmd, s') \<longrightarrow> cmd_ok tx cmd)"

lemma parse_sound:
  "s \<le> length tx \<Longrightarrow> sound tx (parseline n tx s)"
  "s \<le> length tx \<Longrightarrow> sound tx (parsepipe n tx s)"
  "s \<le> length tx \<Longrightarrow> sound tx (parseblock n tx s)"
  "s \<le> length tx \<Longrightarrow> sound tx (parseexec n tx s)"
proof (induction n arbitrary: s)
  case (Suc n)
  { case 1
    show ?case
    proof (cases rule: parseline_unfold [where n = n and tx = tx and s = s])
      case (parsed c1 s1 c2 s2 p s3 tok q eq s4)
      from parse_forward(2) [OF 1] parsed(1) have a: "s1 \<le> length tx" by auto
      from parse_backs_bounds [OF parsed(2) a] have b: "s2 \<le> length tx" by auto
      note c = peek_gettoken_forward(2) [OF parsed(3,4) b]
      from Suc.IH(2) [OF 1] parsed(1) have "cmd_ok tx c1" by auto
      from parse_backs_ok [OF parsed(2) this] Suc.IH(1) [OF c] show ?thesis
        unfolding parsed(5) by (auto simp: obind_eq_Ret)
    qed simp
  }
  { case 2
    show ?case
    proof (cases rule: parsepipe_unfold [where n = n and tx = tx and s = s])
      case (parsed c1 s1 p s3 tok q eq s4)
      from parse_forward(4) [OF 2] parsed(1) have a: "s1 \<le> length tx" by auto
      note c = peek_gettoken_forward(2) [OF parsed(2,3) a]
      from Suc.IH(4) [OF 2] parsed(1) have "cmd_ok tx c1" by auto
      with Suc.IH(2) [OF c] show ?thesis unfolding parsed(4) by (auto simp: obind_eq_Ret)
    qed simp
  }
  { case 3
    show ?case
    proof (cases rule: parseblock_unfold [where n = n and tx = tx and s = s])
      case (parsed s1 tok q eq s2 c s3 p s4 tok' q' eq' s5)
      note a = peek_gettoken_forward(2) [OF parsed(1,2) 3]
      from parse_forward(1) [OF a] parsed(3) have b: "s3 \<le> length tx" by auto
      note e = peek_gettoken_forward(2) [OF parsed(4,5) b]
      from Suc.IH(1) [OF a] parsed(3) have "cmd_ok tx c" by auto
      with parseredirs_inv [where P = "cmd_ok tx", OF _ _ e] show ?thesis
        unfolding parsed(6) by auto
    qed simp_all
  }
  { case 4
    show ?case
    proof (cases rule: parseexec_unfold [where n = n and tx = tx and s = s])
      case (block s1)
      from Suc.IH(3) [OF peek_bounds(2) [OF block(1) 4]] show ?thesis unfolding block(2) .
    next
      case (simple s1)
      note a = peek_bounds(2) [OF simple(1) 4]
      let ?P = "\<lambda>c. argc_is 0 c \<and> fds_std c \<and> (\<forall>w \<in> set (words_of c). word_at tx w)"
      have "cmd_ok tx cmd" if r: "parseexec (Suc n) tx s = Ret (cmd, s')" for cmd s'
      proof -
        from r obtain c s2 where
          c: "parseredirs tx (Execcmd []) s1 = Ret (c, s2)" and l: "parseexec_loop tx 0 c s2 = Ret (cmd, s')"
          unfolding simple(2) by (auto simp: obind_eq_Ret)
        from parseredirs_inv [where P = ?P, OF _ c a] have "?P c" by auto
        with parseexec_loop_ok [OF l] parseredirs_bounds [OF c a] show ?thesis by simp
      qed
      then show ?thesis by blast
    qed
  }
qed (simp_all add: parseline.simps parsepipe.simps parseblock.simps parseexec.simps)


lemma nulterminate_words:
  "nulterminate c buf = foldl (\<lambda>buf (q, eq). buf[eq := 0]) buf (words_of c)"
proof (induction c arbitrary: buf)
  case (Redircmd c w mode fd)
  then show ?case by (cases w) simp
qed simp_all

lemma zeroed_words:
  "length (foldl (\<lambda>buf (q, eq). buf[eq := (0::u8)]) buf ws) = length buf"
  "i < length buf \<Longrightarrow> foldl (\<lambda>buf (q, eq). buf[eq := (0::u8)]) buf ws ! i =
     (if i \<in> snd ` set ws then 0 else buf ! i)"
proof (induction ws arbitrary: buf)
  case (Cons w ws)
  { case 1 show ?case using Cons.IH(1) by (cases w) simp }
  { case 2 then show ?case using Cons.IH(2) [of "buf[snd w := 0]"] by (cases w) (auto simp: nth_list_update) }
qed auto

text \<open>The C string that starts at index \<open>q\<close> of a buffer.\<close>

definition string_at :: "u8 list \<Rightarrow> nat \<Rightarrow> u8 list" where
  "string_at buf q = takeWhile (\<lambda>c. c \<noteq> 0) (drop q buf)"

definition slice :: "u8 list \<Rightarrow> word_ptr \<Rightarrow> u8 list" where
  "slice tx w = take (snd w - fst w) (drop (fst w) tx)"

lemma string_at_word:
  assumes ok: "cmd_ok tx c" and w: "(q, eq) \<in> set (words_of c)" and z: "0 \<notin> set tx"
  shows "string_at (nulterminate c (tx @ [0])) q = slice tx (q, eq)"
proof -
  let ?buf = "nulterminate c (tx @ [0])"
  have wa: "word_at tx v" if "v \<in> set (words_of c)" for v using ok that by (auto simp: cmd_ok_def)
  from wa [OF w] have qe: "q < eq" "eq \<le> length tx" "\<And>i. q \<le> i \<Longrightarrow> i < eq \<Longrightarrow> plain (tx ! i)"
    by (auto simp: word_at_def)
  have n: "?buf ! i = (if i \<in> snd ` set (words_of c) then 0 else (tx @ [0]) ! i)" if "i \<le> length tx" for i
    unfolding nulterminate_words by (rule zeroed_words(2)) (use that in simp)
  have l: "length ?buf = length tx + 1" unfolding nulterminate_words zeroed_words(1) by simp
  have inside: "?buf ! i = tx ! i \<and> tx ! i \<noteq> 0" if "q \<le> i" "i < eq" for i
  proof -
    have "i \<notin> snd ` set (words_of c)"
    proof
      assume "i \<in> snd ` set (words_of c)"
      then obtain p where "(p, i) \<in> set (words_of c)" by force
      from wa [OF this] qe(2) qe(3) [of i] that show False by (auto simp: word_at_def)
    qed
    moreover have "tx ! i \<noteq> 0"
    proof
      assume "tx ! i = 0"
      moreover have "tx ! i \<in> set tx" by (rule nth_mem) (use that qe in simp)
      ultimately show False using z by simp
    qed
    ultimately show ?thesis using n [of i] that qe z by (auto simp: nth_append)
  qed
  have e: "?buf ! eq = 0" using n [of eq] w qe by force
  have "string_at ?buf q = take (eq - q) (drop q ?buf)"
    unfolding string_at_def
  proof (rule takeWhile_eq_take_P_nth)
    fix i assume "i < eq - q" "i < length (drop q ?buf)"
    then show "drop q ?buf ! i \<noteq> 0" using inside [of "q + i"] l by (simp add: less_diff_conv)
  next
    assume "eq - q < length (drop q ?buf)"
    then show "\<not> drop q ?buf ! (eq - q) \<noteq> 0" using e qe l by simp
  qed
  also have "\<dots> = slice tx (q, eq)"
  proof (rule nth_equalityI)
    fix i assume "i < length (take (eq - q) (drop q ?buf))"
    then show "take (eq - q) (drop q ?buf) ! i = slice tx (q, eq) ! i"
      using inside [of "q + i"] l qe by (simp add: slice_def)
  qed (use l qe in \<open>simp add: slice_def\<close>)
  finally show ?thesis .
qed

lemma parsecmd_Ret:
  assumes "parsecmd tx = Ret (c, buf)"
  shows "cmd_ok tx c" "buf = nulterminate c (tx @ [0])"
proof -
  from assms obtain s where "parseline (parse_fuel tx) tx 0 = Ret (c, s)" "buf = nulterminate c (tx @ [0])"
  proof (cases "parseline (parse_fuel tx) tx 0")
    case (Ret x)
    obtain c' s' where x: "x = (c', s')" by fastforce
    obtain b s2 where "peek tx s' [] = (b, s2)" by fastforce
    with assms Ret x that [of s'] show thesis by (auto simp: parsecmd_def split: if_splits)
  qed (simp add: parsecmd_def)
  with parse_sound(1) [of 0 tx "parse_fuel tx"] show "cmd_ok tx c" "buf = nulterminate c (tx @ [0])"
    by auto
qed

lemmas parse_eval =
  parsecmd_def parse_fuel_def parseline.simps parsepipe.simps parseblock.simps parseexec.simps
  parseexec_loop.simps parseredirs.simps parse_backs.simps gettoken_def peek_def skip_while.simps
  char_at_def whitespace_def symbols_def Let_def

section \<open>Properties\<close>

text \<open>
  C30. The parser ends on every command line: the recursion through blocks, pipes and lists is
  at most four levels deep per character, whatever the text, so parsecmd() returns a command or
  calls panic().
\<close>

theorem parsecmd_terminates: "parsecmd tx \<noteq> Fail Diverged"
proof -
  have "parseline (parse_fuel tx) tx 0 \<noteq> Fail Diverged"
    by (rule parse_enough(1)) (simp_all add: parse_fuel_def)
  then show ?thesis by (auto simp: parsecmd_def obind_eq_Fail Let_def split: prod.splits if_splits)
qed

text \<open>
  C29. Every word of a parsed command is, as the C string the shell passes to exec() and open(),
  a maximal run of characters of the command line that are neither spaces nor symbols: the
  zero bytes nulterminate() stores end each word and cut no other.
\<close>

theorem parsecmd_words:
  assumes "parsecmd tx = Ret (c, buf)" and "0 \<notin> set tx" and "(q, eq) \<in> set (words_of c)"
  shows "string_at buf q = slice tx (q, eq) \<and> slice tx (q, eq) \<noteq> [] \<and>
    (\<forall>x \<in> set (slice tx (q, eq)). plain x) \<and> (eq = length tx \<or> \<not> plain (tx ! eq))"
proof -
  note ok = parsecmd_Ret [OF assms(1)]
  from ok(1) assms(3) have w: "word_at tx (q, eq)" by (auto simp: cmd_ok_def)
  have "plain x" if "x \<in> set (slice tx (q, eq))" for x
  proof -
    from that obtain i where "i < length (slice tx (q, eq))" "x = slice tx (q, eq) ! i"
      unfolding in_set_conv_nth by blast
    with w show ?thesis by (auto simp: slice_def word_at_def)
  qed
  with w string_at_word [OF ok(1) assms(3,2)] ok(2) show ?thesis
    by (auto simp: slice_def word_at_def)
qed

text \<open>
  C31. A parsed command is in bounds: no \<open>argv\<close> array holds more than MAXARGS - 1 words, so the
  null pointer parseexec() stores after them is inside the array, and every byte nulterminate()
  clears is inside the buffer of the command line.
\<close>

theorem parsecmd_in_bounds:
  assumes "parsecmd tx = Ret (c, buf)"
  shows "argv_fits c \<and> length buf = length tx + 1 \<and> (\<forall>(q, eq) \<in> set (words_of c). q < eq \<and> eq < length buf)"
proof -
  note ok = parsecmd_Ret [OF assms]
  have l: "length buf = length tx + 1" unfolding ok(2) nulterminate_words zeroed_words(1) by simp
  with ok(1) show ?thesis by (force simp: cmd_ok_def word_at_def)
qed


text \<open>The command line \<open>ls>x;a b\<close>.\<close>

lemma demo_parse:
  "parsecmd [108, 115, 62, 120, 59, 97, 32, 98] =
     Ret (Listcmd (Redircmd (Execcmd [(0, 2)]) (3, 4) (O_WRONLY + O_CREATE + O_TRUNC) 1) (Execcmd [(5, 6), (7, 8)]),
       [108, 115, 0, 120, 0, 97, 0, 98, 0])"
  by code_simp

theorem parsecmd_words_witness:
  "string_at [108, 115, 0, 120, 0, 97, 0, 98, 0] 3 = slice [108, 115, 62, 120, 59, 97, 32, 98] (3, 4)"
  using parsecmd_words [OF demo_parse, of 3 4] by simp

theorem parsecmd_in_bounds_witness:
  "argv_fits (Listcmd (Redircmd (Execcmd [(0, 2)]) (3, 4) (O_WRONLY + O_CREATE + O_TRUNC) 1)
     (Execcmd [(5, 6), (7, 8)]))"
  using parsecmd_in_bounds [OF demo_parse] by (rule conjunct1)

end
