(* ===== verification/Xv6_RunCmd.thy ===== *)
theory Xv6_RunCmd
  imports Xv6_Shell Xv6_Param
begin

text \<open>
  The execution of parsed commands and the read loop of user/sh.c. A user program is the tree of
  its system calls: each call carries what the program does next, for each result the program
  tells apart. The second half runs such a tree on the descriptor table of a process and states
  what a command means.
\<close>

section \<open>Programs as trees of system calls\<close>

datatype action =
    Exit int
  | Exec "u8 list" "u8 list list" action
  | Close int action
  | Dup int action
  | Open "u8 list" int "int \<Rightarrow> action"
  | Pipe "int \<Rightarrow> int \<Rightarrow> action" action
  | Fork action action action
  | Wait "bool \<Rightarrow> action"
  | Chdir "u8 list" "bool \<Rightarrow> action"
  | Read int "u8 option \<Rightarrow> action"
  | Fprintf int string "u8 list list" action

text \<open>
  Exec goes on only when exec() fails; Open is told the descriptor or -1; Pipe is told the two
  descriptors or fails; Fork has a child, a parent and a failure; Wait and Chdir are told whether
  they succeeded, and Read the byte, if there is one. The message of Fprintf has its arguments
  beside the format.
\<close>

definition user_panic :: "string \<Rightarrow> action" where
  "user_panic s = Fprintf 2 (s @ ''\<newline>'') [] (Exit 1)"

definition fork1 :: "action \<Rightarrow> action \<Rightarrow> action" where
  "fork1 child parent = Fork child parent (user_panic ''fork'')"

fun runcmd :: "u8 list \<Rightarrow> cmd \<Rightarrow> action" where
  "runcmd buf (Execcmd args) =
     (case args of
        [] \<Rightarrow> Exit 1
      | (q, eq) # _ \<Rightarrow>
          Exec (string_at buf q) (map (\<lambda>w. string_at buf (fst w)) args)
            (Fprintf 2 ''exec %s failed\<newline>'' [string_at buf q] (Exit 0)))"
| "runcmd buf (Redircmd c w mode fd) =
     Close fd (Open (string_at buf (fst w)) mode (\<lambda>r.
       if r < 0 then Fprintf 2 ''open %s failed\<newline>'' [string_at buf (fst w)] (Exit 1)
       else runcmd buf c))"
| "runcmd buf (Listcmd l r) = fork1 (runcmd buf l) (Wait (\<lambda>_. runcmd buf r))"
| "runcmd buf (Pipecmd l r) =
     Pipe (\<lambda>p0 p1.
       fork1 (Close 1 (Dup p1 (Close p0 (Close p1 (runcmd buf l)))))
         (fork1 (Close 0 (Dup p0 (Close p0 (Close p1 (runcmd buf r)))))
           (Close p0 (Close p1 (Wait (\<lambda>_. Wait (\<lambda>_. Exit 0)))))))
       (user_panic ''pipe'')"
| "runcmd buf (Backcmd c) = fork1 (runcmd buf c) (Exit 0)"

section \<open>What a tree does to the descriptors\<close>

text \<open>
  What a descriptor stands for: one inherited by the shell, a file opened by its path, or an end
  of the pipe made by a process. A process is named by its place in the tree of forks.
\<close>

datatype object = Inherited nat | Opened "u8 list" int | Pipe_read "nat list" | Pipe_write "nat list"

type_synonym descriptors = "nat \<Rightarrow> object option"

definition alloc_fd :: "descriptors \<Rightarrow> nat option" where
  "alloc_fd t = scan (\<lambda>fd. t fd = None) 0 NOFILE"

definition close_fd :: "int \<Rightarrow> descriptors \<Rightarrow> descriptors" where
  "close_fd fd t = (if 0 \<le> fd \<and> fd < int NOFILE then t(nat fd := None) else t)"

definition open_fd :: "object \<Rightarrow> descriptors \<Rightarrow> int \<times> descriptors" where
  "open_fd x t = (case alloc_fd t of None \<Rightarrow> (-1, t) | Some fd \<Rightarrow> (int fd, t(fd := Some x)))"

definition dup_fd :: "int \<Rightarrow> descriptors \<Rightarrow> descriptors" where
  "dup_fd fd t =
     (if 0 \<le> fd \<and> fd < int NOFILE then case t (nat fd) of None \<Rightarrow> t | Some x \<Rightarrow> snd (open_fd x t) else t)"

text \<open>
  A run keeps the forks, waits and messages of the tree and shows the descriptors each program
  starts with. \<open>env\<close> says which files open and which programs exist; fork() succeeds.
\<close>

record env =
  can_open :: "u8 list \<Rightarrow> int \<Rightarrow> bool"
  can_exec :: "u8 list \<Rightarrow> bool"

datatype job =
    Ended int
  | Running "u8 list" "u8 list list" descriptors
  | Forked job job
  | Waiting "bool \<Rightarrow> job"
  | Moved "u8 list" "bool \<Rightarrow> job"
  | Reading "object option" "u8 option \<Rightarrow> job"
  | Message "object option" string "u8 list list" job

definition look_fd :: "int \<Rightarrow> descriptors \<Rightarrow> object option" where
  "look_fd fd t = (if 0 \<le> fd \<and> fd < int NOFILE then t (nat fd) else None)"

primrec run_action :: "env \<Rightarrow> action \<Rightarrow> descriptors \<Rightarrow> nat list \<Rightarrow> job" where
  "run_action e (Exit n) t me = Ended n"
| "run_action e (Exec path argv a) t me = (if can_exec e path then Running path argv t else run_action e a t me)"
| "run_action e (Close fd a) t me = run_action e a (close_fd fd t) me"
| "run_action e (Dup fd a) t me = run_action e a (dup_fd fd t) me"
| "run_action e (Open path mode f) t me =
     (let (r, t') = if can_open e path mode then open_fd (Opened path mode) t else (-1, t)
      in run_action e (f r) t' me)"
| "run_action e (Pipe f a) t me =
     (let (p0, t0) = open_fd (Pipe_read me) t; (p1, t1) = open_fd (Pipe_write me) t0
      in if p0 < 0 \<or> p1 < 0 then run_action e a t me else run_action e (f p0 p1) t1 me)"
| "run_action e (Fork child parent a) t me =
     Forked (run_action e child t (0 # me)) (run_action e parent t (1 # me))"
| "run_action e (Wait f) t me = Waiting (\<lambda>r. run_action e (f r) t me)"
| "run_action e (Chdir path f) t me = Moved path (\<lambda>r. run_action e (f r) t me)"
| "run_action e (Read fd f) t me = Reading (look_fd fd t) (\<lambda>r. run_action e (f r) t me)"
| "run_action e (Fprintf fd s args a) t me = Message (look_fd fd t) s args (run_action e a t me)"

text \<open>What a command means, said of its descriptors 0 and 1 directly.\<close>

fun meaning :: "env \<Rightarrow> u8 list \<Rightarrow> cmd \<Rightarrow> descriptors \<Rightarrow> nat list \<Rightarrow> job" where
  "meaning e buf (Execcmd []) t me = Ended 1"
| "meaning e buf (Execcmd ((q, eq) # ws)) t me =
     (if can_exec e (string_at buf q)
      then Running (string_at buf q) (map (\<lambda>w. string_at buf (fst w)) ((q, eq) # ws)) t
      else Message (t 2) ''exec %s failed\<newline>'' [string_at buf q] (Ended 0))"
| "meaning e buf (Redircmd c w mode fd) t me =
     (if can_open e (string_at buf (fst w)) mode
      then meaning e buf c (t(nat fd := Some (Opened (string_at buf (fst w)) mode))) me
      else Message (t 2) ''open %s failed\<newline>'' [string_at buf (fst w)] (Ended 1))"
| "meaning e buf (Listcmd l r) t me =
     Forked (meaning e buf l t (0 # me)) (Waiting (\<lambda>_. meaning e buf r t (1 # me)))"
| "meaning e buf (Pipecmd l r) t me =
     Forked (meaning e buf l (t(1 := Some (Pipe_write me))) (0 # me))
       (Forked (meaning e buf r (t(0 := Some (Pipe_read me))) (0 # 1 # me))
         (Waiting (\<lambda>_. Waiting (\<lambda>_. Ended 0))))"
| "meaning e buf (Backcmd c) t me = Forked (meaning e buf c t (0 # me)) (Ended 0)"

text \<open>The table of a process with its three standard descriptors and nothing else.\<close>

definition std_only :: "descriptors \<Rightarrow> bool" where
  "std_only t \<longleftrightarrow> (\<forall>fd. t fd \<noteq> None \<longleftrightarrow> fd < 3)"

lemma std_only_upd: "std_only t \<Longrightarrow> fd < 3 \<Longrightarrow> std_only (t(fd := Some x))"
  by (auto simp: std_only_def)

lemma alloc_fd_Some:
  "\<lbrakk>t fd = None; fd < NOFILE; \<And>i. i < fd \<Longrightarrow> t i \<noteq> None\<rbrakk> \<Longrightarrow> alloc_fd t = Some fd"
  by (auto simp: alloc_fd_def scan_Some_iff)

lemma std_only_iff: "std_only t \<Longrightarrow> (\<exists>x. t fd = Some x) \<longleftrightarrow> fd < 3"
  by (simp add: std_only_def)

lemma std_only_None: "std_only t \<Longrightarrow> t fd = None \<longleftrightarrow> 3 \<le> fd"
  unfolding std_only_def by (metis not_le)

text \<open>The descriptor closed is the next one that open() or dup() gives out.\<close>

lemma reopen:
  assumes t: "\<And>i. i < fd \<Longrightarrow> t i \<noteq> None" and fd: "fd < NOFILE"
  shows "open_fd x (close_fd (int fd) t) = (int fd, t(fd := Some x))"
proof -
  have "alloc_fd (t(fd := None)) = Some fd" by (rule alloc_fd_Some) (use assms in auto)
  then show ?thesis using fd by (simp add: close_fd_def open_fd_def)
qed

lemma pipe_fds:
  assumes "std_only t"
  shows "open_fd x t = (3, t(3 := Some x))" "open_fd y (t(3 := Some x)) = (4, t(3 := Some x, 4 := Some y))"
proof -
  note n = std_only_None [OF assms]
  have a: "alloc_fd t = Some 3" by (rule alloc_fd_Some) (simp_all add: n)
  have "alloc_fd (t(3 := Some x)) = Some 4" by (rule alloc_fd_Some) (auto simp: n simp del: not_None_eq)
  with a show "open_fd x t = (3, t(3 := Some x))" "open_fd y (t(3 := Some x)) = (4, t(3 := Some x, 4 := Some y))"
    by (simp_all add: open_fd_def)
qed

text \<open>Moving a pipe end onto a standard descriptor leaves no other end of the pipe open.\<close>

lemma move_pipe_end:
  assumes std: "std_only t" and fd: "fd < 3" and q: "q = 3 \<and> z = x \<or> q = 4 \<and> z = y"
  shows "close_fd 4 (close_fd 3 (dup_fd q (close_fd (int fd) (t(3 := Some x, 4 := Some y))))) = t(fd := Some z)"
proof -
  let ?t = "t(3 := Some x, 4 := Some y)"
  note n = std_only_None [OF std]
  have "close_fd (int fd) ?t (nat q) = Some z" using q fd by (auto simp: close_fd_def)
  moreover have "open_fd z (close_fd (int fd) ?t) = (int fd, ?t(fd := Some z))"
    by (rule reopen) (use fd in \<open>simp_all add: n\<close>)
  ultimately have "dup_fd q (close_fd (int fd) ?t) = ?t(fd := Some z)" using q by (auto simp: dup_fd_def)
  moreover have "t 3 = None" "t 4 = None" by (simp_all add: n)
  ultimately show ?thesis using fd by (auto simp: close_fd_def fun_eq_iff)
qed

lemma close_pipe_ends:
  assumes "std_only t"
  shows "close_fd 4 (close_fd 3 (t(3 := Some x, 4 := Some y))) = t"
proof -
  have "t 3 = None" "t 4 = None" using std_only_None [OF assms] by simp_all
  then show ?thesis by (auto simp: close_fd_def fun_eq_iff)
qed

lemma look_fd_2: "look_fd 2 t = t 2"
  by (simp add: look_fd_def)

lemma runcmd_run:
  "\<lbrakk>std_only t; fds_std c\<rbrakk> \<Longrightarrow> run_action e (runcmd buf c) t me = meaning e buf c t me"
proof (induction c arbitrary: t me)
  case (Execcmd args)
  then show ?case by (cases args) (auto simp: look_fd_2)
next
  case (Redircmd c w mode fd)
  then obtain n where n: "fd = int n" "n < 3" by (auto intro: that [of 0] that [of 1])
  have r: "open_fd x (close_fd fd t) = (fd, t(n := Some x))" for x
    unfolding n(1) by (rule reopen) (use n std_only_None [OF Redircmd.prems(1)] in simp_all)
  have m: "close_fd fd t 2 = t 2" using Redircmd.prems(2) by (auto simp: close_fd_def)
  have IH: "run_action e (runcmd buf c) (t(n := Some x)) me = meaning e buf c (t(n := Some x)) me" for x
    by (rule Redircmd.IH [OF std_only_upd [OF Redircmd.prems(1) n(2)]]) (use Redircmd.prems(2) in simp)
  have "fds_std c" "nat fd = n" "\<not> fd < 0" using Redircmd.prems(2) n(1) by simp_all
  then show ?case by (simp add: look_fd_2 r m IH)
next
  case (Pipecmd l r)
  note p = pipe_fds [OF Pipecmd.prems(1)]
  note m = move_pipe_end [OF Pipecmd.prems(1), of 1] move_pipe_end [OF Pipecmd.prems(1), of 0]
  have L: "run_action e (runcmd buf l) (t(Suc 0 := Some x)) me = meaning e buf l (t(Suc 0 := Some x)) me" for x me
    by (rule Pipecmd.IH(1) [OF std_only_upd [OF Pipecmd.prems(1)]]) (use Pipecmd.prems(2) in simp_all)
  have R: "run_action e (runcmd buf r) (t(0 := Some x)) me = meaning e buf r (t(0 := Some x)) me" for x me
    by (rule Pipecmd.IH(2) [OF std_only_upd [OF Pipecmd.prems(1)]]) (use Pipecmd.prems(2) in simp_all)
  show ?case by (simp add: p m [simplified] fork1_def close_pipe_ends [OF Pipecmd.prems(1)] L R)
next
  case (Listcmd l r)
  then show ?case by (simp add: fork1_def)
next
  case (Backcmd c)
  then show ?case by (simp add: fork1_def)
qed

text \<open>Every program a job starts has the three standard descriptors and no other.\<close>

primrec starts_clean :: "job \<Rightarrow> bool" where
  "starts_clean (Ended n) \<longleftrightarrow> True"
| "starts_clean (Running path argv t) \<longleftrightarrow> std_only t"
| "starts_clean (Forked a b) \<longleftrightarrow> starts_clean a \<and> starts_clean b"
| "starts_clean (Waiting f) \<longleftrightarrow> (\<forall>r. starts_clean (f r))"
| "starts_clean (Moved path f) \<longleftrightarrow> (\<forall>r. starts_clean (f r))"
| "starts_clean (Reading x f) \<longleftrightarrow> (\<forall>r. starts_clean (f r))"
| "starts_clean (Message x s args j) \<longleftrightarrow> starts_clean j"

lemma meaning_clean:
  "\<lbrakk>std_only t; fds_std c\<rbrakk> \<Longrightarrow> starts_clean (meaning e buf c t me)"
proof (induction e buf c t me rule: meaning.induct)
  case (3 e buf c w mode fd t me)
  have fd: "nat fd < 3" using "3.prems"(2) by auto
  have "starts_clean (meaning e buf c (t(nat fd := Some (Opened (string_at buf (fst w)) mode))) me)"
    if "can_open e (string_at buf (fst w)) mode"
    by (rule "3.IH" [OF that std_only_upd [OF "3.prems"(1) fd]]) (use "3.prems"(2) in simp)
  then show ?case by simp
next
  case (5 e buf l r t me)
  have "starts_clean (meaning e buf l (t(1 := Some (Pipe_write me))) (0 # me))"
    by (rule "5.IH"(1) [OF std_only_upd [OF "5.prems"(1)]]) (use "5.prems"(2) in simp_all)
  moreover have "starts_clean (meaning e buf r (t(0 := Some (Pipe_read me))) (0 # 1 # me))"
    by (rule "5.IH"(2) [OF std_only_upd [OF "5.prems"(1)]]) (use "5.prems"(2) in simp_all)
  ultimately show ?case by simp
qed simp_all

section \<open>Reading command lines\<close>







text \<open>A program after these bytes have been typed.\<close>

primrec typed :: "action \<Rightarrow> u8 list \<Rightarrow> action" where
  "typed (Exit n) cs = Exit n"
| "typed (Exec path argv a) cs = Exec path argv a"
| "typed (Close fd a) cs = Close fd a"
| "typed (Dup fd a) cs = Dup fd a"
| "typed (Open path mode f) cs = Open path mode f"
| "typed (Pipe f a) cs = Pipe f a"
| "typed (Fork child parent a) cs = Fork child parent a"
| "typed (Wait f) cs = Wait f"
| "typed (Chdir path f) cs = Chdir path f"
| "typed (Read fd f) cs = (case cs of [] \<Rightarrow> Read fd f | c # cs \<Rightarrow> typed (f (Some c)) cs)"
| "typed (Fprintf fd s args a) cs = Fprintf fd s args (typed a cs)"

lemma typed_Nil [simp]: "typed a [] = a"
  by (induction a) simp_all






section \<open>Properties\<close>

text \<open>
  C32. A parsed command does with its descriptors what it says. In a process that has the
  standard descriptors and no other, the close(), open(), pipe() and dup() calls of runcmd(),
  which rely on the lowest free descriptor being given out, amount to: a redirection replaces
  its descriptor by the file, a pipe replaces descriptor 1 of the left and descriptor 0 of the
  right command by its ends, a list runs its commands in turn, and everything else is as
  inherited. A file that does not open or a program that does not exist ends its process with a
  message on descriptor 2.
\<close>

theorem runcmd_meaning:
  assumes "parsecmd tx = Ret (c, buf)" and "std_only t"
  shows "run_action e (runcmd buf c) t me = meaning e buf c t me"
  using runcmd_run [OF assms(2)] parsecmd_Ret(1) [OF assms(1)] by (simp add: cmd_ok_def)

text \<open>
  No descriptor of a pipe is left over: whatever the command and whatever files open, every
  program the command starts has the three standard descriptors and nothing else, so the reader
  of a pipe sees its end when the writer exits.
\<close>

theorem runcmd_leaks_nothing:
  assumes "parsecmd tx = Ret (c, buf)" and "std_only t"
  shows "starts_clean (run_action e (runcmd buf c) t me)"
proof -
  have "fds_std c" using parsecmd_Ret(1) [OF assms(1)] by (simp add: cmd_ok_def)
  then show ?thesis using runcmd_run [OF assms(2)] meaning_clean [OF assms(2)] by simp
qed


text \<open>The command \<open>a|b\<close>, in the shell itself.\<close>

definition demo_env :: env where
  "demo_env = \<lparr>can_open = (\<lambda>path mode. True), can_exec = (\<lambda>path. True)\<rparr>"

definition demo_descriptors :: descriptors where
  "demo_descriptors fd = (if fd < 3 then Some (Inherited fd) else None)"

lemma demo_pipe_parse:
  "parsecmd [97, 124, 98] = Ret (Pipecmd (Execcmd [(0, 1)]) (Execcmd [(2, 3)]), [97, 0, 98, 0])"
  by code_simp

lemma demo_std: "std_only demo_descriptors"
  by (simp add: std_only_def demo_descriptors_def)

theorem runcmd_meaning_witness:
  "run_action demo_env (runcmd [97, 0, 98, 0] (Pipecmd (Execcmd [(0, 1)]) (Execcmd [(2, 3)]))) demo_descriptors [] =
   Forked (Running [97] [[97]] (demo_descriptors(1 := Some (Pipe_write []))))
     (Forked (Running [98] [[98]] (demo_descriptors(0 := Some (Pipe_read []))))
       (Waiting (\<lambda>_. Waiting (\<lambda>_. Ended 0))))"
  unfolding runcmd_meaning [OF demo_pipe_parse demo_std]
  by (simp add: demo_env_def string_at_def)

theorem runcmd_leaks_nothing_witness:
  "starts_clean (run_action demo_env
     (runcmd [97, 0, 98, 0] (Pipecmd (Execcmd [(0, 1)]) (Execcmd [(2, 3)]))) demo_descriptors [])"
  by (rule runcmd_leaks_nothing [OF demo_pipe_parse demo_std])


end
