(* ===== verification/Xv6_UPrintf.thy ===== *)
theory Xv6_UPrintf
  imports Xv6_Printf
begin

text \<open>
  Formatted output of user programs: user/printf.c. putc() writes one byte, so the result of a
  function is the bytes it writes to its descriptor, in order. The last lemmas compare it with
  the printf() of the kernel (Xv6_Printf), whose arguments it shares.
\<close>

section \<open>Numbers\<close>

definition user_digits :: "u8 list" where
  "user_digits = str ''0123456789ABCDEF''"

text \<open>The digits of \<open>x\<close>, least significant first.\<close>

function user_printint_loop :: "u32 \<Rightarrow> u32 \<Rightarrow> u8 list" where
  "user_printint_loop base x =
     user_digits ! unat (x mod base) #
       (if x div base \<noteq> 0 \<and> 1 < base then user_printint_loop base (x div base) else [])"
  by pat_completeness auto
termination
proof (relation "measure (\<lambda>(base, x). unat x)", goal_cases)
  case (2 base x)
  then have "unat (x div base) \<noteq> 0" "1 < unat base" by (simp_all add: unat_eq_zero word_less_nat_alt)
  then have "unat x div unat base < unat x"
    by (metis div_0 div_less_dividend gr0I unat_div)
  then show ?case by (simp add: unat_div)
qed simp

declare user_printint_loop.simps [simp del]

definition user_printint :: "u32 \<Rightarrow> u32 \<Rightarrow> bool \<Rightarrow> u8 list" where
  "user_printint xx base sg =
     (let neg = (sg \<and> sint xx < 0); x = (if neg then - xx else xx)
      in rev (user_printint_loop base x @ (if neg then [45] else [])))"

fun user_printptr_loop :: "nat \<Rightarrow> u64 \<Rightarrow> u8 list" where
  "user_printptr_loop 0 x = []"
| "user_printptr_loop (Suc k) x = user_digits ! unat (drop_bit 60 x) # user_printptr_loop k (push_bit 4 x)"

definition user_printptr :: "u64 \<Rightarrow> u8 list" where
  "user_printptr x = str ''0x'' @ user_printptr_loop 16 x"

section \<open>The format\<close>

text \<open>\<open>st\<close> is the variable \<open>state\<close>: true after a percent sign.\<close>

fun vprintf_loop :: "bool \<Rightarrow> u8 list \<Rightarrow> farg list \<Rightarrow> u8 list outcome" where
  "vprintf_loop st [] args = Ret []"
| "vprintf_loop False (c # fmt) args =
     (if c = pct then vprintf_loop True fmt args
      else obind (vprintf_loop False fmt args) (\<lambda>out. Ret (c # out)))"
| "vprintf_loop True (c # fmt) args =
     (let put = (\<lambda>xs args. obind (vprintf_loop False fmt args) (\<lambda>out. Ret (xs @ out))) in
      if c = of_char (CHR ''d'') then
        (case args of AInt n # args \<Rightarrow> put (user_printint n 10 True) args | _ \<Rightarrow> Fail Undef)
      else if c = of_char (CHR ''l'') then
        (case args of APtr n # args \<Rightarrow> put (user_printint (ucast n) 10 False) args | _ \<Rightarrow> Fail Undef)
      else if c = of_char (CHR ''x'') then
        (case args of AInt n # args \<Rightarrow> put (user_printint n 16 False) args | _ \<Rightarrow> Fail Undef)
      else if c = of_char (CHR ''p'') then
        (case args of APtr n # args \<Rightarrow> put (user_printptr n) args | _ \<Rightarrow> Fail Undef)
      else if c = of_char (CHR ''s'') then
        (case args of
           AStr s # args \<Rightarrow> put (case s of None \<Rightarrow> str ''(null)'' | Some s \<Rightarrow> s) args
         | _ \<Rightarrow> Fail Undef)
      else if c = of_char (CHR ''c'') then
        (case args of AInt n # args \<Rightarrow> put [ucast n] args | _ \<Rightarrow> Fail Undef)
      else if c = pct then put [c] args
      else put [pct, c] args)"

definition vprintf :: "string \<Rightarrow> farg list \<Rightarrow> u8 list outcome" where
  "vprintf fmt args = vprintf_loop False (str fmt) args"

section \<open>Agreement with the kernel\<close>

lemma same_digits: "i < 10 \<Longrightarrow> user_digits ! i = digits ! i"
proof -
  have "list_all (\<lambda>i. user_digits ! i = digits ! i) [0..<10]" by code_simp
  then show "i < 10 \<Longrightarrow> user_digits ! i = digits ! i" by (simp add: list_all_iff del: upt_rec_numeral)
qed

lemma same_decimal: "user_printint_loop 10 x = printint_loop 10 x"
proof (induction "10 :: u32" x rule: printint_loop.induct)
  case (1 x)
  have "unat (x mod 10) < 10" by (simp add: unat_mod)
  with 1 show ?case
    by (simp add: printint_loop.simps [of 10 x] user_printint_loop.simps [of 10 x] same_digits)
qed

lemma user_printint_10: "user_printint n 10 sg = rev (printint_buf n 10 sg)"
  by (simp add: user_printint_def printint_buf_def same_decimal Let_def)

lemma consputc_byte:
  "\<not> panicked u \<Longrightarrow> consputc (ucast (c :: u8)) u = Ret (u\<lparr>thr := thr u @ [c]\<rparr>)"
proof -
  have "unat (ucast c :: u32) < 256" using unsigned_less [of c, where 'a = nat] by (simp add: unsigned_ucast_eq take_bit_nat_eq_self)
  then have "(ucast c :: u32) \<noteq> BACKSPACE" by auto
  moreover have "ucast (ucast c :: u32) = c" by (rule bit_word_eqI) (simp add: bit_ucast_iff)
  ultimately show "\<not> panicked u \<Longrightarrow> consputc (ucast c) u = Ret (u\<lparr>thr := thr u @ [c]\<rparr>)"
    by (simp add: consputc_def uartputc_sync_def)
qed

lemma puts_bytes: "\<not> panicked u \<Longrightarrow> puts xs u = Ret (u\<lparr>thr := thr u @ xs\<rparr>)"
proof (induction xs arbitrary: u)
  case Nil
  then show ?case by (simp add: puts_def)
next
  case (Cons c xs)
  have "puts (c # xs) u = obind (consputc (ucast c) u) (puts xs)" by (simp add: puts_def)
  with Cons show ?case by (simp add: consputc_byte)
qed

text \<open>
  The conversions both understand in the same way are those other than \<open>l\<close>, \<open>x\<close>, \<open>p\<close> and \<open>c\<close>:
  the kernel prints hexadecimal in lower case and signed, and does not know \<open>l\<close> and \<open>c\<close>.
\<close>

fun shared_format :: "u8 list \<Rightarrow> bool" where
  "shared_format (c # d # fmt) \<longleftrightarrow>
     (if c = pct then d \<notin> {of_char (CHR ''l''), of_char (CHR ''x''), of_char (CHR ''p''), of_char (CHR ''c'')} \<and> shared_format fmt
      else shared_format (d # fmt))"
| "shared_format fmt \<longleftrightarrow> True"

definition emit :: "conout \<Rightarrow> u8 list outcome \<Rightarrow> conout outcome" where
  "emit u m = obind m (\<lambda>out. Ret (u\<lparr>thr := thr u @ out\<rparr>))"

lemma emit_after:
  assumes "\<And>args u. \<not> panicked u \<Longrightarrow> printf_loop fmt args u = emit u (vprintf_loop False fmt args)"
    and "\<not> panicked u"
  shows "obind (puts xs u) (printf_loop fmt args) = emit u (obind (vprintf_loop False fmt args) (\<lambda>out. Ret (xs @ out)))"
proof -
  have "\<not> panicked (u\<lparr>thr := thr u @ xs\<rparr>)" using assms(2) by simp
  from assms(1) [OF this, of args] show ?thesis
    by (cases "vprintf_loop False fmt args") (simp_all add: puts_bytes [OF assms(2)] emit_def)
qed

lemma consputc_puts: "\<not> panicked u \<Longrightarrow> consputc (ucast c) u = puts [c] u"
  by (simp add: consputc_byte puts_bytes)

lemma printf_conversion:
  assumes IH: "\<And>args u. \<not> panicked u \<Longrightarrow> printf_loop fmt args u = emit u (vprintf_loop False fmt args)"
    and u: "\<not> panicked u"
    and d: "d \<notin> {of_char (CHR ''l''), of_char (CHR ''x''), of_char (CHR ''p''), of_char (CHR ''c'')}"
  shows "printf_loop (pct # d # fmt) args u = emit u (vprintf_loop True (d # fmt) args)"
proof -
  note step = emit_after [OF IH u]
  have two: "obind (consputc (ucast pct) u) (\<lambda>u. obind (consputc (ucast d) u) (printf_loop fmt args)) =
      obind (puts [pct, d] u) (printf_loop fmt args)"
    using u by (simp add: consputc_byte puts_bytes)
  consider "d = of_char (CHR ''d'')" | "d = of_char (CHR ''s'')" | "d = pct"
    | "d \<notin> {of_char (CHR ''d''), of_char (CHR ''s''), pct}" by auto
  then show ?thesis
  proof cases
    case 1
    then show ?thesis
      by (simp add: printint_def step user_printint_10 emit_def [of u "Fail _"] Let_def split: list.split farg.split)
  next
    case 2
    then show ?thesis
      by (simp add: step emit_def [of u "Fail _"] Let_def split: list.split farg.split)
  next
    case 3
    then show ?thesis by (simp add: step consputc_puts [OF u, of pct, unfolded pct_def, simplified] pct_def Let_def)
  next
    case 4
    with d show ?thesis by (simp add: two step Let_def)
  qed
qed

lemma printf_loop_shared:
  "shared_format fmt \<Longrightarrow> \<not> panicked u \<Longrightarrow> printf_loop fmt args u = emit u (vprintf_loop False fmt args)"
proof (induction fmt arbitrary: args u rule: shared_format.induct)
  case (1 c d fmt)
  show ?case
  proof (cases "c = pct")
    case True
    have "\<And>args u. \<not> panicked u \<Longrightarrow> printf_loop fmt args u = emit u (vprintf_loop False fmt args)"
      using "1.IH"(1) [OF True] "1.prems"(1) True by simp
    from printf_conversion [OF this "1.prems"(2), of d args] "1.prems"(1) True show ?thesis by simp
  next
    case False
    have "\<And>args u. \<not> panicked u \<Longrightarrow> printf_loop (d # fmt) args u = emit u (vprintf_loop False (d # fmt) args)"
      using "1.IH"(2) [OF False] "1.prems"(1) False by simp
    from emit_after [OF this "1.prems"(2), of "[c]" args] False show ?thesis
      by (simp only: printf_loop.simps vprintf_loop.simps(2) [of c] consputc_puts [OF "1.prems"(2)] if_False
        if_True append_Cons append_Nil not_False_eq_True)
  qed
qed (simp_all add: emit_def consputc_byte)

text \<open>A 64-bit argument of \<open>%l\<close> is printed modulo \<open>2 ^ 32\<close>, as printint() takes an int.\<close>

lemma long_cut: "vprintf ''%l'' [APtr n] = Ret (user_printint (ucast n) 10 False)"
  by (simp add: vprintf_def str_def pct_def Let_def)

section \<open>Properties\<close>

text \<open>
  C38. A program and the kernel print alike: for a format without the conversions \<open>l\<close>, \<open>x\<close>, \<open>p\<close>
  and \<open>c\<close>, the bytes vprintf() writes for its arguments are those printf() of the kernel sends
  to the console, a missing string as "(null)", an unknown conversion as it stands, and a
  missing argument is undefined in both. The other four conversions differ: the kernel prints
  hexadecimal digits in lower case and negative numbers with a sign, and knows neither \<open>l\<close> nor
  \<open>c\<close>.
\<close>

theorem vprintf_is_printf:
  assumes "shared_format (str fmt)" and "\<not> panicked u"
  shows "printf fmt args u = emit u (vprintf fmt args)"
  unfolding printf_def vprintf_def by (rule printf_loop_shared [OF assms])

theorem vprintf_is_printf_witness:
  "printf ''%d %s'' [AInt (- 5), AStr (Some [97])] \<lparr>panicked = False, thr = []\<rparr> =
     Ret \<lparr>panicked = False, thr = [45, 53, 32, 97]\<rparr>"
proof -
  have f: "shared_format (str ''%d %s'')" by code_simp
  have v: "vprintf ''%d %s'' [AInt (- 5), AStr (Some [97])] = Ret [45, 53, 32, 97]" by code_simp
  show ?thesis by (subst vprintf_is_printf [OF f]) (simp_all add: v emit_def)
qed

end
