(* ===== verification/Xv6_Umalloc.thy ===== *)
theory Xv6_Umalloc
  imports Xv6_Prelude
begin

text \<open>
  The memory allocator of user programs, user/umalloc.c: a ring of free blocks in the order of
  their addresses, each with a header of 16 bytes in front. The heap is seen as the headers at
  its addresses; a size counts units of one header, the header included. The data between the
  headers belongs to the program and is not part of the state.
\<close>

section \<open>The heap\<close>

record header =
  s_ptr :: u64
  s_size :: u32

text \<open>
  \<open>u_base\<close> is the address of the static variable \<open>base\<close>, \<open>freep\<close> is 0 before the first call, and
  \<open>brk\<close> is the size of the process, which is the address sbrk() returns.
\<close>

record uheap =
  u_base :: u64
  hdr :: "u64 \<Rightarrow> header"
  freep :: u64
  brk :: u64

abbreviation ptr :: "uheap \<Rightarrow> u64 \<Rightarrow> u64" where "ptr s p \<equiv> s_ptr (hdr s p)"
abbreviation size_of :: "uheap \<Rightarrow> u64 \<Rightarrow> u32" where "size_of s p \<equiv> s_size (hdr s p)"

definition set_ptr :: "u64 \<Rightarrow> u64 \<Rightarrow> uheap \<Rightarrow> uheap" where
  "set_ptr p v s = s\<lparr>hdr := (hdr s)(p := (hdr s p)\<lparr>s_ptr := v\<rparr>)\<rparr>"

definition set_size :: "u64 \<Rightarrow> u32 \<Rightarrow> uheap \<Rightarrow> uheap" where
  "set_size p n s = s\<lparr>hdr := (hdr s)(p := (hdr s p)\<lparr>s_size := n\<rparr>)\<rparr>"

text \<open>The pointer \<open>p + n\<close> of C: \<open>n\<close> headers further on.\<close>

definition unit_after :: "u64 \<Rightarrow> u32 \<Rightarrow> u64" where
  "unit_after p n = p + 16 * ucast n"

section \<open>free\<close>

text \<open>The walk may go round for ever when the block is not one of malloc().\<close>

partial_function (option) free_walk :: "u64 \<Rightarrow> u64 \<Rightarrow> uheap \<Rightarrow> u64 option" where
  "free_walk bp p s =
     (if p < bp \<and> bp < ptr s p then Some p
      else if ptr s p \<le> p \<and> (p < bp \<or> bp < ptr s p) then Some p
      else free_walk bp (ptr s p) s)"

definition link_block :: "u64 \<Rightarrow> u64 \<Rightarrow> uheap \<Rightarrow> uheap" where
  "link_block bp p s =
     (let s = (if unit_after bp (size_of s bp) = ptr s p
               then let s' = set_size bp (size_of s bp + size_of s (ptr s p)) s
                    in set_ptr bp (ptr s' (ptr s' p)) s'
               else set_ptr bp (ptr s p) s);
          s = (if unit_after p (size_of s p) = bp
               then let s' = set_size p (size_of s p + size_of s bp) s
                    in set_ptr p (ptr s' bp) s'
               else set_ptr p bp s)
      in s\<lparr>freep := p\<rparr>)"

definition ufree :: "u64 \<Rightarrow> uheap \<Rightarrow> uheap option" where
  "ufree ap s =
     (let bp = ap - 16 in
      case free_walk bp (freep s) s of None \<Rightarrow> None | Some p \<Rightarrow> Some (link_block bp p s))"

section \<open>malloc\<close>

text \<open>
  sbrk() as the kernel's growproc() does it: growing needs memory, which \<open>room\<close> decides by the
  new size, and shrinking never fails. Its argument is an int.
\<close>

definition sbrk :: "(u64 \<Rightarrow> bool) \<Rightarrow> u32 \<Rightarrow> uheap \<Rightarrow> u64 \<times> uheap" where
  "sbrk room n s =
     (let new = brk s + scast n in
      if 0 < sint n then (if room new then (brk s, s\<lparr>brk := new\<rparr>) else (- 1, s))
      else if sint n < 0 then (brk s, if brk s \<le> new then s else s\<lparr>brk := new\<rparr>)
      else (brk s, s))"

definition morecore :: "(u64 \<Rightarrow> bool) \<Rightarrow> u32 \<Rightarrow> uheap \<Rightarrow> (u64 \<times> uheap) option" where
  "morecore room nu s =
     (let nu = (if nu < 4096 then 4096 else nu);
          (p, s) = sbrk room (ucast (ucast nu * 16 :: u64)) s in
      if p = - 1 then Some (0, s)
      else case ufree (p + 16) (set_size p nu s) of
          None \<Rightarrow> None
        | Some s \<Rightarrow> Some (freep s, s))"

definition take_block :: "u32 \<Rightarrow> u64 \<Rightarrow> u64 \<Rightarrow> uheap \<Rightarrow> u64 \<times> uheap" where
  "take_block nunits prevp p s =
     (let (p, s) =
        (if size_of s p = nunits then (p, set_ptr prevp (ptr s p) s)
         else let s = set_size p (size_of s p - nunits) s; p = unit_after p (size_of s p)
              in (p, set_size p nunits s))
      in (p + 16, s\<lparr>freep := prevp\<rparr>))"

partial_function (option) malloc_loop ::
    "(u64 \<Rightarrow> bool) \<Rightarrow> u32 \<Rightarrow> u64 \<Rightarrow> u64 \<Rightarrow> uheap \<Rightarrow> (u64 \<times> uheap) option" where
  "malloc_loop room nunits prevp p s =
     (if nunits \<le> size_of s p then Some (take_block nunits prevp p s)
      else if p = freep s then
        Option.bind (morecore room nunits s) (\<lambda>(p, s).
          if p = 0 then Some (0, s) else malloc_loop room nunits p (ptr s p) s)
      else malloc_loop room nunits p (ptr s p) s)"

definition units :: "u32 \<Rightarrow> u32" where
  "units nbytes = ucast ((ucast nbytes + 16 - 1 :: u64) div 16 + 1)"

definition malloc :: "(u64 \<Rightarrow> bool) \<Rightarrow> u32 \<Rightarrow> uheap \<Rightarrow> (u64 \<times> uheap) option" where
  "malloc room nbytes s =
     (let s = (if freep s = 0
               then set_size (u_base s) 0 ((set_ptr (u_base s) (u_base s) s)\<lparr>freep := u_base s\<rparr>)
               else s)
      in malloc_loop room (units nbytes) (freep s) (ptr s (freep s)) s)"

section \<open>The ring\<close>

type_synonym block = "u64 \<times> u32"

text \<open>The pointers from \<open>a\<close> on lead through these blocks, which have these sizes.\<close>

fun path :: "uheap \<Rightarrow> u64 \<Rightarrow> block list \<Rightarrow> bool" where
  "path s a [] \<longleftrightarrow> True"
| "path s a ((b, n) # bs) \<longleftrightarrow> ptr s a = b \<and> size_of s b = n \<and> path s b bs"

definition endp :: "u64 \<Rightarrow> block list \<Rightarrow> u64" where
  "endp a bs = last (a # map fst bs)"

lemma endp_simps [simp]: "endp a [] = a" "endp a (b # bs) = endp (fst b) bs" "endp a (bs @ [b]) = fst b"
  by (auto simp: endp_def)

lemma endp_append [simp]: "endp a (bs @ cs) = endp (endp a bs) cs"
  by (induction bs arbitrary: a) auto

lemma endp_mem: "endp a bs \<in> insert a (fst ` set bs)"
proof -
  have "last (a # map fst bs) \<in> set (a # map fst bs)" by (rule last_in_set) simp
  then show ?thesis by (simp add: endp_def)
qed

lemma path_append [simp]: "path s a (bs @ cs) \<longleftrightarrow> path s a bs \<and> path s (endp a bs) cs"
  by (induction s a bs rule: path.induct) auto

lemma path_cong:
  "\<lbrakk>path s a bs; \<And>x. x \<in> set (butlast (a # map fst bs)) \<Longrightarrow> ptr s' x = ptr s x;
    \<And>x. x \<in> fst ` set bs \<Longrightarrow> size_of s' x = size_of s x\<rbrakk> \<Longrightarrow> path s' a bs"
proof (induction s a bs rule: path.induct)
  case (2 s a b n bs)
  have "path s' b bs"
    by (rule "2.IH") (use "2.prems" in \<open>auto split: if_splits\<close>)
  then show ?case using "2.prems"(1) "2.prems"(2) [of a] "2.prems"(3) [of b] by auto
qed simp

lemma path_step:
  "\<lbrakk>path s a bs; z \<in> set (butlast (a # map fst bs))\<rbrakk> \<Longrightarrow> ptr s z \<in> fst ` set bs"
proof (induction s a bs rule: path.induct)
  case (2 s a b n bs)
  show ?case
  proof (cases "z = a")
    case True
    with "2.prems" show ?thesis by simp
  next
    case False
    with "2.prems" "2.IH" show ?thesis by (auto split: if_splits)
  qed
qed simp

lemma path_inj:
  "\<lbrakk>path s a bs; distinct (map fst bs); x \<in> set (butlast (a # map fst bs)); y \<in> set (butlast (a # map fst bs));
    ptr s x = ptr s y\<rbrakk> \<Longrightarrow> x = y"
proof (induction s a bs rule: path.induct)
  case (2 s a b n bs)
  have p: "path s b bs" "b \<notin> fst ` set bs" using "2.prems"(1,2) by auto
  have out: "ptr s z \<noteq> b" if "z \<in> set (butlast (b # map fst bs))" for z
    using path_step [OF p(1) that] p(2) by metis
  have a: "ptr s a = b" using "2.prems"(1) by simp
  have mem: "z = a \<or> z \<in> set (butlast (b # map fst bs))" if "z \<in> set (butlast (a # map fst ((b, n) # bs)))" for z
    using that by (auto split: if_splits)
  consider "x = a" "y = a" | "x = a" "y \<in> set (butlast (b # map fst bs))"
    | "y = a" "x \<in> set (butlast (b # map fst bs))"
    | "x \<in> set (butlast (b # map fst bs))" "y \<in> set (butlast (b # map fst bs))"
    using mem [OF "2.prems"(3)] mem [OF "2.prems"(4)] by blast
  then show ?case
  proof cases
    case 4
    with "2.IH" "2.prems" show ?thesis by simp
  qed (use out a "2.prems"(5) in metis)+
qed simp

text \<open>The ring: the blocks in the order of their addresses between \<open>base\<close> and \<open>base\<close> again.\<close>

definition free_ring :: "uheap \<Rightarrow> block list \<Rightarrow> bool" where
  "free_ring s bs \<longleftrightarrow> path s (u_base s) (bs @ [(u_base s, 0)])"

lemma ring_rotate:
  assumes "free_ring s bs" and "(u_base s, 0) # bs = cs @ (q, n) # ds"
  shows "path s q (ds @ cs @ [(q, n)])"
proof (cases cs)
  case Nil
  with assms show ?thesis by (auto simp: free_ring_def)
next
  case (Cons c cs')
  with assms show ?thesis by (auto simp: free_ring_def)
qed

section \<open>Intervals\<close>

definition ends :: "block \<Rightarrow> nat" where
  "ends b = unat (fst b) + 16 * unat (snd b)"

definition span :: "block \<Rightarrow> nat set" where
  "span b = {unat (fst b) ..< ends b}"

definition before :: "block \<Rightarrow> block \<Rightarrow> bool" where
  "before b c \<longleftrightarrow> ends b < unat (fst c)"

definition off_block :: "block \<Rightarrow> block \<Rightarrow> bool" where
  "off_block b c \<longleftrightarrow> ends b \<le> unat (fst c) \<or> ends c \<le> unat (fst b)"

abbreviation RAM_SIZE :: nat where "RAM_SIZE \<equiv> 0x8000000"

lemma unat_unit_after:
  assumes "ends (a, n) \<le> RAM_SIZE"
  shows "unat (unit_after a n) = ends (a, n)"
proof -
  have n: "unat (ucast n :: u64) = unat n" using unsigned_less [of n, where 'a = nat] by (simp add: unsigned_ucast_eq take_bit_nat_eq_self)
  have m: "unat (16 * ucast n :: u64) = 16 * unat n"
    using assms n by (subst unat_mult_lem [THEN iffD1]) (simp_all add: ends_def)
  then show ?thesis using assms by (simp add: unit_after_def ends_def unat_plus_simple [THEN iffD1] no_olen_add_nat)
qed

lemma unat_add_units: "16 * (unat k + unat m) \<le> RAM_SIZE \<Longrightarrow> unat (k + m :: u32) = unat k + unat m"
  by (simp add: unat_plus_simple [THEN iffD1] no_olen_add_nat)

lemma ends_add:
  assumes "ends (a, k) = unat b" and "ends (b, m) \<le> RAM_SIZE"
  shows "ends (a, k + m) = ends (b, m)"
proof -
  have "unat (k + m) = unat k + unat m" by (rule unat_add_units) (use assms in \<open>simp add: ends_def\<close>)
  then show ?thesis using assms by (simp add: ends_def)
qed

lemma unit_after_eq:
  assumes "ends (a, n) \<le> RAM_SIZE"
  shows "unit_after a n = b \<longleftrightarrow> ends (a, n) = unat b"
  using unat_unit_after [OF assms] by (metis word_unat_eq_iff)

lemma span_join: "\<lbrakk>ends (a, k) = unat b; ends c = ends (b, m); fst c = a\<rbrakk> \<Longrightarrow> span c = span (a, k) \<union> span (b, m)"
  by (auto simp: span_def ends_def)

section \<open>The invariant\<close>

text \<open>
  \<open>ring_ok s bs A G\<close>: the free blocks are \<open>bs\<close>, in the order of addresses and with a gap after
  each, and the blocks \<open>A\<close> are with the program; no two blocks overlap, and together they are the
  bytes \<open>G\<close> that sbrk() has granted.
\<close>

definition ring_ok :: "uheap \<Rightarrow> block list \<Rightarrow> block set \<Rightarrow> nat set \<Rightarrow> bool" where
  "ring_ok s bs A G \<longleftrightarrow>
     free_ring s bs \<and> sorted_wrt before ((u_base s, 0) # bs) \<and> freep s \<in> insert (u_base s) (fst ` set bs) \<and>
     (\<forall>b \<in> set bs \<union> A. snd b \<noteq> 0 \<and> u_base s < fst b \<and> ends b \<le> unat (brk s)) \<and>
     (\<forall>b \<in> A. size_of s (fst b) = snd b) \<and>
     (\<forall>b \<in> A. \<forall>c \<in> set bs. off_block b c) \<and> (\<forall>b \<in> A. \<forall>c \<in> A. b \<noteq> c \<longrightarrow> off_block b c) \<and>
     \<Union> (span ` (set bs \<union> A)) = G \<and>
     0 < u_base s \<and> u_base s < brk s \<and> unat (brk s) \<le> RAM_SIZE"

lemma split_free:
  "\<lbrakk>sorted_wrt before bs; \<forall>c \<in> set bs. off_block b c \<and> snd c \<noteq> 0; snd b \<noteq> 0\<rbrakk> \<Longrightarrow>
    \<exists>L1 L2. bs = L1 @ L2 \<and> (\<forall>c \<in> set L1. ends c \<le> unat (fst b)) \<and> (\<forall>c \<in> set L2. ends b \<le> unat (fst c))"
proof (induction bs)
  case (Cons c bs)
  from Cons.prems consider "ends c \<le> unat (fst b)" | "ends b \<le> unat (fst c)" by (auto simp: off_block_def)
  then show ?case
  proof cases
    case 1
    from Cons obtain L1 L2 where "bs = L1 @ L2" "\<forall>c \<in> set L1. ends c \<le> unat (fst b)"
        "\<forall>c \<in> set L2. ends b \<le> unat (fst c)" by auto
    with 1 show ?thesis by (intro exI [of _ "c # L1"] exI [of _ L2]) simp
  next
    case 2
    have "ends b \<le> unat (fst d)" if "d \<in> set bs" for d
      using that 2 Cons.prems(1) by (auto simp: before_def ends_def)
    with 2 show ?thesis by (intro exI [of _ "[]"] exI [of _ "c # bs"]) simp
  qed
qed simp

section \<open>The walk of free()\<close>

lemma walk_along:
  assumes "path s a bs" and "sorted_wrt (<) (a # map fst bs)" and "(\<forall>b \<in> set bs. fst b < bp) \<or> bp < a"
  shows "free_walk bp a s = free_walk bp (endp a bs) s"
  using assms
proof (induction s a bs rule: path.induct)
  case (2 s a b n bs)
  have "ptr s a = b" "a < b" using "2.prems" by simp_all
  moreover have "\<not> (a < bp \<and> bp < b)" using "2.prems"(2,3) by auto
  ultimately have "free_walk bp a s = free_walk bp b s" by (subst free_walk.simps) auto
  moreover have "free_walk bp b s = free_walk bp (endp b bs) s"
    by (rule "2.IH") (use "2.prems" in auto)
  ultimately show ?case by simp
qed simp

lemma before_less: "before b c \<Longrightarrow> fst b < fst c"
  by (auto simp: before_def ends_def word_less_nat_alt)

lemma sorted_fst: "sorted_wrt before bs \<Longrightarrow> sorted_wrt (<) (map fst bs)"
  unfolding sorted_wrt_map by (rule sorted_wrt_mono_rel) (auto intro: before_less)

lemma walk_to:
  assumes r: "free_ring s (L1 @ L2)" and so: "sorted_wrt before ((u_base s, 0) # L1 @ L2)"
    and b1: "\<forall>c \<in> insert (u_base s, 0) (set L1). fst c < bp" and b2: "\<forall>c \<in> set L2. bp < fst c"
    and f: "f \<in> insert (u_base s) (fst ` set (L1 @ L2))"
  shows "free_walk bp f s = Some (endp (u_base s) L1)"
proof -
  let ?b = "u_base s" and ?p = "endp (u_base s) L1"
  have sf: "sorted_wrt (<) (?b # map fst L1 @ map fst L2)" using sorted_fst [OF so] by simp
  have pa: "path s ?b L1" "path s ?p (L2 @ [(?b, 0)])" using r by (auto simp: free_ring_def)
  have "?p < bp" using endp_mem [of ?b L1] b1 by auto
  moreover have "\<forall>x \<in> fst ` set L1. ?b \<le> x" using sf by (auto simp: less_imp_le)
  with endp_mem [of ?b L1] have "?b \<le> ?p" by (metis insert_iff order_refl)
  ultimately have stop: "free_walk bp ?p s = Some ?p"
    using pa(2) b2 by (cases L2) (auto simp: free_walk.simps [of bp ?p])
  have front: "free_walk bp g s = Some ?p" if g: "g \<in> insert ?b (fst ` set L1)" for g
  proof -
    from g obtain n where "(g, n) \<in> set ((?b, 0) # L1)" by force
    then obtain cs ds where l: "(?b, 0) # L1 = cs @ (g, n) # ds" by (meson split_list)
    then have "path s g ds \<and> endp g ds = ?p" using pa(1) by (cases cs) auto
    moreover have "sorted_wrt (<) (map fst ((?b, 0) # L1))" using sf by (auto simp: sorted_wrt_append)
    then have "sorted_wrt (<) (g # map fst ds)" unfolding l by (simp add: sorted_wrt_append)
    moreover have "\<forall>c \<in> set ds. fst c < bp"
    proof
      fix c assume "c \<in> set ds"
      then have "c \<in> set ((?b, 0) # L1)" unfolding l by simp
      then show "fst c < bp" using b1 by auto
    qed
    ultimately show ?thesis using walk_along [of s g ds bp] stop by simp
  qed
  show ?thesis
  proof (cases "f \<in> insert ?b (fst ` set L1)")
    case True
    then show ?thesis by (rule front)
  next
    case False
    with f obtain n where "(f, n) \<in> set L2" by auto
    then obtain cs ds where l: "L2 = cs @ (f, n) # ds" by (meson split_list)
    let ?z = "endp f ds"
    have p: "path s f ds" "ptr s ?z = ?b" using pa(2) by (auto simp: l)
    have "sorted_wrt (<) (f # map fst ds)" using sf by (auto simp: l sorted_wrt_append)
    moreover have far: "\<forall>x \<in> insert f (fst ` set ds). bp < x" using b2 by (auto simp: l)
    then have z: "bp < f" "bp < ?z" "?b < bp" using b1 endp_mem [of f ds] by (simp, blast, simp)
    ultimately have "free_walk bp f s = free_walk bp ?z s" using walk_along [OF p(1)] by blast
    also have "\<dots> = free_walk bp ?b s" using z p(2) by (subst free_walk.simps) auto
    finally show ?thesis using front [of ?b] by simp
  qed
qed

section \<open>Linking a block into the ring\<close>

text \<open>The two halves of the end of free(): towards the next block and towards the previous one.\<close>

definition join_next :: "u64 \<Rightarrow> u64 \<Rightarrow> uheap \<Rightarrow> uheap" where
  "join_next bp p s =
     (if unit_after bp (size_of s bp) = ptr s p
      then let s' = set_size bp (size_of s bp + size_of s (ptr s p)) s in set_ptr bp (ptr s' (ptr s' p)) s'
      else set_ptr bp (ptr s p) s)"

definition join_prev :: "u64 \<Rightarrow> u64 \<Rightarrow> uheap \<Rightarrow> uheap" where
  "join_prev bp p s =
     (if unit_after p (size_of s p) = bp
      then let s' = set_size p (size_of s p + size_of s bp) s in set_ptr p (ptr s' bp) s'
      else set_ptr p bp s)"

lemma link_block_eq: "link_block bp p s = (join_prev bp p (join_next bp p s))\<lparr>freep := p\<rparr>"
  by (simp add: link_block_def join_next_def join_prev_def Let_def)

lemma hdr_set [simp]:
  "hdr (set_ptr p v s) = (hdr s)(p := (hdr s p)\<lparr>s_ptr := v\<rparr>)"
  "hdr (set_size p n s) = (hdr s)(p := (hdr s p)\<lparr>s_size := n\<rparr>)"
  "u_base (set_ptr p v s) = u_base s" "u_base (set_size p n s) = u_base s"
  "brk (set_ptr p v s) = brk s" "brk (set_size p n s) = brk s"
  "freep (set_ptr p v s) = freep s" "freep (set_size p n s) = freep s"
  by (simp_all add: set_ptr_def set_size_def)

lemma join_frame [simp]:
  "u_base (join_next bp p s) = u_base s" "brk (join_next bp p s) = brk s"
  "u_base (join_prev bp p s) = u_base s" "brk (join_prev bp p s) = brk s"
  by (simp_all add: join_next_def join_prev_def Let_def)

lemma path_hdr: "hdr s' = hdr s \<Longrightarrow> path s' a bs = path s a bs"
  by (induction s a bs rule: path.induct) auto

text \<open>The blocks after \<open>bp\<close>, once the one next to it has been joined.\<close>

lemma join_next_path:
  assumes pa: "path s p (L2 @ [(b, 0)])" and sz: "size_of s bp = n" "n \<noteq> 0"
    and ne: "p \<noteq> bp" "b < bp" "\<forall>c \<in> set L2. bp < fst c"
    and fit: "ends (bp, n) \<le> RAM_SIZE" "\<forall>c \<in> set L2. ends (bp, n) \<le> unat (fst c) \<and> ends c \<le> RAM_SIZE"
    and so: "sorted_wrt before L2"
  shows "\<exists>m L3. path (join_next bp p s) bp (L3 @ [(b, 0)]) \<and> size_of (join_next bp p s) bp = m \<and>
    sorted_wrt before ((bp, m) # L3) \<and> set L3 \<subseteq> set L2 \<and>
    \<Union> (span ` set ((bp, m) # L3)) = \<Union> (span ` set ((bp, n) # L2)) \<and>
    (ends (bp, m) = ends (bp, n) \<or> (\<exists>c \<in> set L2. ends (bp, m) = ends c)) \<and> m \<noteq> 0"
proof (cases "unit_after bp n = ptr s p")
  case False
  then have e: "join_next bp p s = set_ptr bp (ptr s p) s" by (simp add: join_next_def sz)
  have "path (set_ptr bp (ptr s p) s) p (L2 @ [(b, 0)])"
    by (rule path_cong [OF pa]) (use ne in \<open>auto simp: butlast_append\<close>)
  then have "path (set_ptr bp (ptr s p) s) bp (L2 @ [(b, 0)])" using ne by (cases L2) auto
  moreover have "before (bp, n) c" if c: "c \<in> set L2" for c
  proof (cases L2)
    case (Cons d L)
    then have "ends (bp, n) \<noteq> unat (fst d)" using False pa unit_after_eq [OF fit(1)] by (cases d) auto
    then have "before (bp, n) d" using fit(2) Cons by (force simp: before_def)
    with c Cons so show ?thesis by (auto simp: before_def ends_def)
  qed (use c in simp)
  ultimately show ?thesis unfolding e using so sz by (intro exI [of _ n] exI [of _ L2]) auto
next
  case True
  have "unit_after bp n \<noteq> b"
    unfolding unit_after_eq [OF fit(1)] using ne(2) by (auto simp: ends_def word_less_nat_alt)
  with True pa obtain q m L3 where l: "L2 = (q, m) # L3" and pq: "ptr s p = q" by (cases L2) auto
  have qm: "size_of s q = m" "path s q (L3 @ [(b, 0)])" "bp < q" using pa l ne(3) by auto
  have adj: "ends (bp, n) = unat q" using True unit_after_eq [OF fit(1)] pq by simp
  have em: "ends (bp, n + m) = ends (q, m)" by (rule ends_add [OF adj]) (use fit(2) l in auto)
  let ?s = "join_next bp p s"
  have e: "?s = set_ptr bp (ptr s q) (set_size bp (n + m) s)"
    using True sz pq qm ne(1) by (auto simp: join_next_def Let_def)
  have "path ?s q (L3 @ [(b, 0)])"
    by (rule path_cong [OF qm(2)]) (use ne l qm(3) in \<open>auto simp: e butlast_append\<close>)
  then have "path ?s bp (L3 @ [(b, 0)])"
    using qm(3) by (cases L3) (auto simp: e)
  moreover have "before (bp, n + m) c" if "c \<in> set L3" for c
    using that so em l by (auto simp: before_def)
  moreover have "span (bp, n + m) = span (bp, n) \<union> span (q, m)" by (rule span_join) (use adj em in simp_all)
  moreover have "n + m \<noteq> 0"
    using em adj sz(2) by (auto simp: ends_def unat_eq_zero)
  ultimately show ?thesis
    by (intro exI [of _ "n + m"] exI [of _ L3]) (use so l em in \<open>auto simp: e\<close>)
qed

text \<open>The blocks before \<open>bp\<close>, once the one next to it has been joined.\<close>

lemma join_prev_path:
  assumes pa: "path s b L1" and sz: "size_of s b = 0" "size_of s bp = m" and p: "p = endp b L1"
    and ne: "b < bp" "\<forall>c \<in> set L1. fst c < bp" "distinct (b # map fst L1)"
    and fit: "ends (bp, m) \<le> RAM_SIZE" "\<forall>c \<in> set L1. ends c \<le> unat bp \<and> snd c \<noteq> 0"
    and so: "sorted_wrt before L1" and rest: "path s bp (L3 @ [(b, 0)])" "\<forall>c \<in> set L3. bp < fst c"
  shows "\<exists>a k L0. path (join_prev bp p s) b (L0 @ (a, k) # L3 @ [(b, 0)]) \<and> sorted_wrt before (L0 @ [(a, k)]) \<and>
    set L0 \<subseteq> set L1 \<and> \<Union> (span ` set (L0 @ [(a, k)])) = \<Union> (span ` set (L1 @ [(bp, m)])) \<and>
    ends (a, k) = ends (bp, m) \<and> (m \<noteq> 0 \<longrightarrow> k \<noteq> 0) \<and> (a = bp \<or> a \<in> fst ` set L1) \<and>
    span (bp, m) \<subseteq> span (a, k) \<and> p \<in> insert b (fst ` set (L0 @ [(a, k)]))"
proof (cases "unit_after p (size_of s p) = bp")
  case False
  then have e: "join_prev bp p s = set_ptr p bp s" by (simp add: join_prev_def)
  have p_not: "p \<notin> set (butlast (b # map fst L1))"
    using ne(3) unfolding p endp_def by (metis append_butlast_last_id distinct_butlast list.distinct(1) not_distinct_conv_prefix)
  have "p < bp" using endp_mem [of b L1] ne(1,2) by (auto simp: p)
  then have "p \<noteq> bp" "p \<notin> fst ` set L3" using rest(2) by auto
  have "path (set_ptr p bp s) b L1" by (rule path_cong [OF pa]) (use p_not in auto)
  moreover have "path (set_ptr p bp s) bp (L3 @ [(b, 0)])"
    by (rule path_cong [OF rest(1)]) (use \<open>p \<noteq> bp\<close> \<open>p \<notin> fst ` set L3\<close> in \<open>auto simp: butlast_append\<close>)
  moreover have "before c (bp, m)" if c: "c \<in> set L1" for c
  proof (cases L1 rule: rev_cases)
    case (snoc L d)
    have d: "p = fst d" "size_of s (fst d) = snd d" using pa snoc p by (cases d, auto)+
    have "ends (fst d, snd d) \<le> unat bp" using fit(2) snoc by auto
    moreover have "ends (fst d, snd d) \<noteq> unat bp"
      using False unit_after_eq [of "fst d" "snd d" bp] d fit snoc by (auto simp: ends_def)
    ultimately have "before d (bp, m)" by (auto simp: before_def)
    with c snoc so show ?thesis by (auto simp: before_def ends_def sorted_wrt_append)
  qed (use c in simp)
  ultimately show ?thesis unfolding e
    by (intro exI [of _ bp] exI [of _ m] exI [of _ L1])
      (use so sz \<open>p \<noteq> bp\<close> endp_mem [of b L1] in \<open>auto simp: p [symmetric] sorted_wrt_append\<close>)
next
  case True
  obtain L0 a k where l: "L1 = L0 @ [(a, k)]"
  proof (cases L1 rule: rev_cases)
    case Nil
    then have "unit_after b 0 = bp" using True p sz(1) by simp
    then show ?thesis using ne(1) by (simp add: unit_after_def)
  qed (metis prod.collapse)
  have pk: "p = a" "size_of s a = k" "path s b L0" "ptr s (endp b L0) = a" using pa l p by auto
  have ek: "ends (a, k) \<le> unat bp" using fit(2) l by simp
  have adj: "ends (a, k) = unat bp"
    using True unit_after_eq [of a k bp] pk ek fit(1) by (simp add: ends_def)
  have em: "ends (a, k + m) = ends (bp, m)" by (rule ends_add [OF adj fit(1)])
  let ?s = "join_prev bp p s"
  have e: "?s = set_ptr a (ptr s bp) (set_size a (k + m) s)"
    using True pk sz ne l by (auto simp: join_prev_def Let_def)
  have d: "a \<notin> fst ` set L0" "a \<noteq> b" "a < bp" using ne(2,3) l by auto
  have "path ?s b (L0 @ [(a, k + m)])"
  proof -
    have "path ?s b L0"
      by (rule path_cong [OF pk(3)]) (use d in \<open>auto simp: e dest!: in_set_butlastD split: if_splits\<close>)
    moreover have "endp b L0 \<noteq> a" using endp_mem [of b L0] d(1,2) by blast
    ultimately show ?thesis using pk(4) by (auto simp: e)
  qed
  moreover have "path ?s bp (L3 @ [(b, 0)])"
    by (rule path_cong [OF rest(1)]) (use d rest(2) in \<open>auto simp: e butlast_append\<close>)
  then have "path ?s a (L3 @ [(b, 0)])" using d by (cases L3) (auto simp: e)
  moreover have "before c (a, k + m)" if "c \<in> set L0" for c
    using that so l by (auto simp: before_def sorted_wrt_append)
  moreover have "span (a, k + m) = span (a, k) \<union> span (bp, m)" by (rule span_join) (use adj em in simp_all)
  moreover have "m \<noteq> 0 \<longrightarrow> k + m \<noteq> 0" using em adj by (auto simp: ends_def unat_eq_zero)
  ultimately show ?thesis
    by (intro exI [of _ a] exI [of _ "k + m"] exI [of _ L0])
      (use so l em pk(1) in \<open>auto simp: sorted_wrt_append\<close>)
qed

section \<open>free() keeps the invariant\<close>

lemma ring_okD:
  assumes "ring_ok s bs A G"
  shows "free_ring s bs" "sorted_wrt before bs" "sorted_wrt before ((u_base s, 0) # bs)"
    "freep s \<in> insert (u_base s) (fst ` set bs)"
    "\<And>b. b \<in> set bs \<union> A \<Longrightarrow> snd b \<noteq> 0 \<and> u_base s < fst b \<and> ends b \<le> unat (brk s)"
    "\<And>b. b \<in> A \<Longrightarrow> size_of s (fst b) = snd b" "\<And>b c. b \<in> A \<Longrightarrow> c \<in> set bs \<Longrightarrow> off_block b c"
    "\<And>b c. b \<in> A \<Longrightarrow> c \<in> A \<Longrightarrow> b \<noteq> c \<Longrightarrow> off_block b c" "\<Union> (span ` (set bs \<union> A)) = G"
    "0 < u_base s" "u_base s < brk s" "unat (brk s) \<le> RAM_SIZE" "size_of s (u_base s) = 0"
    "path s (u_base s) bs"
  using assms by (auto simp: ring_ok_def free_ring_def)

lemma off_block_iff:
  "\<lbrakk>snd b \<noteq> 0; snd c \<noteq> 0\<rbrakk> \<Longrightarrow> off_block b c \<longleftrightarrow> span b \<inter> span c = {}"
  by (auto simp: off_block_def span_def ends_def unat_gt_0)

lemma span_start: "snd c \<noteq> 0 \<Longrightarrow> unat (fst c) \<in> span c"
  by (simp add: span_def ends_def unat_gt_0)

text \<open>A block the program has given back: the new free blocks cover the old ones and the block.\<close>

lemma give_back:
  assumes ok: "ring_ok s bs A G" and bp: "(bp, n) \<in> A"
    and fr: "brk s' = brk s" "u_base s' = u_base s" "freep s' \<in> insert (u_base s) (fst ` set cs)"
    and ring: "free_ring s' cs" "sorted_wrt before ((u_base s, 0) # cs)"
    and spans: "\<Union> (span ` set cs) = \<Union> (span ` set bs) \<union> span (bp, n)"
    and blk: "\<And>c. c \<in> set cs \<Longrightarrow> snd c \<noteq> 0 \<and> u_base s < fst c \<and> ends c \<le> unat (brk s)"
    and hdr: "\<And>x. x \<notin> insert (u_base s) (insert bp (fst ` set bs)) \<Longrightarrow> hdr s' x = hdr s x"
  shows "ring_ok s' cs (A - {(bp, n)}) G"
proof -
  note k = ring_okD [OF ok]
  have n: "n \<noteq> 0" using k(5) [of "(bp, n)"] bp by simp
  have old: "snd d \<noteq> 0 \<and> u_base s < fst d \<and> ends d \<le> unat (brk s)" if "d \<in> A" for d using k(5) that by simp
  have 1: "span d \<inter> span (bp, n) = {}" if "d \<in> A - {(bp, n)}" for d
    using k(8) [of d "(bp, n)"] that bp off_block_iff [of d "(bp, n)"] old n by auto
  have 2: "span d \<inter> span c = {}" if "d \<in> A - {(bp, n)}" "c \<in> set bs" for d c
    using k(7) [of d c] that off_block_iff [of d c] old k(5) [of c] by auto
  have "size_of s' (fst d) = snd d" if d: "d \<in> A - {(bp, n)}" for d
  proof -
    have s: "unat (fst d) \<in> span d" by (rule span_start) (use old d in blast)
    have "fst d \<noteq> bp" using 1 [OF d] s span_start [of "(bp, n)"] n by auto
    moreover have "fst d \<noteq> fst c" if "c \<in> set bs" for c
      using 2 [OF d that] s span_start [of c] k(5) [of c] that by auto
    moreover have "fst d \<noteq> u_base s" using old [of d] d by auto
    ultimately have "hdr s' (fst d) = hdr s (fst d)" by (intro hdr) auto
    then show ?thesis using k(6) d by simp
  qed
  moreover have "off_block d c" if d: "d \<in> A - {(bp, n)}" and c: "c \<in> set cs" for d c
  proof -
    have "span c \<subseteq> \<Union> (span ` set bs) \<union> span (bp, n)" using spans c by blast
    then have "span d \<inter> span c = {}" using 1 [OF d] 2 [OF d] by blast
    then show ?thesis using off_block_iff [of d c] old [of d] d blk [OF c] by blast
  qed
  moreover have "\<Union> (span ` (set cs \<union> (A - {(bp, n)}))) = G"
    using spans k(9) bp by (auto simp: image_Un)
  moreover have "snd c \<noteq> 0 \<and> u_base s < fst c \<and> ends c \<le> unat (brk s)" if "c \<in> set cs \<union> (A - {(bp, n)})" for c
    using that blk old by blast
  ultimately show ?thesis
    unfolding ring_ok_def fr(1,2) using ring fr(3) k(8,10-12) by blast
qed

lemma ufree_ok:
  assumes ok: "ring_ok s bs A G" and bp: "(bp, n) \<in> A"
  shows "\<exists>s' cs. ufree (bp + 16) s = Some s' \<and> ring_ok s' cs (A - {(bp, n)}) G \<and>
    brk s' = brk s \<and> u_base s' = u_base s \<and> (\<exists>c \<in> set cs. span (bp, n) \<subseteq> span c)"
proof -
  note k = ring_okD [OF ok]
  let ?b = "u_base s"
  have kb: "n \<noteq> 0" "?b < bp" "ends (bp, n) \<le> RAM_SIZE" "size_of s bp = n" using k(5,6) [of "(bp, n)"] k(12) bp by auto
  have "\<forall>c \<in> set bs. off_block (bp, n) c \<and> snd c \<noteq> 0" using k(5,7) bp by blast
  from split_free [OF k(2) this] kb(1) obtain L1 L2 where l: "bs = L1 @ L2"
    and le: "\<forall>c \<in> set L1. ends c \<le> unat bp" "\<forall>c \<in> set L2. ends (bp, n) \<le> unat (fst c)" by auto
  define p where "p = endp ?b L1"
  have big: "snd c \<noteq> 0 \<and> ends c \<le> RAM_SIZE" if "c \<in> set bs" for c using k(5) [of c] k(12) that by auto
  have lt: "\<forall>c \<in> set L1. fst c < bp" "\<forall>c \<in> set L2. bp < fst c"
    using le big kb(1) l by (auto simp: ends_def word_less_nat_alt unat_gt_0 [symmetric] intro: less_le_trans) (fastforce simp: unat_gt_0 [symmetric])+
  have pa: "path s ?b L1" "path s p (L2 @ [(?b, 0)])" using k(1) by (auto simp: free_ring_def l p_def)
  have dist: "distinct (?b # map fst L1)" "sorted_wrt before L1" "sorted_wrt before L2"
    using sorted_fst [OF k(3)] k(2) by (auto simp: l sorted_wrt_append strict_sorted_iff)
  have pm: "p \<in> insert ?b (fst ` set L1)" unfolding p_def by (rule endp_mem)
  have "p < bp" using pm lt(1) kb(2) by auto
  have walk: "free_walk bp (freep s) s = Some p"
    unfolding p_def by (rule walk_to [of s L1 L2]) (use k l lt kb(2) in auto)
  define s1 where "s1 = join_next bp p s"
  have "p \<noteq> bp" "\<forall>c \<in> set L2. ends (bp, n) \<le> unat (fst c) \<and> ends c \<le> RAM_SIZE"
    using \<open>p < bp\<close> le(2) big l by auto
  from join_next_path [OF pa(2) kb(4,1) this(1) kb(2) lt(2) kb(3) this(2) dist(3), folded s1_def]
  obtain m L3 where n1: "path s1 bp (L3 @ [(?b, 0)])" "size_of s1 bp = m" "sorted_wrt before ((bp, m) # L3)"
      "set L3 \<subseteq> set L2" "\<Union> (span ` set ((bp, m) # L3)) = \<Union> (span ` set ((bp, n) # L2))"
      "ends (bp, m) = ends (bp, n) \<or> (\<exists>c \<in> set L2. ends (bp, m) = ends c)" "m \<noteq> 0"
    by (elim exE conjE) (rule that)
  have out1: "hdr s1 x = hdr s x" if "x \<noteq> bp" for x using that by (auto simp: s1_def join_next_def Let_def)
  have em: "ends (bp, m) \<le> unat (brk s)" using n1(6) k(5) bp l by auto
  have nb: "x \<noteq> bp" if "x \<in> insert ?b (fst ` set L1)" for x using that lt(1) kb(2) by auto
  have "path s1 ?b L1"
  proof (rule path_cong [OF pa(1)])
    fix x assume "x \<in> set (butlast (?b # map fst L1))"
    then have "x \<in> set (?b # map fst L1)" by (rule in_set_butlastD)
    then show "ptr s1 x = ptr s x" using out1 [OF nb [of x]] by simp
  qed (use out1 nb in simp)
  moreover have "size_of s1 ?b = 0" using k(13) kb(2) out1 [of ?b] by simp
  moreover have "\<forall>c \<in> set L1. ends c \<le> unat bp \<and> snd c \<noteq> 0" using le(1) big l by auto
  moreover have lt3: "\<forall>c \<in> set L3. bp < fst c" using n1(3) before_less by fastforce
  moreover have "ends (bp, m) \<le> RAM_SIZE" using em k(12) by simp
  ultimately obtain a j L0 where n2: "path (join_prev bp p s1) ?b (L0 @ (a, j) # L3 @ [(?b, 0)])"
      "sorted_wrt before (L0 @ [(a, j)])" "set L0 \<subseteq> set L1"
      "\<Union> (span ` set (L0 @ [(a, j)])) = \<Union> (span ` set (L1 @ [(bp, m)]))"
      "ends (a, j) = ends (bp, m)" "j \<noteq> 0" "a = bp \<or> a \<in> fst ` set L1" "span (bp, m) \<subseteq> span (a, j)"
      "p \<in> insert ?b (fst ` set (L0 @ [(a, j)]))"
    using join_prev_path [of s1 ?b L1 bp m p L3] n1(1,2,7) p_def kb(2) lt(1) dist(1,2) by blast
  define s' where "s' = (join_prev bp p s1)\<lparr>freep := p\<rparr>"
  define cs where "cs = L0 @ (a, j) # L3"
  have uf: "ufree (bp + 16) s = Some s'"
    by (simp add: ufree_def walk link_block_eq s'_def s1_def)
  have fr: "brk s' = brk s" "u_base s' = ?b" "freep s' = p" by (simp_all add: s'_def s1_def)
  have spans: "\<Union> (span ` set cs) = \<Union> (span ` set bs) \<union> span (bp, n)"
    using n1(5) n2(4) by (auto simp: cs_def l)
  have mem: "c \<in> set bs \<or> c = (a, j)" if "c \<in> set cs" for c using that n1(4) n2(3) by (auto simp: cs_def l)
  have "?b < a" using n2(7) kb(2) k(5) l by force
  then have blk: "snd c \<noteq> 0 \<and> ?b < fst c \<and> ends c \<le> unat (brk s)" if "c \<in> set cs" for c
    using mem [OF that] k(5) [of c] n2(5,6) em by auto
  have "sorted_wrt before ((?b, 0) # cs)"
  proof -
    have "before (a, j) c" if "c \<in> set L3" for c using n1(3) n2(5) that by (simp add: before_def)
    moreover have "before x c" if "x \<in> set L0" "c \<in> set L3" for x c
      using that n2(2) calculation [of c] by (auto simp: sorted_wrt_append before_def ends_def)
    ultimately show ?thesis using n1(3) n2(2) blk
      by (auto simp: cs_def sorted_wrt_append before_def ends_def word_less_nat_alt)
  qed
  moreover have "free_ring s' cs"
    using n2(1) fr(2) path_hdr [of s' "join_prev bp p s1"] by (simp add: free_ring_def cs_def s'_def)
  moreover have "freep s' \<in> insert (u_base s') (fst ` set cs)" using n2(9) by (auto simp: fr cs_def)
  moreover have "hdr s' x = hdr s x" if "x \<notin> insert ?b (insert bp (fst ` set bs))" for x
    using that pm out1 [of x] l by (auto simp: s'_def join_prev_def Let_def)
  ultimately have "ring_ok s' cs (A - {(bp, n)}) G"
    using give_back [OF ok bp fr(1,2) _ _ _ spans blk] fr(2) by auto
  moreover have "ends (bp, n) \<le> ends (bp, m)" using n1(6) le(2) by (force simp: ends_def)
  then have "span (bp, n) \<subseteq> span (a, j)" using n2(8) by (auto simp: span_def)
  ultimately show ?thesis using uf fr(1,2) by (intro exI [of _ s'] exI [of _ cs] conjI bexI [of _ "(a, j)"]) (simp_all add: cs_def)
qed

section \<open>malloc() keeps the invariant\<close>

text \<open>Nothing that fits before \<open>freep\<close>: the loop arrives at the first block that does, or at \<open>freep\<close>.\<close>

lemma malloc_scan:
  "\<lbrakk>path s prevp (bs @ [(p, n)]); \<forall>b \<in> set bs. snd b < nunits \<and> fst b \<noteq> freep s\<rbrakk> \<Longrightarrow>
    malloc_loop room nunits prevp (ptr s prevp) s = malloc_loop room nunits (endp prevp bs) p s"
proof (induction bs arbitrary: prevp)
  case (Cons b bs)
  obtain q m where b: "b = (q, m)" by (cases b)
  from Cons.prems b have q: "ptr s prevp = q" "size_of s q = m" "m < nunits" "q \<noteq> freep s" by auto
  have "malloc_loop room nunits prevp q s = malloc_loop room nunits q (ptr s q) s"
    using q by (subst malloc_loop.simps) auto
  also have "\<dots> = malloc_loop room nunits (endp q bs) p s"
    by (rule Cons.IH) (use Cons.prems b in auto)
  finally show ?case using q b by simp
qed simp

lemma ring_from_freep:
  assumes "ring_ok s bs A G"
  obtains cs n where "path s (freep s) (cs @ [(freep s, n)])" "set (cs @ [(freep s, n)]) = set ((u_base s, 0) # bs)"
    "distinct (map fst (cs @ [(freep s, n)]))"
proof -
  note k = ring_okD [OF assms]
  have d: "distinct (map fst ((u_base s, 0) # bs))"
    using sorted_fst [OF k(3)] by (auto simp: strict_sorted_iff)
  from k(4) obtain n where "(freep s, n) \<in> set ((u_base s, 0) # bs)" by force
  then obtain xs ys where l: "(u_base s, 0) # bs = xs @ (freep s, n) # ys" by (meson split_list)
  show thesis
  proof (rule that [of "ys @ xs" n])
    show "path s (freep s) ((ys @ xs) @ [(freep s, n)])" using ring_rotate [OF k(1) l] by simp
    show "set ((ys @ xs) @ [(freep s, n)]) = set ((u_base s, 0) # bs)" unfolding l by auto
    show "distinct (map fst ((ys @ xs) @ [(freep s, n)]))" using d unfolding l by auto
  qed
qed

text \<open>The predecessor of a block in the ring.\<close>

lemma ring_pred:
  assumes r: "free_ring s (L1 @ (p, n) # L2)" and d: "distinct (map fst ((u_base s, 0) # L1 @ (p, n) # L2))"
    and x: "x \<in> insert (u_base s) (fst ` set (L1 @ (p, n) # L2))" "ptr s x = p"
  shows "x = endp (u_base s) L1"
proof -
  let ?b = "u_base s" and ?N = "L1 @ (p, n) # L2 @ [(u_base s, 0)]"
  have pa: "path s ?b ?N" using r by (simp add: free_ring_def)
  have "butlast (?b # map fst ?N) = ?b # map fst (L1 @ (p, n) # L2)" by (simp add: butlast_append)
  then have B: "set (butlast (?b # map fst ?N)) = insert ?b (fst ` set (L1 @ (p, n) # L2))" by auto
  have "endp ?b L1 \<in> insert ?b (fst ` set (L1 @ (p, n) # L2))" using endp_mem [of ?b L1] by auto
  moreover have "ptr s (endp ?b L1) = p" using pa by simp
  moreover have "distinct (map fst ?N)" using d by auto
  ultimately show ?thesis using path_inj [OF pa, of x "endp ?b L1"] x unfolding B by simp
qed

text \<open>A block handed to the program: the free blocks lose exactly its bytes.\<close>

lemma hand_out:
  assumes ok: "ring_ok s bs A G"
    and fr: "brk s' = brk s" "u_base s' = u_base s" "freep s' \<in> insert (u_base s) (fst ` set cs)"
    and ring: "free_ring s' cs" "sorted_wrt before ((u_base s, 0) # cs)"
    and spans: "\<Union> (span ` set cs) \<union> span (q, n) = \<Union> (span ` set bs)"
    and away: "\<And>c. c \<in> set cs \<Longrightarrow> span (q, n) \<inter> span c = {}"
    and blk: "\<And>c. c \<in> insert (q, n) (set cs) \<Longrightarrow> snd c \<noteq> 0 \<and> u_base s < fst c \<and> ends c \<le> unat (brk s)"
    and sz: "size_of s' q = n"
      "\<And>x. x \<noteq> u_base s \<Longrightarrow> unat x \<notin> \<Union> (span ` set bs) \<Longrightarrow> size_of s' x = size_of s x"
  shows "ring_ok s' cs (insert (q, n) A) G \<and> (q, n) \<notin> A"
proof -
  note k = ring_okD [OF ok]
  have old: "snd d \<noteq> 0 \<and> u_base s < fst d \<and> ends d \<le> unat (brk s)" if "d \<in> A" for d using k(5) that by simp
  have out: "span d \<inter> \<Union> (span ` set bs) = {}" if "d \<in> A" for d
    using k(7) [OF that] off_block_iff [of d] old [OF that] k(5) by blast
  have szd: "size_of s' (fst d) = snd d" if d: "d \<in> A" for d
  proof -
    have "unat (fst d) \<notin> \<Union> (span ` set bs)" using out [OF d] span_start [of d] old [OF d] by blast
    then show ?thesis using sz(2) [of "fst d"] old [OF d] k(6) [OF d] by auto
  qed
  have new: "off_block d (q, n) \<and> off_block (q, n) d \<and> d \<noteq> (q, n)" if d: "d \<in> A" for d
  proof -
    have "span d \<inter> span (q, n) = {}" using out [OF d] spans by blast
    then show ?thesis
      using off_block_iff [of d "(q, n)"] off_block_iff [of "(q, n)" d] old [OF d] blk [of "(q, n)"] span_start [of d] by auto
  qed
  have "off_block d c" if "d \<in> insert (q, n) A" "c \<in> set cs" for d c
  proof -
    have "span d \<inter> span c = {}" using that out [of d] spans away [of c] by blast
    then show ?thesis using off_block_iff [of d c] that old [of d] blk by blast
  qed
  moreover have "\<Union> (span ` (set cs \<union> insert (q, n) A)) = G" using spans k(9) by auto
  moreover have "snd c \<noteq> 0 \<and> u_base s < fst c \<and> ends c \<le> unat (brk s)" if "c \<in> set cs \<union> insert (q, n) A" for c
    using that blk old by blast
  ultimately have "ring_ok s' cs (insert (q, n) A) G"
    unfolding ring_ok_def fr(1,2) using ring fr(3) k(8,10-12) szd sz(1) new by auto
  then show ?thesis using new by blast
qed

lemma endp_not_inner:
  assumes "distinct (b # map fst L)"
  shows "endp b L \<notin> set (butlast (b # map fst L))"
  using assms unfolding endp_def
  by (metis append_butlast_last_id distinct_butlast list.distinct(1) not_distinct_conv_prefix)

text \<open>What is known of a free block and its neighbours.\<close>

lemma free_block:
  assumes ok: "ring_ok s (L1 @ (p, n) # L2) A G"
  defines "prevp \<equiv> endp (u_base s) L1"
  shows "path s (u_base s) L1" "ptr s prevp = p" "size_of s p = n" "path s p (L2 @ [(u_base s, 0)])"
    "prevp \<in> insert (u_base s) (fst ` set L1)" "prevp \<notin> set (butlast (u_base s # map fst L1))"
    "prevp \<noteq> p" "prevp \<notin> fst ` set L2" "p \<notin> fst ` set L1" "p \<notin> fst ` set L2"
    "u_base s < p" "ends (p, n) \<le> unat (brk s)" "n \<noteq> 0"
    "\<And>c. c \<in> set L1 \<union> set L2 \<Longrightarrow> span (p, n) \<inter> span c = {}"
proof -
  note k = ring_okD [OF ok]
  let ?b = "u_base s"
  show "path s ?b L1" "ptr s prevp = p" "size_of s p = n" "path s p (L2 @ [(?b, 0)])"
    using k(1) by (auto simp: free_ring_def prevp_def)
  have d: "distinct (map fst ((?b, 0) # L1 @ (p, n) # L2))" using sorted_fst [OF k(3)] by (auto simp: strict_sorted_iff)
  show pm: "prevp \<in> insert ?b (fst ` set L1)" unfolding prevp_def by (rule endp_mem)
  from d have di: "?b \<notin> fst ` set L2" "fst ` set L1 \<inter> fst ` set L2 = {}"
    and pd: "p \<notin> fst ` set L2" "p \<noteq> ?b" "p \<notin> fst ` set L1" by auto
  have c: "prevp = ?b \<or> prevp \<in> fst ` set L1" by (rule insert_iff [THEN iffD1, OF pm])
  show "prevp \<noteq> p" using c pd(2,3) by metis
  show "prevp \<notin> fst ` set L2" using c di by (metis disjoint_iff)
  show "p \<notin> fst ` set L1" "p \<notin> fst ` set L2" by (rule pd)+
  show "prevp \<notin> set (butlast (?b # map fst L1))"
    unfolding prevp_def by (rule endp_not_inner) (use d in auto)
  show "?b < p" "ends (p, n) \<le> unat (brk s)" "n \<noteq> 0" using k(5) [of "(p, n)"] by auto
  show "span (p, n) \<inter> span c = {}" if "c \<in> set L1 \<union> set L2" for c
    using that k(2) by (auto simp: sorted_wrt_append before_def span_def)
qed

lemma take_exact:
  assumes ok: "ring_ok s (L1 @ (p, n) # L2) A G"
  shows "\<exists>s' cs. take_block n (endp (u_base s) L1) p s = (p + 16, s') \<and> ring_ok s' cs (insert (p, n) A) G \<and>
    (p, n) \<notin> A \<and> brk s' = brk s \<and> u_base s' = u_base s"
proof -
  note k = ring_okD [OF ok]
  note f = free_block [OF ok]
  let ?b = "u_base s" and ?q = "endp (u_base s) L1"
  define s' where "s' = (set_ptr ?q (ptr s p) s)\<lparr>freep := ?q\<rparr>"
  have "path s' ?b L1"
    by (rule path_cong [OF f(1)]) (use f(6) in \<open>auto simp: s'_def\<close>)
  moreover have "path (set_ptr ?q (ptr s p) s) p (L2 @ [(?b, 0)])"
    by (rule path_cong [OF f(4)]) (use f(7,8) in \<open>auto simp: butlast_append\<close>)
  then have "path s' p (L2 @ [(?b, 0)])" using path_hdr [of s' "set_ptr ?q (ptr s p) s"] by (simp add: s'_def)
  then have "path s' ?q (L2 @ [(?b, 0)])" using f(7) k(13) by (cases L2) (auto simp: s'_def split: if_splits)
  ultimately have "free_ring s' (L1 @ L2)" by (simp add: free_ring_def s'_def)
  then have "ring_ok s' (L1 @ L2) (insert (p, n) A) G \<and> (p, n) \<notin> A"
    by (intro hand_out [OF ok]) (use k(3,5) f(3,5,14) in \<open>auto simp: s'_def sorted_wrt_append\<close>)
  moreover have "take_block n ?q p s = (p + 16, s')" using f(3) by (simp add: take_block_def s'_def)
  ultimately show ?thesis by (intro exI) (auto simp: s'_def)
qed

lemma take_split:
  assumes ok: "ring_ok s (L1 @ (p, n) # L2) A G" and fit: "m < n" "m \<noteq> 0"
  shows "\<exists>q s' cs. take_block m (endp (u_base s) L1) p s = (q + 16, s') \<and> ring_ok s' cs (insert (q, m) A) G \<and>
    (q, m) \<notin> A \<and> brk s' = brk s \<and> u_base s' = u_base s"
proof -
  note k = ring_okD [OF ok]
  note f = free_block [OF ok]
  let ?b = "u_base s" and ?q0 = "endp (u_base s) L1"
  define q where "q = unit_after p (n - m)"
  have un: "unat (n - m) = unat n - unat m" "unat m < unat n"
    using fit(1) by (simp_all add: unat_sub less_imp_le word_less_nat_alt [symmetric])
  have e: "ends (p, n - m) = unat q" "ends (q, m) = ends (p, n)"
  proof -
    have "ends (p, n - m) \<le> RAM_SIZE" using f(12) k(12) un by (simp add: ends_def)
    then show "ends (p, n - m) = unat q" unfolding q_def by (rule unat_unit_after [symmetric])
    then show "ends (q, m) = ends (p, n)" using un by (simp add: ends_def)
  qed
  have m0: "0 < unat m" using fit(2) by (simp add: unat_gt_0)
  have qi: "p < q" "unat q \<in> span (p, n)"
    using e un m0 by (auto simp: ends_def span_def word_less_nat_alt)
  have other: "fst c \<noteq> q" if "c \<in> set L1 \<union> set L2" for c
    using f(14) [OF that] qi(2) span_start [of c] k(5) [of c] that by auto
  have qo: "q \<notin> fst ` set L1" "q \<notin> fst ` set L2" "q \<noteq> ?b" "q \<noteq> p"
    using other qi(1) f(11) by (auto simp: image_iff)
  define s' where "s' = (set_size q m (set_size p (n - m) s))\<lparr>freep := ?q0\<rparr>"
  have "path s' ?b L1"
    by (rule path_cong [OF f(1)]) (use f(9,10) qo in \<open>auto simp: s'_def\<close>)
  moreover have "path s' p (L2 @ [(?b, 0)])"
    by (rule path_cong [OF f(4)]) (use f(9-11) qo f(4) in \<open>auto simp: s'_def\<close>)
  ultimately have "free_ring s' (L1 @ (p, n - m) # L2)"
    using f(2) qo by (auto simp: free_ring_def s'_def)
  moreover have sp: "span (p, n) = span (p, n - m) \<union> span (q, m)" by (rule span_join) (use e in simp_all)
  moreover have "span (q, m) \<inter> span c = {}" if "c \<in> set (L1 @ (p, n - m) # L2)" for c
    using that f(14) [of c] sp e by (auto simp: span_def)
  moreover have "n - m \<noteq> 0" using un by (auto simp: unat_eq_zero [symmetric])
  then have "snd c \<noteq> 0 \<and> ?b < fst c \<and> ends c \<le> unat (brk s)" if "c \<in> insert (q, m) (set (L1 @ (p, n - m) # L2))" for c
    using that k(5) [of c] f(11,12) e un fit(2) less_trans [OF f(11) qi(1)] by (auto simp: ends_def)
  moreover have "sorted_wrt before ((?b, 0) # L1 @ (p, n - m) # L2)"
    using k(3) un by (auto simp: sorted_wrt_append before_def ends_def)
  moreover have "size_of s' x = size_of s x" if "unat x \<notin> \<Union> (span ` set (L1 @ (p, n) # L2))" for x
  proof -
    have "x \<noteq> p" "x \<noteq> q" using that span_start [of "(p, n)"] f(13) qi(2) by auto
    then show ?thesis by (simp add: s'_def)
  qed
  moreover have "size_of s' q = m" by (simp add: s'_def)
  moreover have "brk s' = brk s" "u_base s' = u_base s" "freep s' \<in> insert ?b (fst ` set (L1 @ (p, n - m) # L2))"
    using f(5) by (auto simp: s'_def)
  ultimately have "ring_ok s' (L1 @ (p, n - m) # L2) (insert (q, m) A) G \<and> (q, m) \<notin> A"
    by (intro hand_out [OF ok]) auto
  moreover have "take_block m ?q0 p s = (q + 16, s')"
    using less_imp_neq [OF fit(1)] f(3) by (simp add: take_block_def s'_def q_def Let_def)
  ultimately show ?thesis by (intro exI) (auto simp: s'_def)
qed

lemma take_block_ok:
  assumes ok: "ring_ok s (L1 @ (p, n) # L2) A G" and fit: "m \<le> n" "m \<noteq> 0"
  shows "\<exists>q s' cs. take_block m (endp (u_base s) L1) p s = (q + 16, s') \<and> ring_ok s' cs (insert (q, m) A) G \<and>
    (q, m) \<notin> A \<and> brk s' = brk s \<and> u_base s' = u_base s"
  using take_exact [OF ok] take_split [OF ok _ fit(2)] fit(1) by (cases "m = n") auto

lemma malloc_found:
  assumes ok: "ring_ok s bs A G" and b: "b \<in> set bs" "m \<le> snd b" and m: "m \<noteq> 0"
  shows "\<exists>q s' cs. malloc_loop room m (freep s) (ptr s (freep s)) s = Some (q + 16, s') \<and>
    ring_ok s' cs (insert (q, m) A) G \<and> (q, m) \<notin> A \<and> brk s' = brk s \<and> u_base s' = u_base s"
proof -
  note k = ring_okD [OF ok]
  let ?f = "freep s"
  obtain cs f where N: "path s ?f (cs @ [(?f, f)])" "set (cs @ [(?f, f)]) = set ((u_base s, 0) # bs)"
      "distinct (map fst (cs @ [(?f, f)]))" by (rule ring_from_freep [OF ok])
  let ?N = "cs @ [(?f, f)]"
  have "b \<in> set ?N" unfolding N(2) using b by simp
  then have "\<exists>c \<in> set ?N. m \<le> snd c" using b(2) by (rule bexI [rotated])
  then obtain M1 pk M2 where sp: "?N = M1 @ pk # M2" "m \<le> snd pk" "\<forall>c \<in> set M1. \<not> m \<le> snd c"
    by (rule split_list_first_propE)
  obtain p j where pk: "pk = (p, j)" by (cases pk)
  have "pk \<in> set ?N" unfolding sp(1) by simp
  then have "pk \<in> set ((u_base s, 0) # bs)" unfolding N(2) .
  then have pkb: "(p, j) \<in> set bs" using sp(2) m by (auto simp: pk)
  then obtain L1 L2 where l: "bs = L1 @ (p, j) # L2" by (meson split_list)
  have "?f \<notin> fst ` set M1"
  proof (cases M2 rule: rev_cases)
    case Nil
    then have "M1 = cs" using sp(1) by simp
    then show ?thesis using N(3) by auto
  next
    case (snoc M x)
    then have "cs = M1 @ pk # M" using sp(1) by simp
    then show ?thesis using N(3) by auto
  qed
  then have "fst c \<noteq> ?f" if "c \<in> set M1" for c using that unfolding image_iff by metis
  then have small: "\<forall>c \<in> set M1. snd c < m \<and> fst c \<noteq> ?f" using sp(3) by (simp add: not_le)
  have pa: "path s ?f (M1 @ [(p, j)])" using N(1) unfolding sp(1) pk by simp
  then have pj: "ptr s (endp ?f M1) = p" "size_of s p = j" by auto
  have "fst ` set M1 \<subseteq> insert (u_base s) (fst ` set bs)"
  proof -
    have "set M1 \<subseteq> set ?N" unfolding sp(1) by auto
    then show ?thesis unfolding N(2) by auto
  qed
  then have "insert ?f (fst ` set M1) \<subseteq> insert (u_base s) (fst ` set bs)" using k(4) by (simp only: insert_subset)
  then have "endp ?f M1 \<in> insert (u_base s) (fst ` set bs)" by (rule subsetD) (rule endp_mem)
  moreover have "distinct (map fst ((u_base s, 0) # bs))" using sorted_fst [OF k(3)] by (auto simp: strict_sorted_iff)
  ultimately have pred: "endp ?f M1 = endp (u_base s) L1"
    using ring_pred [OF k(1) [unfolded l] _ _ pj(1)] unfolding l by simp
  have "malloc_loop room m ?f (ptr s ?f) s = malloc_loop room m (endp ?f M1) p s"
    by (rule malloc_scan [OF pa small])
  also have "\<dots> = Some (take_block m (endp (u_base s) L1) p s)"
    using sp(2) pj(2) pk pred by (subst malloc_loop.simps) simp
  finally have e: "malloc_loop room m ?f (ptr s ?f) s = Some (take_block m (endp (u_base s) L1) p s)" .
  have "m \<le> j" using sp(2) pk by simp
  from take_block_ok [OF ok [unfolded l] this m] show ?thesis unfolding e by auto
qed

lemma malloc_none:
  assumes ok: "ring_ok s bs A G" and b: "\<forall>b \<in> set bs. snd b < m" and m: "m \<noteq> 0"
  shows "malloc_loop room m (freep s) (ptr s (freep s)) s =
    Option.bind (morecore room m s) (\<lambda>(p, s). if p = 0 then Some (0, s) else malloc_loop room m p (ptr s p) s)"
proof -
  let ?f = "freep s"
  obtain cs f where N: "path s ?f (cs @ [(?f, f)])" "set (cs @ [(?f, f)]) = set ((u_base s, 0) # bs)"
      "distinct (map fst (cs @ [(?f, f)]))" by (rule ring_from_freep [OF ok])
  have small: "snd c < m" if "c \<in> set (cs @ [(?f, f)])" for c
    using that m b unfolding N(2) by (auto simp: word_gt_0)
  have "malloc_loop room m ?f (ptr s ?f) s = malloc_loop room m (endp ?f cs) ?f s"
  proof (rule malloc_scan [OF N(1)], intro ballI conjI)
    fix c assume "c \<in> set cs"
    then show "snd c < m" "fst c \<noteq> ?f" using small [of c] N(3) by (simp, auto simp: image_iff)
  qed
  moreover have "\<not> m \<le> size_of s ?f" using small [of "(?f, f)"] N(1) by (simp add: not_le)
  then have "malloc_loop room m (endp ?f cs) ?f s =
      Option.bind (morecore room m s) (\<lambda>(p, s). if p = 0 then Some (0, s) else malloc_loop room m p (ptr s p) s)"
    by (subst malloc_loop.simps) simp
  ultimately show ?thesis by (rule trans)
qed

section \<open>More memory\<close>

lemma grow_ok:
  assumes ok: "ring_ok s bs A G" and n: "n \<noteq> 0" and fit: "unat (brk s) + 16 * unat n \<le> RAM_SIZE"
  shows "ring_ok (set_size (brk s) n (s\<lparr>brk := unit_after (brk s) n\<rparr>)) bs (insert (brk s, n) A) (G \<union> span (brk s, n))"
    and "(brk s, n) \<notin> A"
proof -
  note k = ring_okD [OF ok]
  let ?h = "brk s" and ?s = "set_size (brk s) n (s\<lparr>brk := unit_after (brk s) n\<rparr>)"
  have e: "ends (?h, n) \<le> RAM_SIZE" using fit by (simp add: ends_def)
  have u: "unat (unit_after ?h n) = ends (?h, n)" by (rule unat_unit_after [OF e])
  have up: "unat ?h < ends (?h, n)" using n by (simp add: ends_def unat_gt_0)
  have below: "fst b \<noteq> ?h \<and> off_block (?h, n) b \<and> off_block b (?h, n)" if "b \<in> set bs \<union> A" for b
    using k(5) [OF that] by (auto simp: off_block_def ends_def unat_gt_0 [symmetric])
  have "path ?s (u_base s) (bs @ [(u_base s, 0)])"
  proof (rule path_cong)
    show "path s (u_base s) (bs @ [(u_base s, 0)])" using k(1) by (simp add: free_ring_def)
    show "size_of ?s x = size_of s x" if "x \<in> fst ` set (bs @ [(u_base s, 0)])" for x
    proof -
      from that consider "x = u_base s" | b where "b \<in> set bs" "x = fst b" by auto
      then have "x \<noteq> ?h" using below k(11) by cases auto
      then show ?thesis by simp
    qed
  qed simp
  then have "free_ring ?s bs" by (simp add: free_ring_def)
  moreover have "u_base s < unit_after ?h n" using k(11) u up by (simp add: word_less_nat_alt)
  moreover have "snd b \<noteq> 0 \<and> u_base s < fst b \<and> ends b \<le> unat (unit_after ?h n)" if "b \<in> set bs \<union> insert (?h, n) A" for b
    using that k(5) [of b] k(11) n u up by auto
  moreover have "size_of ?s (fst b) = snd b" if "b \<in> insert (?h, n) A" for b
    using that below [of b] k(6) [of b] by auto
  moreover have "\<Union> (span ` (set bs \<union> insert (?h, n) A)) = G \<union> span (?h, n)" using k(9) by auto
  ultimately show "ring_ok ?s bs (insert (?h, n) A) (G \<union> span (?h, n))"
    unfolding ring_ok_def using k(3,4,7,8,10) below u e by auto
  show "(?h, n) \<notin> A" using below [of "(?h, n)"] by auto
qed

lemma sint_small:
  fixes w :: u32
  assumes "unat w = k" and "k < 2 ^ 31"
  shows "sint w = int k"
proof -
  have "uint w = int k" using assms(1) by (metis uint_nat)
  then show ?thesis unfolding sint_uint using assms(2)
    by (simp only: len_of_numeral_defs) (rule signed_take_bit_int_eq_self, simp_all)
qed

text \<open>A request below 2 GB is passed on to sbrk() unchanged.\<close>

lemma sbrk_small:
  assumes "16 * unat nu < 2 ^ 31" and "nu \<noteq> 0" and "unat (brk s) \<le> RAM_SIZE"
  shows "sbrk room (ucast (ucast nu * 16 :: u64)) s =
    (let new = unit_after (brk s) nu in if room new then (brk s, s\<lparr>brk := new\<rparr>) else (- 1, s))"
proof -
  let ?n = "ucast (ucast nu * 16 :: u64) :: u32"
  have nu: "unat (ucast nu :: u64) = unat nu"
    using unsigned_less [of nu, where 'a = nat] by (simp add: unsigned_ucast_eq take_bit_nat_eq_self)
  have "unat (ucast nu * 16 :: u64) = 16 * unat nu"
    using assms(1) nu by (subst unat_mult_lem [THEN iffD1]) simp_all
  then have un: "unat ?n = 16 * unat nu"
    using assms(1) by (simp add: unsigned_ucast_eq take_bit_nat_eq_self)
  have sn: "sint ?n = int (16 * unat nu)" by (rule sint_small [OF un assms(1)])
  have "0 < 16 * unat nu" using assms(2) by (simp add: unat_gt_0)
  then have pos: "0 < sint ?n" by (simp only: sn of_nat_0_less_iff)
  have "(scast ?n :: u64) = of_int (sint ?n)" by (simp only: scast_eq)
  also have "\<dots> = of_nat (16 * unat nu)" unfolding sn by (rule of_int_of_nat_eq)
  also have "\<dots> = 16 * ucast nu" by (simp only: of_nat_mult of_nat_unat of_nat_numeral)
  finally have sc: "(scast ?n :: u64) = 16 * ucast nu" .
  show ?thesis by (simp only: sbrk_def unit_after_def Let_def sc pos if_True)
qed

lemma morecore_ok:
  assumes ok: "ring_ok s bs A G" and m: "16 * unat m < 2 ^ 31" "m \<noteq> 0"
    and room: "\<And>x. room x \<Longrightarrow> unat x \<le> RAM_SIZE"
  shows "morecore room m s = Some (0, s) \<or>
    (\<exists>n s' cs. morecore room m s = Some (freep s', s') \<and> freep s' \<noteq> 0 \<and> m \<le> n \<and>
       ring_ok s' cs A (G \<union> span (brk s, n)) \<and> (\<exists>c \<in> set cs. m \<le> snd c) \<and>
       u_base s' = u_base s \<and> brk s' = unit_after (brk s) n)"
proof -
  note k = ring_okD [OF ok]
  define n where "n = (if m < 4096 then 4096 else m)"
  have n: "16 * unat n < 2 ^ 31" "n \<noteq> 0" "m \<le> n" using m by (auto simp: n_def not_less)
  note sb = sbrk_small [OF n(1,2) k(12), of room]
  let ?h = "brk s" and ?new = "unit_after (brk s) n"
  show ?thesis
  proof (cases "room ?new")
    case False
    then show ?thesis using sb by (simp add: morecore_def n_def [symmetric] Let_def)
  next
    case True
    let ?s = "set_size ?h n (s\<lparr>brk := ?new\<rparr>)"
    have un: "unat (16 * ucast n :: u64) = 16 * unat n"
    proof -
      have "unat (ucast n :: u64) = unat n"
        using unsigned_less [of n, where 'a = nat] by (simp add: unsigned_ucast_eq take_bit_nat_eq_self)
      then show ?thesis using n(1) by (subst unat_mult_lem [THEN iffD1]) simp_all
    qed
    have "unat ?new = ends (?h, n)"
      using k(12) n(1) un by (simp add: unit_after_def ends_def unat_plus_simple [THEN iffD1] no_olen_add_nat)
    then have fit: "unat ?h + 16 * unat n \<le> RAM_SIZE" using room [OF True] by (simp add: ends_def)
    note g = grow_ok [OF ok n(2) fit]
    have "A = insert (?h, n) A - {(?h, n)}" using g(2) by simp
    with ufree_ok [OF g(1), of ?h n] obtain s' cs c where u: "ufree (?h + 16) ?s = Some s'"
        "ring_ok s' cs A (G \<union> span (?h, n))" "brk s' = ?new" "u_base s' = u_base s"
        "c \<in> set cs" "span (?h, n) \<subseteq> span c" by auto
    have "n \<le> snd c"
    proof -
      have "card (span (?h, n)) \<le> card (span c)" by (rule card_mono [OF _ u(6)]) (simp add: span_def)
      then show ?thesis by (simp add: span_def ends_def word_le_nat_alt)
    qed
    moreover have "freep s' \<noteq> 0"
      using ring_okD(4,5,10) [OF u(2)] by fastforce
    moreover have "?h \<noteq> - 1"
    proof
      assume "?h = - 1"
      then show False using k(12) by (simp add: unsigned_minus_1_eq_mask mask_eq_exp_minus_1)
    qed
    moreover have "morecore room m s = Some (freep s', s')"
      using sb True u(1) \<open>?h \<noteq> - 1\<close> by (simp add: morecore_def n_def [symmetric] Let_def)
    moreover have "m \<le> snd c" using n(3) \<open>n \<le> snd c\<close> by (rule order_trans)
    ultimately show ?thesis using u n(3) by (intro disjI2 exI [of _ n] exI [of _ s'] exI [of _ cs]) auto
  qed
qed

section \<open>malloc() and free() together\<close>

text \<open>
  The heap of a program: untouched, or with a ring of free blocks. \<open>A\<close> are the blocks the
  program holds, with their headers, and \<open>G\<close> the bytes sbrk() has granted.
\<close>

definition heap_ok :: "uheap \<Rightarrow> block set \<Rightarrow> nat set \<Rightarrow> bool" where
  "heap_ok s A G \<longleftrightarrow>
     (if freep s = 0
      then A = {} \<and> G = {} \<and> 0 < u_base s \<and> u_base s < brk s \<and> unat (brk s) \<le> RAM_SIZE
      else \<exists>bs. ring_ok s bs A G)"

lemma ring_heap: "ring_ok s bs A G \<Longrightarrow> heap_ok s A G"
  using ring_okD(4,5,10) [of s bs A G] by (fastforce simp: heap_ok_def)

lemma unat_units:
  shows "unat (units nbytes) = (unat nbytes + 15) div 16 + 1"
proof -
  have n: "unat nbytes < 2 ^ 32" using unsigned_less [of nbytes, where 'a = nat] by simp
  have u: "unat (ucast nbytes :: u64) = unat nbytes"
    using n by (simp add: unsigned_ucast_eq take_bit_nat_eq_self)
  have a: "unat (ucast nbytes + 15 :: u64) = unat nbytes + 15"
    using n u by (simp add: unat_plus_simple [THEN iffD1] no_olen_add_nat)
  have d: "unat ((ucast nbytes + 15 :: u64) div 16) = (unat nbytes + 15) div 16" by (simp add: unat_div a)
  have "unat ((ucast nbytes + 15 :: u64) div 16 + 1) = (unat nbytes + 15) div 16 + 1"
    using n d by (subst unat_plus_simple [THEN iffD1]) (auto simp: no_olen_add_nat)
  moreover have "(unat nbytes + 15) div 16 < 2 ^ 31"
    by (rule less_mult_imp_div_less) (use n in simp)
  moreover have "unat (ucast w :: u32) = unat w" if "unat w < 2 ^ 32" for w :: u64
    using that by (simp add: unsigned_ucast_eq take_bit_nat_eq_self)
  moreover have "units nbytes = ucast ((ucast nbytes + 15 :: u64) div 16 + 1)"
    by (simp add: units_def add.commute)
  ultimately show ?thesis by (simp del: One_nat_def)
qed

lemma first_call:
  assumes "heap_ok s {} {}" and "freep s = 0"
  shows "ring_ok (set_size (u_base s) 0 ((set_ptr (u_base s) (u_base s) s)\<lparr>freep := u_base s\<rparr>)) [] {} {}"
  using assms by (simp add: heap_ok_def ring_ok_def free_ring_def)

lemma malloc_ring:
  assumes ok: "ring_ok s bs A G" and m: "m \<noteq> 0" "16 * unat m < 2 ^ 31"
    and room: "\<And>x. room x \<Longrightarrow> unat x \<le> RAM_SIZE"
  shows "\<exists>p s' G'. malloc_loop room m (freep s) (ptr s (freep s)) s = Some (p, s') \<and> G \<subseteq> G' \<and> u_base s' = u_base s \<and>
    (if p = 0 then heap_ok s' A G' else heap_ok s' (insert (p - 16, m) A) G' \<and> (p - 16, m) \<notin> A)"
proof -
  have found: ?thesis
    if "ring_ok t cs A G'" "c \<in> set cs" "m \<le> snd c" "G \<subseteq> G'" "u_base t = u_base s"
      "malloc_loop room m (freep s) (ptr s (freep s)) s = malloc_loop room m (freep t) (ptr t (freep t)) t"
    for t cs c G'
  proof -
    from malloc_found [OF that(1-3) m(1), of room] obtain q t' ds where f:
        "malloc_loop room m (freep t) (ptr t (freep t)) t = Some (q + 16, t')"
        "ring_ok t' ds (insert (q, m) A) G'" "(q, m) \<notin> A" "u_base t' = u_base t" by auto
    have "q + 16 \<noteq> 0"
    proof
      assume "q + 16 = 0"
      then have "q = - 16" by (simp add: eq_neg_iff_add_eq_0)
      moreover have "ends (q, m) \<le> RAM_SIZE" using ring_okD(5,12) [OF f(2)] by force
      ultimately show False by (simp add: ends_def)
    qed
    then show ?thesis using f that ring_heap [OF f(2)] by auto
  qed
  show ?thesis
  proof (cases "\<exists>b \<in> set bs. m \<le> snd b")
    case True
    then show ?thesis using found [OF ok] by blast
  next
    case False
    then have "\<forall>b \<in> set bs. snd b < m" by (auto simp: not_le)
    note e = malloc_none [OF ok this m(1), of room]
    from morecore_ok [OF ok m(2,1) room] consider "morecore room m s = Some (0, s)"
      | n t cs c where "morecore room m s = Some (freep t, t)" "freep t \<noteq> 0" "ring_ok t cs A (G \<union> span (brk s, n))"
        "c \<in> set cs" "m \<le> snd c" "u_base t = u_base s" by blast
    then show ?thesis
    proof cases
      case 1
      then show ?thesis using e ring_heap [OF ok] by auto
    next
      case 2
      show ?thesis by (rule found [OF 2(3,4,5) _ 2(6)]) (use 2(1,2) e in auto)
    qed
  qed
qed

lemma malloc_ok:
  assumes ok: "heap_ok s A G" and n: "unat nbytes < 2 ^ 31 - 64"
    and room: "\<And>x. room x \<Longrightarrow> unat x \<le> RAM_SIZE"
  shows "\<exists>p s' G'. malloc room nbytes s = Some (p, s') \<and> G \<subseteq> G' \<and>
    (if p = 0 then heap_ok s' A G' else heap_ok s' (insert (p - 16, units nbytes) A) G' \<and> (p - 16, units nbytes) \<notin> A)"
proof -
  have u: "units nbytes \<noteq> 0" by (simp add: unat_gt_0 [symmetric] unat_units del: One_nat_def)
  have d: "(unat nbytes + 15) div 16 * 16 \<le> unat nbytes + 15" by (rule div_times_less_eq_dividend)
  have b: "16 * unat (units nbytes) < 2 ^ 31" using n d by (simp add: unat_units)
  have M: "\<exists>p t' G'. malloc_loop room (units nbytes) (freep t) (ptr t (freep t)) t = Some (p, t') \<and> G \<subseteq> G' \<and>
      (if p = 0 then heap_ok t' A G' else heap_ok t' (insert (p - 16, units nbytes) A) G' \<and> (p - 16, units nbytes) \<notin> A)"
    if "ring_ok t bs A G" for t bs A G
    using malloc_ring [where room = room, OF that u b room] by metis
  show ?thesis
  proof (cases "freep s = 0")
    case True
    let ?t = "set_size (u_base s) 0 ((set_ptr (u_base s) (u_base s) s)\<lparr>freep := u_base s\<rparr>)"
    from True ok have A: "A = {}" "G = {}" "heap_ok s {} {}" by (auto simp: heap_ok_def)
    have "malloc room nbytes s = malloc_loop room (units nbytes) (freep ?t) (ptr ?t (freep ?t)) ?t"
      by (simp only: malloc_def Let_def if_P [OF True])
    with M [OF first_call [OF A(3) True]] show ?thesis unfolding A by simp
  next
    case False
    then obtain bs where r: "ring_ok s bs A G" using ok by (auto simp: heap_ok_def)
    have "malloc room nbytes s = malloc_loop room (units nbytes) (freep s) (ptr s (freep s)) s"
      by (simp only: malloc_def Let_def if_not_P [OF False])
    with M [OF r] show ?thesis by simp
  qed
qed

lemma free_ok:
  assumes ok: "heap_ok s A G" and b: "(p - 16, n) \<in> A"
  shows "\<exists>s'. ufree p s = Some s' \<and> heap_ok s' (A - {(p - 16, n)}) G"
proof -
  have "freep s \<noteq> 0" using ok b by (auto simp: heap_ok_def)
  then obtain bs where "ring_ok s bs A G" using ok by (auto simp: heap_ok_def)
  from ufree_ok [OF this b] show ?thesis using ring_heap by auto
qed

lemma heap_okD:
  assumes "heap_ok s A G"
  shows "\<And>b c. b \<in> A \<Longrightarrow> c \<in> A \<Longrightarrow> b \<noteq> c \<Longrightarrow> span b \<inter> span c = {}"
    "\<And>b. b \<in> A \<Longrightarrow> u_base s < fst b \<and> ends b \<le> unat (brk s) \<and> size_of s (fst b) = snd b"
    "\<Union> (span ` A) \<subseteq> G" "unat (brk s) \<le> RAM_SIZE"
proof -
  show "unat (brk s) \<le> RAM_SIZE" using assms ring_okD(12) by (auto simp: heap_ok_def split: if_splits)
  consider "A = {}" | bs where "ring_ok s bs A G" using assms by (auto simp: heap_ok_def split: if_splits)
  then have "(\<forall>b \<in> A. \<forall>c \<in> A. b \<noteq> c \<longrightarrow> span b \<inter> span c = {}) \<and>
    (\<forall>b \<in> A. u_base s < fst b \<and> ends b \<le> unat (brk s) \<and> size_of s (fst b) = snd b) \<and> \<Union> (span ` A) \<subseteq> G"
  proof cases
    case 2
    note k = ring_okD [OF 2]
    have "span b \<inter> span c = {}" if "b \<in> A" "c \<in> A" "b \<noteq> c" for b c
      using k(8) [OF that] off_block_iff [of b c] k(5) that by blast
    then show ?thesis using k(5,6,9) by auto
  qed simp
  then show "\<And>b c. b \<in> A \<Longrightarrow> c \<in> A \<Longrightarrow> b \<noteq> c \<Longrightarrow> span b \<inter> span c = {}"
    "\<And>b. b \<in> A \<Longrightarrow> u_base s < fst b \<and> ends b \<le> unat (brk s) \<and> size_of s (fst b) = snd b"
    "\<Union> (span ` A) \<subseteq> G" by blast+
qed

text \<open>
  The runs of a program that frees only what it holds and asks for less than 2 GB: \<open>heap_run room s A\<close>
  says that it can have come to the heap \<open>s\<close> holding the blocks \<open>A\<close>.
\<close>

abbreviation MAX_REQUEST :: nat where "MAX_REQUEST \<equiv> 2 ^ 31 - 64"

inductive heap_run :: "(u64 \<Rightarrow> bool) \<Rightarrow> uheap \<Rightarrow> block set \<Rightarrow> bool" for room where
  start: "\<lbrakk>freep s = 0; 0 < u_base s; u_base s < brk s; unat (brk s) \<le> RAM_SIZE\<rbrakk> \<Longrightarrow> heap_run room s {}"
| get: "\<lbrakk>heap_run room s A; malloc room nbytes s = Some (p, s'); unat nbytes < MAX_REQUEST; p \<noteq> 0\<rbrakk> \<Longrightarrow>
    heap_run room s' (insert (p - 16, units nbytes) A)"
| no_memory: "\<lbrakk>heap_run room s A; malloc room nbytes s = Some (0, s'); unat nbytes < MAX_REQUEST\<rbrakk> \<Longrightarrow>
    heap_run room s' A"
| give: "\<lbrakk>heap_run room s A; (p - 16, n) \<in> A; ufree p s = Some s'\<rbrakk> \<Longrightarrow> heap_run room s' (A - {(p - 16, n)})"

lemma heap_run_ok:
  assumes "heap_run room s A" and room: "\<And>x. room x \<Longrightarrow> unat x \<le> RAM_SIZE"
  shows "\<exists>G. heap_ok s A G"
  using assms(1)
proof induction
  case (start s)
  then show ?case by (auto simp: heap_ok_def)
next
  case (get s A nbytes p s')
  then obtain G where "heap_ok s A G" by blast
  from malloc_ok [where room = room, OF this get.hyps(3) room] get.hyps(2,4) show ?case by auto
next
  case (no_memory s A nbytes s')
  then obtain G where "heap_ok s A G" by blast
  from malloc_ok [where room = room, OF this no_memory.hyps(3) room] no_memory.hyps(2) show ?case by auto
next
  case (give s A p n s')
  then obtain G where "heap_ok s A G" by blast
  from free_ok [OF this give.hyps(2)] give.hyps(3) show ?case by auto
qed

lemma unat_add16: "unat q \<le> RAM_SIZE \<Longrightarrow> unat (q + 16 :: u64) = unat q + 16"
  by (subst unat_plus_simple [THEN iffD1]) (simp_all add: no_olen_add_nat)

section \<open>Properties\<close>

text \<open>
  C26. The heap of a program stays well formed: after any sequence of malloc() calls for
  less than 2^31 - 64 bytes each and of free() calls of blocks the program holds, on a machine with
  128 MB of memory, no two blocks it holds overlap, headers
  included, each lies between the static data and the end of the process, and its header still
  holds its size.
\<close>

theorem heap_well_formed:
  assumes "heap_run room s A" and "\<And>x. room x \<Longrightarrow> unat x \<le> RAM_SIZE"
  shows "(\<forall>b \<in> A. \<forall>c \<in> A. b \<noteq> c \<longrightarrow> span b \<inter> span c = {}) \<and>
    (\<forall>b \<in> A. u_base s < fst b \<and> ends b \<le> unat (brk s) \<and> size_of s (fst b) = snd b)"
proof -
  from heap_run_ok [OF assms] obtain G where "heap_ok s A G" by blast
  from heap_okD(1,2) [OF this] show ?thesis by blast
qed

text \<open>
  C27. A call of malloc() for less than 2^31 - 64 bytes, on a machine with 128 MB of memory,
  returns, after at most one call of sbrk(), and gives back null or a block that was not
  in use: \<open>nbytes\<close> bytes from the pointer on fit between the header and the end of the block, the
  block is within the memory sbrk() has granted, and no byte of what is granted is lost: it
  belongs to the program's blocks or to the free ones.
\<close>

theorem malloc_gives_block:
  assumes "heap_ok s A G" and "unat nbytes < MAX_REQUEST" and "\<And>x. room x \<Longrightarrow> unat x \<le> RAM_SIZE"
  shows "\<exists>p s' G'. malloc room nbytes s = Some (p, s') \<and> G \<subseteq> G' \<and>
    (if p = 0 then heap_ok s' A G'
     else heap_ok s' (insert (p - 16, units nbytes) A) G' \<and> (p - 16, units nbytes) \<notin> A \<and>
       unat p + unat nbytes \<le> ends (p - 16, units nbytes) \<and> span (p - 16, units nbytes) \<subseteq> G')"
proof -
  from malloc_ok [where room = room, OF assms] obtain p s' G' where m: "malloc room nbytes s = Some (p, s')" "G \<subseteq> G'"
      "if p = 0 then heap_ok s' A G' else heap_ok s' (insert (p - 16, units nbytes) A) G' \<and> (p - 16, units nbytes) \<notin> A"
    by blast
  have "unat p + unat nbytes \<le> ends (p - 16, units nbytes) \<and> span (p - 16, units nbytes) \<subseteq> G'" if "p \<noteq> 0"
  proof -
    have h: "heap_ok s' (insert (p - 16, units nbytes) A) G'" using m(3) that by simp
    have "ends (p - 16, units nbytes) \<le> RAM_SIZE" using heap_okD(2,4) [OF h] by force
    then have "unat (p - 16) \<le> RAM_SIZE" by (simp add: ends_def)
    then have "unat (p - 16 + 16) = unat (p - 16) + 16" by (rule unat_add16)
    moreover have "unat nbytes \<le> 16 * ((unat nbytes + 15) div 16)" by linarith
    ultimately have "unat p + unat nbytes \<le> ends (p - 16, units nbytes)" by (simp add: ends_def unat_units)
    then show ?thesis using heap_okD(3) [OF h] by auto
  qed
  then show ?thesis using m by (intro exI [of _ p] exI [of _ s'] exI [of _ G']) auto
qed

text \<open>
  C28. free() returns, and the block joins the free memory: the program holds the others as before, and
  the ring has the block's bytes, merged with the neighbours it touches.
\<close>

theorem free_gives_back:
  assumes "ring_ok s bs A G" and "(p - 16, n) \<in> A"
  shows "\<exists>s' cs. ufree p s = Some s' \<and> ring_ok s' cs (A - {(p - 16, n)}) G \<and>
    (\<exists>c \<in> set cs. span (p - 16, n) \<subseteq> span c)"
  using ufree_ok [OF assms] by auto

section \<open>Requests above 2 GB\<close>

text \<open>
  C39. malloc() trusts the int it passes to sbrk(): the largest request is 0x10000001 units, whose
  bytes as an int are 16. sbrk() grants 16 bytes, the header says 4 GB, and malloc() returns a
  pointer to the end of the process.
\<close>

theorem malloc_overflows:
  assumes "freep s = 0" "0 < u_base s" "u_base s < brk s" "unat (brk s) \<le> RAM_SIZE" "room (brk s + 16)"
  shows "\<exists>s'. malloc room 0xFFFFFFFF s = Some (brk s + 16, s') \<and> brk s' = brk s + 16"
proof -
  have u: "units 0xFFFFFFFF = 0x10000001" by (simp add: units_def)
  let ?b = "u_base s" and ?h = "brk s"
  define t where "t = set_size ?b 0 ((set_ptr ?b ?b s)\<lparr>freep := ?b\<rparr>)"
  have ne: "?b \<noteq> ?h" "?b \<noteq> 0" "?h \<noteq> 0" using assms(2,3) by auto
  have m1: "?h \<noteq> - 1"
  proof
    assume "?h = - 1"
    then show False using assms(4) by (simp add: unsigned_minus_1_eq_mask mask_eq_exp_minus_1)
  qed
  have far: "?h + 0x100000010 \<noteq> ?b"
  proof
    assume e: "?h + 0x100000010 = ?b"
    have "unat (?h + 0x100000010) = unat ?h + 0x100000010"
      using assms(4) by (subst unat_plus_simple [THEN iffD1]) (simp_all add: no_olen_add_nat)
    then show False using e assms(3) by (simp add: word_less_nat_alt)
  qed
  define t1 where "t1 = set_size ?h 0x10000001 (t\<lparr>brk := ?h + 16\<rparr>)"
  define t2 where "t2 = (set_ptr ?b ?h (set_ptr ?h ?b t1))\<lparr>freep := ?b\<rparr>"
  have t: "freep t = ?b" "ptr t ?b = ?b" "size_of t ?b = 0" "brk t = ?h" "u_base t = ?b" by (simp_all add: t_def)
  have t1: "freep t1 = ?b" "ptr t1 ?b = ?b" "size_of t1 ?b = 0" "size_of t1 ?h = 0x10000001"
    using ne t by (simp_all add: t1_def)
  have "free_walk ?h ?b t1 = Some ?b" using t1 assms(3) by (subst free_walk.simps) simp
  moreover have "link_block ?h ?b t1 = t2"
    using t1 ne far by (simp add: link_block_def unit_after_def t2_def Let_def)
  ultimately have "ufree (?h + 16) t1 = Some t2" by (simp add: ufree_def t1(1))
  moreover have "sbrk room (ucast (ucast (0x10000001 :: u32) * 16 :: u64)) t = (?h, t\<lparr>brk := ?h + 16\<rparr>)"
    using assms(5) t(4) by (simp add: sbrk_def)
  ultimately have more: "morecore room 0x10000001 t = Some (?b, t2)"
    using m1 by (simp add: morecore_def t1_def [symmetric] Let_def) (simp add: t2_def)
  have t2: "ptr t2 ?b = ?h" "size_of t2 ?h = 0x10000001" "brk t2 = ?h + 16"
    using t1 ne by (simp_all add: t2_def) (simp add: t1_def)
  have "malloc_loop room 0x10000001 ?b ?b t = malloc_loop room 0x10000001 ?b ?h t2"
    using t more ne t2 by (subst malloc_loop.simps) simp
  also have "\<dots> = Some (take_block 0x10000001 ?b ?h t2)" using t2 by (subst malloc_loop.simps) simp
  finally have "malloc_loop room 0x10000001 ?b ?b t = Some (?h + 16, (set_ptr ?b (ptr t2 ?h) t2)\<lparr>freep := ?b\<rparr>)"
    using t2 by (simp add: take_block_def)
  moreover have "malloc room 0xFFFFFFFF s = malloc_loop room 0x10000001 ?b ?b t"
    unfolding malloc_def u Let_def if_P [OF assms(1)] t_def [symmetric] t(1,2) ..
  ultimately show ?thesis using t2(3) by simp
qed

section \<open>Examples\<close>

definition demo_heap :: uheap where
  "demo_heap = \<lparr>u_base = 0x1000, hdr = (\<lambda>_. \<lparr>s_ptr = 0, s_size = 0\<rparr>), freep = 0, brk = 0x4000\<rparr>"

definition demo_room :: "u64 \<Rightarrow> bool" where
  "demo_room x \<longleftrightarrow> x \<le> 0x8000000"

text \<open>A heap with one block in use and nothing free.\<close>

definition demo_used :: uheap where
  "demo_used = \<lparr>u_base = 0x1000, hdr = (\<lambda>a. if a = 0x1000 then \<lparr>s_ptr = 0x1000, s_size = 0\<rparr> else \<lparr>s_ptr = 0, s_size = 2\<rparr>),
     freep = 0x1000, brk = 0x4000\<rparr>"

lemma demo_room_bound: "demo_room x \<Longrightarrow> unat x \<le> RAM_SIZE"
  by (simp add: demo_room_def word_le_nat_alt)

lemma demo_malloc:
  "map_option (\<lambda>(p, s). (p, brk s)) (malloc demo_room 100 demo_heap) = Some (0x13F90, 0x14000)"
proof -
  have u: "units 100 = 8" by (simp add: units_def)
  show ?thesis
    by (simp add: malloc_def u demo_heap_def demo_room_def malloc_loop.simps morecore_def ufree_def free_walk.simps
      sbrk_def link_block_def take_block_def unit_after_def Let_def set_ptr_def set_size_def)
qed

lemma demo_run: "\<exists>s. heap_run demo_room s {(0x13F80, units 100)} \<and> brk s = 0x14000"
proof -
  obtain s where s: "malloc demo_room 100 demo_heap = Some (0x13F90, s)" "brk s = 0x14000"
    using demo_malloc by (cases "malloc demo_room 100 demo_heap") auto
  have "heap_run demo_room demo_heap {}" by (rule heap_run.start) (simp_all add: demo_heap_def)
  from heap_run.get [OF this s(1)] s(2) show ?thesis by auto
qed

theorem heap_well_formed_witness:
  "\<exists>s. heap_run demo_room s {(0x13F80, units 100)} \<and> brk s = 0x14000 \<and> size_of s 0x13F80 = units 100"
proof -
  obtain s where "heap_run demo_room s {(0x13F80, units 100)}" "brk s = 0x14000" using demo_run by blast
  with heap_well_formed [OF this(1) demo_room_bound] show ?thesis by auto
qed

theorem malloc_gives_block_witness:
  "\<exists>p s' G'. malloc demo_room 100 demo_heap = Some (p, s') \<and>
    (if p = 0 then heap_ok s' {} G' else heap_ok s' {(p - 16, units 100)} G')"
proof -
  have "heap_ok demo_heap {} {}" by (simp add: heap_ok_def demo_heap_def)
  moreover have "unat (100 :: u32) < MAX_REQUEST" by simp
  ultimately show ?thesis using malloc_gives_block [where room = demo_room, OF _ _ demo_room_bound] by meson
qed

theorem free_gives_back_witness:
  "\<exists>s' cs. ufree 0x2010 demo_used = Some s' \<and> ring_ok s' cs {} (span (0x2000, 2))"
proof -
  have "ring_ok demo_used [] {(0x2000, 2)} (span (0x2000, 2))"
    by (simp add: ring_ok_def free_ring_def demo_used_def ends_def)
  from free_gives_back [where p = "0x2010" and n = 2, OF this] show ?thesis by auto
qed

theorem malloc_overflows_witness:
  "\<exists>s'. malloc demo_room 0xFFFFFFFF demo_heap = Some (0x4010, s') \<and> brk s' = 0x4010"
  using malloc_overflows [where s = demo_heap and room = demo_room] by (simp add: demo_heap_def demo_room_def)

end
