(* ===== verification/Xv6_Utils.thy ===== *)
theory Xv6_Utils
  imports Xv6_UPrintf Xv6_Param "HOL-Library.Multiset"
begin

text \<open>
  The small programs of user/: wc.c, cat.c, echo.c, ls.c, mkdir.c, rm.c,
  ln.c, kill.c, bigarray.c and the loops of init.c. The calls of read() on a descriptor are the list of their results,
  \<open>None\<close> for -1 and a list of at most 512 bytes otherwise; the list ends at the end of the file,
  as an empty result does. What a program writes is the list of its writes.
\<close>

type_synonym reads = "u8 list option list"

datatype done_with = Finished | Read_error | Write_error

text \<open>The bytes of the results up to the end of the file.\<close>

fun read_bytes :: "reads \<Rightarrow> u8 list" where
  "read_bytes [] = []"
| "read_bytes (None # rs) = []"
| "read_bytes (Some xs # rs) = (if xs = [] then [] else xs @ read_bytes rs)"

fun read_ok :: "reads \<Rightarrow> bool" where
  "read_ok [] \<longleftrightarrow> True"
| "read_ok (None # rs) \<longleftrightarrow> False"
| "read_ok (Some xs # rs) \<longleftrightarrow> xs = [] \<or> read_ok rs"

section \<open>wc\<close>

record counts =
  n_lines :: u32
  n_words :: u32
  n_bytes :: u32
  inword :: bool

definition blank :: "u8 \<Rightarrow> bool" where
  "blank x \<longleftrightarrow> x \<in> {32, 13, 9, 10, 11}"

text \<open>The body of the loop over the buffer.\<close>

definition wc_byte :: "u8 \<Rightarrow> counts \<Rightarrow> counts" where
  "wc_byte x t =
     (let t = t\<lparr>n_bytes := n_bytes t + 1\<rparr>;
          t = (if x = 10 then t\<lparr>n_lines := n_lines t + 1\<rparr> else t)
      in if blank x then t\<lparr>inword := False\<rparr>
         else if \<not> inword t then t\<lparr>n_words := n_words t + 1, inword := True\<rparr>
         else t)"

fun wc_loop :: "counts \<Rightarrow> reads \<Rightarrow> counts \<times> done_with" where
  "wc_loop t [] = (t, Finished)"
| "wc_loop t (None # rs) = (t, Read_error)"
| "wc_loop t (Some xs # rs) = (if xs = [] then (t, Finished) else wc_loop (fold wc_byte xs t) rs)"

text \<open>Returns the line wc prints and whether it goes on.\<close>

definition wc :: "reads \<Rightarrow> u8 list \<Rightarrow> u8 list outcome \<times> bool" where
  "wc rs name =
     (case wc_loop \<lparr>n_lines = 0, n_words = 0, n_bytes = 0, inword = False\<rparr> rs of
        (t, Finished) \<Rightarrow>
          (vprintf ''%d %d %d %s\<newline>'' [AInt (n_lines t), AInt (n_words t), AInt (n_bytes t), AStr (Some name)], True)
      | (t, _) \<Rightarrow> (vprintf ''wc: read error\<newline>'' [], False))"

text \<open>The words of a text: the longest runs of bytes that are not blank.\<close>

function words :: "u8 list \<Rightarrow> u8 list list" where
  "words xs =
     (let ys = dropWhile blank xs in
      if ys = [] then [] else takeWhile (\<lambda>x. \<not> blank x) ys # words (dropWhile (\<lambda>x. \<not> blank x) ys))"
  by pat_completeness auto
termination
proof (relation "measure length", goal_cases)
  case (2 xs ys)
  then obtain y zs where y: "ys = y # zs" "\<not> blank y" by (metis hd_dropWhile list.exhaust_sel)
  have "length (dropWhile (\<lambda>x. \<not> blank x) zs) \<le> length zs" by (rule length_dropWhile_le)
  moreover have "length ys \<le> length xs" unfolding 2(1) by (rule length_dropWhile_le)
  ultimately show ?case using y by simp
qed simp

declare words.simps [simp del]

lemma words_blank: "blank x \<Longrightarrow> words (x # xs) = words xs"
  by (subst words.simps, subst (2) words.simps) simp

lemma words_start: "\<not> blank x \<Longrightarrow> length (words (x # xs)) = Suc (length (words (dropWhile (\<lambda>x. \<not> blank x) xs)))"
  by (subst words.simps) (simp add: Let_def)

lemma words_Nil [simp]: "words [] = []"
  by (simp add: words.simps)

lemma wc_bytes:
  "fold wc_byte xs t =
    \<lparr>n_lines = n_lines t + of_nat (count_list xs 10),
     n_words = n_words t + of_nat (length (words (if inword t then dropWhile (\<lambda>x. \<not> blank x) xs else xs))),
     n_bytes = n_bytes t + of_nat (length xs),
     inword = (if xs = [] then inword t else \<not> blank (last xs))\<rparr>"
proof (induction xs arbitrary: t)
  case (Cons x xs)
  have "blank x" if "x = 10" using that by (simp add: blank_def)
  then show ?case using Cons.IH [of "wc_byte x t"]
    by (auto simp: wc_byte_def Let_def words_blank words_start)
qed simp

lemma wc_loop_fold:
  "wc_loop t rs = (fold wc_byte (read_bytes rs) t, if read_ok rs then Finished else Read_error)"
  by (induction t rs rule: wc_loop.induct) auto

section \<open>cat\<close>

text \<open>\<open>w i xs\<close> is the result of the \<open>i\<close>-th call of write() on descriptor 1, with the bytes \<open>xs\<close>.\<close>

fun cat_loop :: "(nat \<Rightarrow> u8 list \<Rightarrow> int) \<Rightarrow> nat \<Rightarrow> reads \<Rightarrow> u8 list list \<times> done_with" where
  "cat_loop w i [] = ([], Finished)"
| "cat_loop w i (None # rs) = ([], Read_error)"
| "cat_loop w i (Some xs # rs) =
     (if xs = [] then ([], Finished)
      else if w i xs \<noteq> int (length xs) then ([xs], Write_error)
      else let (out, d) = cat_loop w (Suc i) rs in (xs # out, d))"

definition cat :: "(nat \<Rightarrow> u8 list \<Rightarrow> int) \<Rightarrow> nat \<Rightarrow> reads \<Rightarrow> u8 list list \<times> string option" where
  "cat w i rs =
     (case cat_loop w i rs of
        (out, Finished) \<Rightarrow> (out, None)
      | (out, Read_error) \<Rightarrow> (out, Some ''cat: read error\<newline>'')
      | (out, Write_error) \<Rightarrow> (out, Some ''cat: write error\<newline>''))"

text \<open>The loop of main() over files: what open() gives is \<open>None\<close> or what can be read.\<close>

datatype cat_end = All_done | Stopped_at string | Cannot_open "u8 list"

fun cat_files :: "(nat \<Rightarrow> u8 list \<Rightarrow> int) \<Rightarrow> nat \<Rightarrow> (u8 list \<times> reads option) list \<Rightarrow> u8 list list \<times> cat_end" where
  "cat_files w i [] = ([], All_done)"
| "cat_files w i ((path, None) # fs) = ([], Cannot_open path)"
| "cat_files w i ((path, Some rs) # fs) =
     (case cat w i rs of
        (out, Some msg) \<Rightarrow> (out, Stopped_at msg)
      | (out, None) \<Rightarrow> let (more, d) = cat_files w (i + length out) fs in (out @ more, d))"

lemma cat_loop_copies:
  assumes "\<And>i xs. w i xs = int (length xs)"
  shows "concat (fst (cat_loop w i rs)) = read_bytes rs \<and> snd (cat_loop w i rs) = (if read_ok rs then Finished else Read_error)"
  using assms by (induction w i rs rule: cat_loop.induct) (auto simp: Let_def split: prod.splits)

text \<open>What cat is to write, and how it is to end.\<close>

fun readable :: "(u8 list \<times> reads option) list \<Rightarrow> u8 list \<times> cat_end" where
  "readable [] = ([], All_done)"
| "readable ((path, None) # fs) = ([], Cannot_open path)"
| "readable ((path, Some rs) # fs) =
     (if read_ok rs then (read_bytes rs @ fst (readable fs), snd (readable fs))
      else (read_bytes rs, Stopped_at ''cat: read error\<newline>''))"

text \<open>As long as write() takes all it is given, cat writes the files one after the other.\<close>

lemma cat_files_copies:
  assumes "\<And>i xs. w i xs = int (length xs)"
  shows "concat (fst (cat_files w i fs)) = fst (readable fs) \<and> snd (cat_files w i fs) = snd (readable fs)"
proof (induction fs arbitrary: i rule: readable.induct)
  case (3 path rs fs)
  show ?case
  proof (cases "read_ok rs")
    case True
    with cat_loop_copies [of w i rs, OF assms] obtain out where "cat_loop w i rs = (out, Finished)" "concat out = read_bytes rs"
      by (metis prod.collapse)
    then show ?thesis using "3.IH" [OF True] True by (simp add: cat_def Let_def split: prod.split) (metis fst_conv snd_conv)
  next
    case False
    with cat_loop_copies [of w i rs, OF assms] obtain out where "cat_loop w i rs = (out, Read_error)" "concat out = read_bytes rs"
      by (metis prod.collapse)
    then show ?thesis using False by (simp add: cat_def)
  qed
qed simp_all

section \<open>echo\<close>

text \<open>The writes of main(), from the first argument on.\<close>

fun echo_loop :: "u8 list list \<Rightarrow> u8 list list" where
  "echo_loop [] = []"
| "echo_loop (a # rest) = a # (if rest \<noteq> [] then [32] else [10]) # echo_loop rest"

lemma echo_text:
  "args \<noteq> [] \<Longrightarrow> concat (echo_loop args) = concat (map (\<lambda>a. a @ [32]) (butlast args)) @ last args @ [10]"
  by (induction args rule: echo_loop.induct) auto

section \<open>mkdir, rm and ln\<close>

text \<open>The loop both programs have: the first argument that fails ends it.\<close>

fun until_fails :: "('a \<Rightarrow> 's \<Rightarrow> bool \<times> 's) \<Rightarrow> 'a list \<Rightarrow> 's \<Rightarrow> 'a option \<times> 's" where
  "until_fails f [] s = (None, s)"
| "until_fails f (a # as) s = (case f a s of (True, s) \<Rightarrow> until_fails f as s | (False, s) \<Rightarrow> (Some a, s))"

text \<open>\<open>sys_call\<close> is mkdir() and unlink(); the result is the message on descriptor 2 and the status.\<close>

definition mkdir_main :: "(u8 list \<Rightarrow> 's \<Rightarrow> bool \<times> 's) \<Rightarrow> u8 list list \<Rightarrow> 's \<Rightarrow> u8 list outcome \<times> int \<times> 's" where
  "mkdir_main sys_call args s =
     (if args = [] then (vprintf ''Usage: mkdir files...\<newline>'' [], 1, s)
      else case until_fails sys_call args s of
          (None, s) \<Rightarrow> (Ret [], 0, s)
        | (Some a, s) \<Rightarrow> (vprintf ''mkdir: %s failed to create\<newline>'' [AStr (Some a)], 0, s))"

definition rm_main :: "(u8 list \<Rightarrow> 's \<Rightarrow> bool \<times> 's) \<Rightarrow> u8 list list \<Rightarrow> 's \<Rightarrow> u8 list outcome \<times> int \<times> 's" where
  "rm_main sys_call args s =
     (if args = [] then (vprintf ''Usage: rm files...\<newline>'' [], 1, s)
      else case until_fails sys_call args s of
          (None, s) \<Rightarrow> (Ret [], 0, s)
        | (Some a, s) \<Rightarrow> (vprintf ''rm: %s failed to delete\<newline>'' [AStr (Some a)], 0, s))"

definition ln_main :: "(u8 list \<Rightarrow> u8 list \<Rightarrow> 's \<Rightarrow> bool \<times> 's) \<Rightarrow> u8 list list \<Rightarrow> 's \<Rightarrow> u8 list outcome \<times> int \<times> 's" where
  "ln_main sys_link args s =
     (case args of
        [old, new] \<Rightarrow>
          (case sys_link old new s of
             (True, s) \<Rightarrow> (Ret [], 0, s)
           | (False, s) \<Rightarrow> (vprintf ''link %s %s: failed\<newline>'' [AStr (Some old), AStr (Some new)], 0, s))
      | _ \<Rightarrow> (vprintf ''Usage: ln old new\<newline>'' [], 1, s))"

section \<open>ls\<close>

text \<open>The loop of fmtname(): \<open>name_start path i\<close> is \<open>p + 1\<close> for the first \<open>p\<close> below \<open>i\<close> that stops it.\<close>

primrec name_start :: "u8 list \<Rightarrow> nat \<Rightarrow> nat" where
  "name_start path 0 = 0"
| "name_start path (Suc i) = (if i < length path \<and> path ! i = 47 then Suc i else name_start path i)"

definition fmtname :: "u8 list \<Rightarrow> u8 list" where
  "fmtname path =
     (let p = drop (name_start path (Suc (length path))) path in
      if DIRSIZ \<le> length p then p else p @ replicate (DIRSIZ - length p) 32)"

lemma name_start_skip:
  "\<lbrakk>47 \<notin> set name; i \<le> Suc (length name)\<rbrakk> \<Longrightarrow>
    name_start (dir @ name) (length dir + i) = name_start (dir @ name) (length dir)"
proof (induction i)
  case (Suc i)
  then have "i < length name \<Longrightarrow> name ! i \<noteq> 47" by (metis nth_mem)
  with Suc show ?case by (auto simp: nth_append)
qed simp

lemma name_start_top:
  assumes "47 \<notin> set name"
  shows "name_start name (Suc (length name)) = 0"
    and "name_start (dir @ 47 # name) (Suc (length (dir @ 47 # name))) = Suc (length dir)"
proof -
  show "name_start name (Suc (length name)) = 0" using name_start_skip [OF assms, of "Suc (length name)" "[]"] by simp
  have "name_start ((dir @ [47]) @ name) (length (dir @ [47]) + Suc (length name)) = name_start ((dir @ [47]) @ name) (length (dir @ [47]))"
    by (rule name_start_skip [OF assms]) simp
  then show "name_start (dir @ 47 # name) (Suc (length (dir @ 47 # name))) = Suc (length dir)" by simp
qed

lemma fmtname_last:
  assumes "47 \<notin> set name"
  shows "fmtname (dir @ 47 # name) = fmtname name"
    and "fmtname name = name @ replicate (DIRSIZ - length name) 32"
  unfolding fmtname_def name_start_top(1) [OF assms] name_start_top(2) [OF assms] by simp_all

text \<open>
  The listing. \<open>op\<close> is open() with what fstat() and the calls of read() give on the descriptor,
  \<open>st\<close> is stat(). The results are the calls of fprintf() and printf(), with their descriptor.
\<close>

record ustat =
  st_type :: u32
  st_ino :: u32
  st_size :: u64

type_synonym opener = "u8 list \<Rightarrow> (ustat option \<times> u8 list list) option"

text \<open>
  The loop over the directory: \<open>p\<close> is the string in \<open>buf\<close>. The size is passed to %d, which takes
  the low half of it.
\<close>

fun ls_dir :: "(u8 list \<Rightarrow> ustat option) \<Rightarrow> u8 list \<Rightarrow> u8 list list \<Rightarrow> u8 list outcome list" where
  "ls_dir st path [] = []"
| "ls_dir st path (de # des) =
     (if length de \<noteq> 16 then []
      else if de ! 0 = 0 \<and> de ! 1 = 0 then ls_dir st path des
      else let p = path @ 47 # takeWhile (\<lambda>c. c \<noteq> 0) (drop 2 de) in
        (case st p of
           None \<Rightarrow> vprintf ''ls: cannot stat %s\<newline>'' [AStr (Some p)]
         | Some t \<Rightarrow>
             vprintf ''%s %d %d %d\<newline>'' [AStr (Some (fmtname p)), AInt (st_type t), AInt (st_ino t), AInt (ucast (st_size t))])
        # ls_dir st path des)"

definition ls :: "opener \<Rightarrow> (u8 list \<Rightarrow> ustat option) \<Rightarrow> u8 list \<Rightarrow> (nat \<times> u8 list outcome) list" where
  "ls op st path =
     (case op path of
        None \<Rightarrow> [(2, vprintf ''ls: cannot open %s\<newline>'' [AStr (Some path)])]
      | Some (None, des) \<Rightarrow> [(2, vprintf ''ls: cannot stat %s\<newline>'' [AStr (Some path)])]
      | Some (Some t, des) \<Rightarrow>
          if st_type t = 3 \<or> st_type t = 2 then
            [(1, vprintf ''%s %d %d %l\<newline>'' [AStr (Some (fmtname path)), AInt (st_type t), AInt (st_ino t), APtr (st_size t)])]
          else if st_type t = 1 then
            (if 512 < length path + 1 + DIRSIZ + 1 then [(1, vprintf ''ls: path too long\<newline>'' [])]
             else map (Pair 1) (ls_dir st path des))
          else [])"

definition ls_main :: "opener \<Rightarrow> (u8 list \<Rightarrow> ustat option) \<Rightarrow> u8 list list \<Rightarrow> (nat \<times> u8 list outcome) list" where
  "ls_main op st args = (if args = [] then ls op st [46] else concat (map (ls op st) args))"

text \<open>One line for every used entry, up to the first short read, and the string fits in \<open>buf\<close>.\<close>

lemma ls_dir_lines:
  "length (ls_dir st path des) = length (filter (\<lambda>de. de ! 0 \<noteq> 0 \<or> de ! 1 \<noteq> 0) (takeWhile (\<lambda>de. length de = 16) des))"
  by (induction st path des rule: ls_dir.induct) (auto simp: Let_def)

lemma ls_buf_fits:
  "\<lbrakk>\<not> 512 < length path + 1 + DIRSIZ + 1; length de = 16\<rbrakk> \<Longrightarrow>
    length (path @ 47 # takeWhile (\<lambda>c. c \<noteq> 0) (drop 2 de)) + 1 \<le> 512"
  using length_takeWhile_le [of "\<lambda>c. c \<noteq> 0" "drop 2 de"] by simp

section \<open>kill and init\<close>

text \<open>The pid kill passes to kill() for an argument.\<close>

definition kill_pid :: "u8 list \<Rightarrow> u32 option" where
  "kill_pid a = atoi (\<lambda>i. if i < length a then a ! i else 0) 0"

lemma atoi_loop_ends:
  "\<exists>n'. atoi_loop (\<lambda>i. if i < length a then a ! i else 0) s n = Some n'"
proof (induction "length a - s" arbitrary: s n)
  case 0
  then show ?case by (subst atoi_loop.simps) simp
next
  case (Suc k)
  then have "k = length a - (s + 1)" by simp
  from Suc.hyps(1) [OF this] show ?case by (subst atoi_loop.simps) auto
qed

lemma kill_pid_some: "\<exists>pid. kill_pid a = Some pid"
  unfolding kill_pid_def atoi_def by (rule atoi_loop_ends)

text \<open>The message on descriptor 2, the status and the arguments of the calls of kill().\<close>

definition kill_main :: "u8 list list \<Rightarrow> u8 list outcome \<times> int \<times> u32 option list" where
  "kill_main args =
     (if args = [] then (vprintf ''usage: kill pid...\<newline>'' [], 1, [])
      else (Ret [], 0, map kill_pid args))"

text \<open>
  The loops of init: \<open>ws\<close> are the results of wait(), \<open>fs\<close> those of fork() in init itself. When
  they end init waits. The results are what init prints and whether it has called exit(1).
\<close>

datatype init_wait = Shell_gone "int list" | Wait_failed | Still_waiting

fun init_waits :: "int \<Rightarrow> int list \<Rightarrow> init_wait" where
  "init_waits pid [] = Still_waiting"
| "init_waits pid (wpid # ws) =
     (if wpid = pid then Shell_gone ws else if wpid < 0 then Wait_failed else init_waits pid ws)"

fun init_loop :: "int list \<Rightarrow> int list \<Rightarrow> string list \<times> bool" where
  "init_loop [] ws = ([''init: starting sh\<newline>''], False)"
| "init_loop (pid # fs) ws =
     (if pid < 0 then ([''init: starting sh\<newline>'', ''init: fork failed\<newline>''], True)
      else case init_waits pid ws of
          Shell_gone ws \<Rightarrow> (let (out, ended) = init_loop fs ws in (''init: starting sh\<newline>'' # out, ended))
        | Wait_failed \<Rightarrow> ([''init: starting sh\<newline>'', ''init: wait returned an error\<newline>''], True)
        | Still_waiting \<Rightarrow> ([''init: starting sh\<newline>''], False))"

lemma init_waits_reaps:
  "pid \<notin> set ws \<Longrightarrow> \<forall>w \<in> set ws. 0 \<le> w \<Longrightarrow> init_waits pid (ws @ pid # vs) = Shell_gone vs"
  by (induction ws) auto

text \<open>init reaps any orphans and starts a new shell for every shell that exits.\<close>

lemma init_restarts:
  assumes "\<forall>(pid, ws) \<in> set rounds. 0 \<le> pid \<and> pid \<notin> set ws \<and> (\<forall>w \<in> set ws. 0 \<le> w)"
  shows "init_loop (map fst rounds) (concat (map (\<lambda>(pid, ws). ws @ [pid]) rounds)) =
    (replicate (length rounds + 1) ''init: starting sh\<newline>'', False)"
  using assms
proof (induction rounds)
  case (Cons r rounds)
  obtain pid ws where r: "r = (pid, ws)" by (cases r)
  with Cons show ?case by (simp add: init_waits_reaps)
qed simp

section \<open>bigarray\<close>

abbreviation ARRAY_SIZE :: int where "ARRAY_SIZE \<equiv> 0x10000"
abbreviation NUM_CHILDREN :: int where "NUM_CHILDREN \<equiv> 8"

text \<open>The range of child \<open>ret\<close> and the loop that sums it, in the code's long long.\<close>

definition child_range :: "int \<Rightarrow> int \<times> int" where
  "child_range ret =
     (let base = ARRAY_SIZE div NUM_CHILDREN; rem = ARRAY_SIZE mod NUM_CHILDREN;
          start = ret * base + (if ret < rem then ret else rem)
      in (start, start + base + (if ret < rem then 1 else 0)))"

function sum_loop :: "int \<Rightarrow> int \<Rightarrow> int \<Rightarrow> int" where
  "sum_loop i e acc = (if i < e then sum_loop (i + 1) e (acc + i) else acc)"
  by pat_completeness auto
termination
  by (relation "measure (\<lambda>(i, e, acc). nat (e - i))") auto

definition child_sum :: "int \<Rightarrow> int" where
  "child_sum ret = (let (start, stop) = child_range ret in sum_loop start stop 0)"

text \<open>The loop of the parent over the statuses.\<close>

fun total_loop :: "u32 list \<Rightarrow> int \<Rightarrow> int" where
  "total_loop [] acc = acc"
| "total_loop (st # sts) acc = total_loop sts (acc + sint st)"

declare sum_loop.simps [simp del]

lemma sum_loop_closed: "i \<le> e \<Longrightarrow> 2 * sum_loop i e acc = 2 * acc + e * (e - 1) - i * (i - 1)"
proof (induction i e acc rule: sum_loop.induct)
  case (1 i e acc)
  show ?case
  proof (cases "i < e")
    case True
    then have "2 * sum_loop (i + 1) e (acc + i) = 2 * (acc + i) + e * (e - 1) - (i + 1) * (i + 1 - 1)" using 1 by simp
    moreover have "sum_loop i e acc = sum_loop (i + 1) e (acc + i)" using True by (subst sum_loop.simps) simp
    ultimately show ?thesis by (simp add: algebra_simps)
  next
    case False
    with "1.prems" have "i = e" by simp
    then show ?thesis by (simp add: sum_loop.simps [of e e])
  qed
qed

lemma child_sum_closed:
  assumes "0 \<le> r"
  shows "child_sum r = 67108864 * r + 33550336"
proof -
  have "child_sum r = sum_loop (r * 8192) (r * 8192 + 8192) 0" using assms by (simp add: child_sum_def child_range_def Let_def)
  moreover have "2 * sum_loop (r * 8192) (r * 8192 + 8192) 0 =
      (r * 8192 + 8192) * (r * 8192 + 8192 - 1) - r * 8192 * (r * 8192 - 1)"
    by (subst sum_loop_closed) simp_all
  ultimately show ?thesis by (simp add: algebra_simps)
qed

text \<open>
  The children's sums fit in an int, so the status a child passes to exit_num() is its sum, and
  with the statuses in any order the parent finds the sum of all indices.
\<close>

lemma bigarray_total:
  assumes "mset sts = mset (map (\<lambda>r. of_int (child_sum r)) [0..7])"
  shows "total_loop sts 0 = (ARRAY_SIZE - 1) * ARRAY_SIZE div 2"
proof -
  have acc: "total_loop ts a = a + sum_mset (image_mset sint (mset ts))" for ts a
    by (induction ts a rule: total_loop.induct) simp_all
  have "sum_mset (image_mset sint (mset sts)) = (ARRAY_SIZE - 1) * ARRAY_SIZE div 2"
    unfolding assms by (simp add: child_sum_closed upto.simps)
  then show ?thesis by (simp add: acc)
qed

section \<open>Properties\<close>

text \<open>
  C37. wc counts right however the text falls into read() results: it prints the number of
  newlines, of words and of bytes of the file, where a word is a longest run of bytes that are
  not blank, also when it begins in one buffer and ends in another, each modulo \<open>2 ^ 32\<close>. A
  failing read() ends the program with its message.
\<close>

theorem wc_counts:
  "wc rs name =
    (let text = read_bytes rs in
     if read_ok rs
     then (vprintf ''%d %d %d %s\<newline>'' [AInt (of_nat (count_list text 10)), AInt (of_nat (length (words text))),
            AInt (of_nat (length text)), AStr (Some name)], True)
     else (vprintf ''wc: read error\<newline>'' [], False))"
  by (simp add: wc_def wc_loop_fold wc_bytes Let_def)

lemma demo_wc:
  "wc [Some [97, 98], Some [99, 32, 10, 100], Some []] [102] =
    (vprintf ''%d %d %d %s\<newline>'' [AInt 1, AInt 2, AInt 6, AStr (Some [102])], True)"
  by code_simp

end
