(* ===== verification/Xv6_Inodes.thy ===== *)
theory Xv6_Inodes
  imports Xv6_Dir Xv6_Demo
begin

text \<open>
  Properties of the inode layer (kernel/fs.c): the slots of the inode blocks, the table of
  inodes in memory, the sizes readi() and writei() respect, and the elements of a path.
\<close>

section \<open>Slots of an inode block\<close>

lemma put_addrs_other:
  "a < p \<or> p + 4 * n \<le> a \<Longrightarrow> put_addrs n f p d a = d a"
proof (induction n)
  case (Suc n)
  then show ?case by (auto simp: store32_def)
qed simp

lemma load32_put_addrs: "j < n \<Longrightarrow> load32 (put_addrs n f p d) (p + 4 * j) = f j"
proof (induction n)
  case (Suc n)
  show ?case
  proof (cases "j = n")
    case False
    with Suc show ?thesis by (simp add: load32_store32_other)
  qed simp
qed simp

lemma put_dinode_other:
  "a < p \<or> p + 64 \<le> a \<Longrightarrow> put_dinode x p d a = d a"
  unfolding put_dinode_def by (subst put_addrs_other) (auto simp: store32_def store16_def)

lemma load_before_put_addrs:
  "q + 2 \<le> p \<Longrightarrow> load16 (put_addrs n f p d) q = load16 d q"
  "q + 4 \<le> p \<Longrightarrow> load32 (put_addrs n f p d) q = load32 d q"
  by (auto intro!: load16_cong load32_cong put_addrs_other)

text \<open>The fields of an inode that are kept on disk.\<close>

definition with_dinode :: "inode \<Rightarrow> inode \<Rightarrow> inode" where
  "with_dinode x y = y\<lparr>i_type := i_type x, i_major := i_major x, i_minor := i_minor x,
     i_nlink := i_nlink x, i_size := i_size x,
     i_addrs := (\<lambda>j. if j < 13 then i_addrs x j else i_addrs y j)\<rparr>"

lemma get_put_dinode: "get_dinode (put_dinode x p d) p y = with_dinode x y"
proof -
  let ?d = "store32 (store16 (store16 (store16 (store16 d p (i_type x)) (p + 2) (i_major x))
          (p + 4) (i_minor x)) (p + 6) (i_nlink x)) (p + 8) (i_size x)"
  have "load16 ?d p = i_type x" "load16 ?d (p + 2) = i_major x" "load16 ?d (p + 4) = i_minor x"
    "load16 ?d (p + 6) = i_nlink x" "load32 ?d (p + 8) = i_size x"
    by (simp_all add: mem_simps)
  moreover have "put_dinode x p d = put_addrs 13 (i_addrs x) (p + 12) ?d" by (simp add: put_dinode_def)
  ultimately show ?thesis
    by (simp add: get_dinode_def with_dinode_def load_before_put_addrs load32_put_addrs cong: if_cong)
qed

lemma get_dinode_cong:
  assumes "\<And>a. p \<le> a \<Longrightarrow> a < p + 64 \<Longrightarrow> d a = d' a"
  shows "get_dinode d p x = get_dinode d' p x"
proof -
  have "load16 d p = load16 d' p" "load16 d (p + 2) = load16 d' (p + 2)"
    "load16 d (p + 4) = load16 d' (p + 4)" "load16 d (p + 6) = load16 d' (p + 6)"
    "load32 d (p + 8) = load32 d' (p + 8)"
    by (auto intro!: load16_cong load32_cong assms)
  moreover have "load32 d (p + 12 + 4 * j) = load32 d' (p + 12 + 4 * j)" if "j < 13" for j
    using that by (auto intro!: load32_cong assms)
  ultimately show ?thesis by (simp add: get_dinode_def cong: if_cong)
qed

lemma dinode_off_apart:
  "unat a mod IPB \<noteq> unat b mod IPB \<Longrightarrow> dinode_off a + 64 \<le> dinode_off b \<or> dinode_off b + 64 \<le> dinode_off a"
  by (auto simp: dinode_off_def)

text \<open>
  C14. The inode blocks hold independent slots: reading slot \<open>b\<close> after iupdate() has stored an
  inode in slot \<open>a\<close> of the same block gives what was stored when it is the same slot, and what
  the slot held before when it is another; the slot lies inside the block.
\<close>

theorem dinode_slots:
  "dinode_off a + 64 \<le> BSIZE \<and>
   get_dinode (put_dinode x (dinode_off a) d) (dinode_off b) y =
     (if unat a mod IPB = unat b mod IPB then with_dinode x y else get_dinode d (dinode_off b) y)"
proof (cases "unat a mod IPB = unat b mod IPB")
  case True
  then have "dinode_off b = dinode_off a" by (simp add: dinode_off_def)
  then show ?thesis using True get_put_dinode by (simp add: dinode_off_def)
next
  case False
  from dinode_off_apart [OF this] have
    "get_dinode (put_dinode x (dinode_off a) d) (dinode_off b) y = get_dinode d (dinode_off b) y"
    by (intro get_dinode_cong put_dinode_other) auto
  then show ?thesis using False by (simp add: dinode_off_def)
qed

section \<open>What the operations change of the table\<close>

text \<open>Block numbers of files may be allocated, nothing else of any inode changes.\<close>

definition only_addrs :: "kernel \<Rightarrow> kernel \<Rightarrow> bool" where
  "only_addrs k k' \<longleftrightarrow> (\<forall>j. k_inode k' j = (k_inode k j)\<lparr>i_addrs := i_addrs (k_inode k' j)\<rparr>)"

lemma only_addrs_same: "k_inode k' = k_inode k \<Longrightarrow> only_addrs k k'"
  by (simp add: only_addrs_def)

lemma only_addrs_trans:
  assumes "only_addrs k k1" and "only_addrs k1 k2"
  shows "only_addrs k k2"
  unfolding only_addrs_def
proof
  fix j
  have e: "k_inode k1 j = (k_inode k j)\<lparr>i_addrs := i_addrs (k_inode k1 j)\<rparr>"
    "k_inode k2 j = (k_inode k1 j)\<lparr>i_addrs := i_addrs (k_inode k2 j)\<rparr>"
    using assms by (simp_all add: only_addrs_def)
  have "(k_inode k1 j)\<lparr>i_addrs := x\<rparr> = (k_inode k j)\<lparr>i_addrs := x\<rparr>" for x by (subst e(1)) simp
  with e(2) show "k_inode k2 j = (k_inode k j)\<lparr>i_addrs := i_addrs (k_inode k2 j)\<rparr>" by (rule trans)
qed

lemma only_addrs_fields:
  assumes "only_addrs k k'"
  shows "i_ref (k_inode k' j) = i_ref (k_inode k j)" "i_dev (k_inode k' j) = i_dev (k_inode k j)"
    "i_inum (k_inode k' j) = i_inum (k_inode k j)" "i_size (k_inode k' j) = i_size (k_inode k j)"
proof -
  have e: "k_inode k' j = (k_inode k j)\<lparr>i_addrs := i_addrs (k_inode k' j)\<rparr>"
    using assms by (simp add: only_addrs_def)
  show "i_ref (k_inode k' j) = i_ref (k_inode k j)" by (subst e) simp
  show "i_dev (k_inode k' j) = i_dev (k_inode k j)" by (subst e) simp
  show "i_inum (k_inode k' j) = i_inum (k_inode k j)" by (subst e) simp
  show "i_size (k_inode k' j) = i_size (k_inode k j)" by (subst e) simp
qed

lemma bmap_addr_only: "bmap_addr ip n k = Ret (a, k') \<Longrightarrow> only_addrs k k'"
  by (auto simp: bmap_addr_def obind_eq_Ret only_addrs_def split: if_splits dest!: balloc_inode)

lemma bmap_only: 
  assumes "bmap ip bn k = Ret (a, k')"
  shows "only_addrs k k'"
proof (cases "bn < NDIRECT")
  case True
  with assms bmap_addr_only show ?thesis by (auto simp: bmap_def)
next
  case False
  with assms obtain ind k1 where a: "bmap_addr ip NDIRECT k = Ret (ind, k1)"
    by (auto simp: bmap_def obind_eq_Ret split: if_splits)
  with False assms have "k_inode k' = k_inode k1"
    by (auto simp: bmap_def obind_eq_Ret split: if_splits dest!: bmap_entry_inode fs_brelse_inode fs_bread_inode)
  then show ?thesis using bmap_addr_only [OF a] only_addrs_same only_addrs_trans by blast
qed

lemma sint_of_nat: "n < 2 ^ 31 \<Longrightarrow> sint (of_nat n :: u32) = int n"
  by (simp add: signed_of_nat signed_take_bit_int_eq_self)

lemma readi_loop_only:
  "readi_loop ip u dst off tot n k = Ret (r, k') \<Longrightarrow>
     only_addrs k k' \<and> (r = -1 \<or> (\<exists>t\<ge>tot. t \<le> max n tot \<and> r = sint (of_nat t :: u32)))"
proof (induction ip u dst off tot n k rule: readi_loop.induct)
  case (1 ip u dst off tot n k)
  note unfold = readi_loop.simps [of ip u dst off tot n k]
  show ?case
  proof (cases "tot < n")
    case True
    from "1.prems" True obtain addr k1 where b: "bmap ip (off div BSIZE) k = Ret (addr, k1)"
      by (auto simp: unfold obind_eq_Ret)
    show ?thesis
    proof (cases "addr = 0")
      case True
      with "1.prems" b \<open>tot < n\<close> bmap_only [OF b] show ?thesis by (auto simp: unfold)
    next
      case False
      define m where "m = min (n - tot) (BSIZE - off mod BSIZE)"
      from "1.prems" True False b obtain bp k2 r2 k3 k4 where s:
        "fs_bread (i_dev (k_inode k1 ip)) addr k1 = Ret (bp, k2)"
        "either_copyout u dst (fs_data bp k2) (off mod BSIZE) m k2 = Ret (r2, k3)"
        "fs_brelse bp k3 = Ret k4"
        "(if r2 = -1 then Ret (-1, k4)
          else readi_loop ip u (dst + of_nat m) (off + m) (tot + m) n k4) = Ret (r, k')"
        by (auto simp: unfold obind_eq_Ret m_def [symmetric] Let_def)
      have "k_inode k4 = k_inode k1"
        using s(1-3) by (auto dest!: keeps_inode either_copyout_inode)
      then have e: "only_addrs k k4" using bmap_only [OF b] only_addrs_same only_addrs_trans by blast
      show ?thesis
      proof (cases "r2 = -1")
        case False
        then have "readi_loop ip u (dst + of_nat m) (off + m) (tot + m) n k4 = Ret (r, k')" using s(4) by simp
        from "1.IH" [OF True b refl \<open>addr \<noteq> 0\<close> s(1) refl m_def s(2) refl s(3) False this]
        show ?thesis using only_addrs_trans [OF e] True by (force simp: m_def)
      qed (use s(4) e in simp)
    qed
  next
    case False
    with "1.prems" show ?thesis by (auto simp: unfold only_addrs_def)
  qed
qed

lemma writei_loop_only:
  "writei_loop ip u src off tot n k = Ret (off', t, k') \<Longrightarrow>
     only_addrs k k' \<and> tot \<le> t \<and> t \<le> max n tot \<and> off' = off + (t - tot)"
proof (induction ip u src off tot n k rule: writei_loop.induct)
  case (1 ip u src off tot n k)
  note unfold = writei_loop.simps [of ip u src off tot n k]
  show ?case
  proof (cases "tot < n")
    case True
    from "1.prems" True obtain addr k1 where b: "bmap ip (off div BSIZE) k = Ret (addr, k1)"
      by (auto simp: unfold obind_eq_Ret)
    show ?thesis
    proof (cases "addr = 0")
      case True
      with "1.prems" b \<open>tot < n\<close> bmap_only [OF b] show ?thesis by (auto simp: unfold)
    next
      case False
      define m where "m = min (n - tot) (BSIZE - off mod BSIZE)"
      from "1.prems" True False b obtain bp k2 r2 d where s:
        "fs_bread (i_dev (k_inode k1 ip)) addr k1 = Ret (bp, k2)"
        "either_copyin (fs_data bp k2) (off mod BSIZE) u src m k2 = Ret (r2, d)" and
        w: "(if r2 = -1 then obind (fs_brelse bp (fs_put bp d k2)) (\<lambda>k. Ret (off, tot, k))
          else obind (fs_log_write bp (fs_put bp d k2)) (\<lambda>k. obind (fs_brelse bp k) (\<lambda>k.
            writei_loop ip u (src + of_nat m) (off + m) (tot + m) n k))) = Ret (off', t, k')"
        by (auto simp: unfold obind_eq_Ret m_def [symmetric] Let_def)
      have e2: "only_addrs k k2" using bmap_only [OF b] fs_bread_inode [OF s(1)] only_addrs_same only_addrs_trans by blast
      show ?thesis
      proof (cases "r2 = -1")
        case True
        with w have "k_inode k' = k_inode k2" "t = tot" "off' = off"
          by (auto simp: obind_eq_Ret dest!: keeps_inode)
        with only_addrs_trans [OF e2 only_addrs_same] show ?thesis by auto
      next
        case r2: False
        with w obtain k3 k4 where l: "fs_log_write bp (fs_put bp d k2) = Ret k3" "fs_brelse bp k3 = Ret k4"
          and rec: "writei_loop ip u (src + of_nat m) (off + m) (tot + m) n k4 = Ret (off', t, k')"
          by (auto simp: obind_eq_Ret)
        have "k_inode k4 = k_inode k2" using l by (auto dest!: keeps_inode)
        then have e: "only_addrs k k4" using e2 only_addrs_same only_addrs_trans by blast
        from "1.IH" [OF True b refl \<open>addr \<noteq> 0\<close> s(1) refl m_def s(2) refl refl r2 l rec]
        show ?thesis using only_addrs_trans [OF e] True by (auto simp: m_def)
      qed
    qed
  next
    case False
    with "1.prems" show ?thesis by (auto simp: unfold only_addrs_def)
  qed
qed

section \<open>Sizes and counts\<close>

lemma iupdate_inode: "iupdate ip k = Ret k' \<Longrightarrow> k_inode k' = k_inode k"
  by (auto simp: iupdate_def obind_eq_Ret Let_def dest!: keeps_inode)

text \<open>
  A read returns -1 or a count: no more bytes than were asked for and none past the end of
  the file. It changes no inode, except that block numbers may be allocated for holes.
\<close>

theorem readi_bounds:
  assumes "readi ip user_dst dst off n k = Ret (r, k')" and "unat (i_size (k_inode k ip)) \<le> MAXFILE * BSIZE"
  shows "only_addrs k k' \<and> (r = -1 \<or> 0 \<le> r \<and> r \<le> uint n \<and> (r > 0 \<longrightarrow> uint off + r \<le> uint (i_size (k_inode k ip))))"
proof (cases "off > i_size (k_inode k ip) \<or> off + n < off")
  case True
  with assms(1) show ?thesis by (auto simp: readi_def Let_def only_addrs_def)
next
  case False
  let ?size = "i_size (k_inode k ip)"
  define m where "m = (if off + n > ?size then ?size - off else n)"
  have nowrap: "unat (off + n) = unat off + unat n"
    using False by (meson linorder_not_less no_olen_add_nat unat_plus_simple)
  have m: "unat m \<le> unat n" "unat off + unat m \<le> unat ?size"
  proof -
    have "unat (?size - off) = unat ?size - unat off" "unat off \<le> unat ?size"
      using False unat_sub [of off ?size] by (auto simp: not_less word_le_nat_alt)
    then show "unat m \<le> unat n" "unat off + unat m \<le> unat ?size"
      using nowrap by (auto simp: m_def word_less_nat_alt)
  qed
  from assms(1) False have "readi_loop ip user_dst dst (unat off) 0 (unat m) k = Ret (r, k')"
    by (simp add: readi_def Let_def m_def)
  from readi_loop_only [OF this] have "only_addrs k k'" and
    "r = -1 \<or> (\<exists>t\<le>unat m. r = sint (of_nat t :: u32))" by auto
  then show ?thesis
  proof (elim disjE exE conjE)
    fix t assume t: "t \<le> unat m" "r = sint (of_nat t :: u32)"
    then have "r = int t" using sint_of_nat [of t] m assms(2) by simp
    moreover have "uint n = int (unat n)" "uint off = int (unat off)" "uint ?size = int (unat ?size)"
      by (rule uint_nat)+
    ultimately show ?thesis using \<open>only_addrs k k'\<close> t m by linarith
  qed simp
qed

theorem readi_bounds_witness:
  "readi 0 True 0 0 5 demo_kernel = Ret (0, demo_kernel) \<and> (0::int) \<le> uint (5 :: u32)"
proof -
  have r: "readi 0 True 0 0 5 demo_kernel = Ret (0, demo_kernel)"
    by (simp add: readi_def demo_kernel_def free_inode_def readi_loop.simps)
  with readi_bounds [OF r] show ?thesis by (simp add: demo_kernel_def free_inode_def)
qed

text \<open>
  C13. No write makes a file larger than MAXFILE blocks: writei() refuses a range that ends past
  that or starts past the end of the file, and otherwise returns the number of bytes it stored and
  leaves a size that is the larger of the old size and the end of those bytes. bmap() is
  therefore never asked for a block it would panic on.
\<close>

theorem writei_bounds:
  assumes "writei ip user_src src off n k = Ret (r, k')" and "unat (i_size (k_inode k ip)) \<le> MAXFILE * BSIZE"
  shows "unat (i_size (k_inode k' ip)) \<le> MAXFILE * BSIZE \<and>
    (if off > i_size (k_inode k ip) \<or> off + n < off \<or> unat (off + n) > MAXFILE * BSIZE
     then r = -1 \<and> k' = k
     else 0 \<le> r \<and> r \<le> uint n \<and>
       uint (i_size (k_inode k' ip)) = max (uint (i_size (k_inode k ip))) (uint off + r))"
proof (cases "off > i_size (k_inode k ip) \<or> off + n < off \<or> unat (off + n) > MAXFILE * BSIZE")
  case True
  with assms show ?thesis by (auto simp: writei_def split: if_splits)
next
  case False
  let ?size = "i_size (k_inode k ip)"
  have nowrap: "unat (off + n) = unat off + unat n"
    using False by (meson linorder_not_less no_olen_add_nat unat_plus_simple)
  from assms(1) False obtain off' t k1 k2 where
    l: "writei_loop ip user_src src (unat off) 0 (unat n) k = Ret (off', t, k1)" and
    u: "iupdate ip (if off' > unat (i_size (k_inode k1 ip))
                 then upd_inode ip (\<lambda>x. x\<lparr>i_size := of_nat off'\<rparr>) k1 else k1) = Ret k2" and
    r: "r = sint (of_nat t :: u32)" "k' = k2"
    by (auto simp: writei_def obind_eq_Ret Let_def)
  from writei_loop_only [OF l] have o: "only_addrs k k1" "t \<le> unat n" "off' = unat off + t" by auto
  have s: "i_size (k_inode k1 ip) = ?size" using only_addrs_fields(4) [OF o(1)] .
  have b: "unat off + t \<le> MAXFILE * BSIZE" using o nowrap False by simp
  then have t: "r = int t" using r sint_of_nat [of t] by simp
  have "off' < 2 ^ 32" using b o(3) by simp
  then have w: "unat (of_nat off' :: u32) = off'" unfolding unsigned_of_nat by (simp add: take_bit_nat_eq_self)
  have m: "unat (i_size (k_inode k' ip)) = max (unat ?size) off'"
    using iupdate_inode [OF u] r(2) s w by (auto simp: max_def split: if_splits)
  have e: "int (unat (i_size (k_inode k' ip))) = max (int (unat ?size)) (int (unat off) + r)"
    using m t o(3) by (simp add: of_nat_max)
  have u: "uint x = int (unat x)" for x :: u32 by (rule uint_nat)
  have "0 \<le> r" using t by simp
  moreover have "r \<le> uint n" using t o(2) u [of n] by linarith
  moreover have "uint (i_size (k_inode k' ip)) = max (uint ?size) (uint off + r)"
    using e unfolding u .
  moreover have "unat (i_size (k_inode k' ip)) \<le> MAXFILE * BSIZE" using m o(3) b assms(2) by simp
  ultimately show ?thesis using False by (simp only: if_False simp_thms)
qed

theorem writei_bounds_witness:
  "writei 0 True 0 0 300000 demo_kernel = Ret (-1, demo_kernel) \<and>
   unat (i_size (k_inode demo_kernel 0)) \<le> MAXFILE * BSIZE"
proof -
  have r: "writei 0 True 0 0 300000 demo_kernel = Ret (-1, demo_kernel)"
    by (simp add: writei_def demo_kernel_def free_inode_def)
  show ?thesis using r writei_bounds [OF r] by (simp add: demo_kernel_def free_inode_def)
qed

section \<open>The table of inodes in memory\<close>

text \<open>The operations that keep device, number and reference count of every entry.\<close>

definition same_refs :: "kernel \<Rightarrow> kernel \<Rightarrow> bool" where
  "same_refs k k' \<longleftrightarrow> (\<forall>j. i_ref (k_inode k' j) = i_ref (k_inode k j) \<and>
     i_dev (k_inode k' j) = i_dev (k_inode k j) \<and> i_inum (k_inode k' j) = i_inum (k_inode k j))"

lemma same_refs_refl: "k_inode k' = k_inode k \<Longrightarrow> same_refs k k'"
  by (simp add: same_refs_def)

lemma same_refs_trans: "same_refs k k1 \<Longrightarrow> same_refs k1 k2 \<Longrightarrow> same_refs k k2"
  by (simp add: same_refs_def)

lemma same_refs_upd:
  "(\<And>x. i_ref (f x) = i_ref x \<and> i_dev (f x) = i_dev x \<and> i_inum (f x) = i_inum x) \<Longrightarrow>
     same_refs k (upd_inode ip f k)"
  by (simp add: same_refs_def)

lemma only_addrs_refs: "only_addrs k k' \<Longrightarrow> same_refs k k'"
  by (simp add: same_refs_def only_addrs_fields)

lemma bfree_inode: "bfree dev b k = Ret k' \<Longrightarrow> k_inode k' = k_inode k"
  by (auto simp: bfree_def obind_eq_Ret Let_def split: if_splits dest!: keeps_inode)

lemma ofold_same_refs:
  assumes "ofold f xs k = Ret k'" and "\<And>x k k'. f x k = Ret k' \<Longrightarrow> same_refs k k'"
  shows "same_refs k k'"
  by (rule ofold_inv [where P = "same_refs k", OF assms(1)])
    (auto simp: same_refs_refl intro: same_refs_trans assms(2))

lemma itrunc_refs:
  assumes "itrunc ip k = Ret k'"
  shows "same_refs k k'"
proof -
  let ?dev = "i_dev (k_inode k ip)"
  let ?clear = "\<lambda>i k. if i_addrs (k_inode k ip) i \<noteq> 0 then
            obind (bfree ?dev (i_addrs (k_inode k ip) i) k) (\<lambda>k.
            Ret (upd_inode ip (\<lambda>x. x\<lparr>i_addrs := (i_addrs x)(i := 0)\<rparr>) k))
          else Ret k"
  from assms obtain k1 k2 where
    a: "ofold ?clear [0..<NDIRECT] k = Ret k1" and
    b: "(let ind = i_addrs (k_inode k1 ip) NDIRECT in
      if ind \<noteq> 0 then
          obind (fs_bread ?dev ind k1) (\<lambda>(bp, k).
          obind (ofold (\<lambda>j k.
              let a = load32 (fs_data bp k) (4 * j) in
              if a \<noteq> 0 then bfree ?dev a k else Ret k) [0..<NINDIRECT] k) (\<lambda>k.
          obind (fs_brelse bp k) (\<lambda>k.
          obind (bfree ?dev ind k) (\<lambda>k.
          Ret (upd_inode ip (\<lambda>x. x\<lparr>i_addrs := (i_addrs x)(NDIRECT := 0)\<rparr>) k)))))
        else Ret k1) = Ret k2" and
    c: "iupdate ip (upd_inode ip (\<lambda>x. x\<lparr>i_size := 0\<rparr>) k2) = Ret k'"
    by (auto simp: itrunc_def obind_eq_Ret Let_def simp del: upt_rec_numeral)
  have s1: "same_refs k k1"
    by (rule ofold_same_refs [OF a])
      (auto simp: obind_eq_Ret same_refs_def split: if_splits dest!: bfree_inode)
  have s2: "same_refs k1 k2"
  proof (cases "i_addrs (k_inode k1 ip) NDIRECT = 0")
    case True
    with b show ?thesis by (simp add: same_refs_def)
  next
    case False
    with b obtain bp k3 k4 k5 k6 where d:
      "fs_bread ?dev (i_addrs (k_inode k1 ip) NDIRECT) k1 = Ret (bp, k3)"
      "ofold (\<lambda>j k. let a = load32 (fs_data bp k) (4 * j) in
              if a \<noteq> 0 then bfree ?dev a k else Ret k) [0..<NINDIRECT] k3 = Ret k4"
      "fs_brelse bp k4 = Ret k5" "bfree ?dev (i_addrs (k_inode k1 ip) NDIRECT) k5 = Ret k6"
      "k2 = upd_inode ip (\<lambda>x. x\<lparr>i_addrs := (i_addrs x)(NDIRECT := 0)\<rparr>) k6"
      by (auto simp: obind_eq_Ret Let_def simp del: upt_rec_numeral)
    have "same_refs k3 k4"
      by (rule ofold_same_refs [OF d(2)])
        (auto simp: Let_def same_refs_refl split: if_splits dest: bfree_inode)
    moreover have "same_refs k1 k3" using fs_bread_inode [OF d(1)] by (rule same_refs_refl)
    moreover have "same_refs k4 k2"
      using fs_brelse_inode [OF d(3)] bfree_inode [OF d(4)] d(5) by (simp add: same_refs_def)
    ultimately show ?thesis using same_refs_trans by blast
  qed
  have s3: "same_refs k2 k'" using iupdate_inode [OF c] by (simp add: same_refs_def)
  show ?thesis using s1 s2 s3 same_refs_trans by blast
qed

lemma ilock_refs:
  assumes "ilock ip k = Ret k'"
  shows "same_refs k k'"
proof -
  from assms obtain lk where ref: "\<not> i_ref (k_inode k ip) < 1"
    and lk: "acquiresleep (p_pid (cur_proc k)) (i_lock (k_inode k ip)) = Ret lk"
    by (auto simp: ilock_def obind_eq_Ret split: if_splits)
  define k0 where "k0 = upd_inode ip (\<lambda>x. x\<lparr>i_lock := lk\<rparr>) k"
  have e: "ilock ip k =
      (if i_valid (k_inode k0 ip) then Ret k0
       else
         obind (fs_bread (i_dev (k_inode k0 ip)) (IBLOCK (i_inum (k_inode k0 ip)) k0) k0) (\<lambda>(bp, k1).
         obind (fs_brelse bp (upd_inode ip (get_dinode (fs_data bp k1) (dinode_off (i_inum (k_inode k0 ip)))) k1)) (\<lambda>k2.
         let k3 = upd_inode ip (\<lambda>x. x\<lparr>i_valid := True\<rparr>) k2 in
         if i_type (k_inode k3 ip) = 0 then opanic ''ilock: no type'' else Ret k3)))"
    using ref by (simp add: ilock_def lk Let_def k0_def)
  have s0: "same_refs k k0" by (simp add: k0_def same_refs_def)
  show ?thesis
  proof (cases "i_valid (k_inode k0 ip)")
    case True
    with assms [unfolded e] s0 show ?thesis by simp
  next
    case False
    from assms [unfolded e] False obtain bp k1 k2 p where
      r: "fs_bread (i_dev (k_inode k0 ip)) (IBLOCK (i_inum (k_inode k0 ip)) k0) k0 = Ret (bp, k1)"
        "fs_brelse bp (upd_inode ip (get_dinode (fs_data bp k1) p) k1) = Ret k2"
        "k' = upd_inode ip (\<lambda>x. x\<lparr>i_valid := True\<rparr>) k2"
      by (auto simp: obind_eq_Ret Let_def split: if_splits)
    have "same_refs k0 k1" using fs_bread_inode [OF r(1)] by (rule same_refs_refl)
    moreover have "same_refs k1 k'"
      using fs_brelse_inode [OF r(2)] r(3) by (simp add: same_refs_def get_dinode_def)
    ultimately show ?thesis using s0 same_refs_trans by blast
  qed
qed

lemma iunlock_refs: "iunlock ip k = Ret k' \<Longrightarrow> same_refs k k'"
  by (auto simp: iunlock_def same_refs_def split: if_splits)

text \<open>Dropping a reference: whatever else iput() does, one reference to \<open>ip\<close> is gone.\<close>

lemma iput_refs:
  assumes "iput ip k = Ret k'"
  shows "\<exists>k1. same_refs k k1 \<and> k' = upd_inode ip (\<lambda>x. x\<lparr>i_ref := i_ref x - 1\<rparr>) k1"
proof (cases "i_ref (k_inode k ip) = 1 \<and> i_valid (k_inode k ip) \<and> i_nlink (k_inode k ip) = 0")
  case True
  with assms obtain lk k1 k2 where
    a: "itrunc ip (upd_inode ip (\<lambda>x. x\<lparr>i_lock := lk\<rparr>) k) = Ret k1"
      "iupdate ip (upd_inode ip (\<lambda>x. x\<lparr>i_type := 0\<rparr>) k1) = Ret k2"
      "k' = upd_inode ip (\<lambda>x. x\<lparr>i_ref := i_ref x - 1\<rparr>)
         (upd_inode ip (\<lambda>x. x\<lparr>i_lock := releasesleep (i_lock x), i_valid := False\<rparr>) k2)"
    by (auto simp: iput_def obind_eq_Ret Let_def)
  have "same_refs k (upd_inode ip (\<lambda>x. x\<lparr>i_lock := lk\<rparr>) k)" by (rule same_refs_upd) simp
  moreover note itrunc_refs [OF a(1)]
  moreover have "same_refs k1 (upd_inode ip (\<lambda>x. x\<lparr>i_lock := releasesleep (i_lock x), i_valid := False\<rparr>) k2)"
    using iupdate_inode [OF a(2)] by (simp add: same_refs_def)
  ultimately show ?thesis using a(3) same_refs_trans by blast
next
  case False
  with assms show ?thesis by (auto simp: iput_def Let_def intro: same_refs_refl)
qed

text \<open>No two entries in use stand for the same inode.\<close>

definition one_entry :: "kernel \<Rightarrow> bool" where
  "one_entry k \<longleftrightarrow> (\<forall>i j. i < NINODE \<and> j < NINODE \<and> i_ref (k_inode k i) > 0 \<and> i_ref (k_inode k j) > 0 \<and>
     i_dev (k_inode k i) = i_dev (k_inode k j) \<and> i_inum (k_inode k i) = i_inum (k_inode k j) \<longrightarrow> i = j)"

lemma one_entry_less:
  assumes "one_entry k" and "\<And>i. i_ref (k_inode k' i) > 0 \<Longrightarrow> i_ref (k_inode k i) > 0"
    and "\<And>i. i_dev (k_inode k' i) = i_dev (k_inode k i)" and "\<And>i. i_inum (k_inode k' i) = i_inum (k_inode k i)"
  shows "one_entry k'"
  unfolding one_entry_def assms(3,4) using assms(1,2) unfolding one_entry_def by blast

lemma one_entry_same: "same_refs k k' \<Longrightarrow> one_entry k \<Longrightarrow> one_entry k'"
  by (rule one_entry_less [of k]) (auto simp: same_refs_def)

lemma one_entry_fewer:
  "one_entry k \<Longrightarrow> one_entry (upd_inode ip (\<lambda>x. x\<lparr>i_ref := i_ref x - 1\<rparr>) k)"
  by (rule one_entry_less [of k]) (auto split: if_splits)

lemma one_entry_dup:
  "one_entry k \<Longrightarrow> i_ref (k_inode k ip) > 0 \<Longrightarrow> one_entry (upd_inode ip (\<lambda>x. x\<lparr>i_ref := i_ref x + 1\<rparr>) k)"
  by (rule one_entry_less [of k]) (auto split: if_splits)

lemma one_entry_iget:
  assumes "iget dev inum k = Ret (ip, k')" and "one_entry k"
  shows "one_entry k'"
proof (cases "scan (\<lambda>i. i_ref (k_inode k i) > 0 \<and> i_dev (k_inode k i) = dev \<and> i_inum (k_inode k i) = inum) 0 NINODE")
  case None
  then have none: "\<not> (i_ref (k_inode k i) > 0 \<and> i_dev (k_inode k i) = dev \<and> i_inum (k_inode k i) = inum)"
    if "i < NINODE" for i
    using that by (auto simp: scan_None_iff)
  from None assms(1) have
    "k' = upd_inode ip (\<lambda>x. x\<lparr>i_dev := dev, i_inum := inum, i_ref := 1, i_valid := False\<rparr>) k"
    by (auto simp: iget_def split: option.splits)
  then show ?thesis using assms(2) none unfolding one_entry_def by (auto split: if_splits)
next
  case (Some i)
  then have "k' = upd_inode i (\<lambda>x. x\<lparr>i_ref := i_ref x + 1\<rparr>) k" using assms(1) by (auto simp: iget_def)
  moreover have "i_ref (k_inode k i) > 0" using Some by (auto simp: scan_Some_iff)
  ultimately show ?thesis using one_entry_dup [OF assms(2)] by simp
qed

lemma ialloc_loop_entry:
  "ialloc_loop dev type inum k = Ret (r, k') \<Longrightarrow> one_entry k \<Longrightarrow> one_entry k'"
proof (induction dev type inum k rule: ialloc_loop.induct)
  case (1 dev type inum k)
  note unfold = ialloc_loop.simps [of dev type inum k]
  show ?case
  proof (cases "inum < unat (sb_ninodes (k_sb k))")
    case True
    with "1.prems"(1) obtain bp k1 where b: "fs_bread dev (IBLOCK (of_nat inum) k) k = Ret (bp, k1)"
      by (auto simp: unfold obind_eq_Ret)
    have k1: "one_entry k1"
      using one_entry_same [OF same_refs_refl [OF fs_bread_inode [OF b]] "1.prems"(2)] .
    show ?thesis
    proof (cases "load16 (fs_data bp k1) (dinode_off (of_nat inum)) = 0")
      case z: True
      with "1.prems"(1) True b obtain d k2 k3 ip where
        l: "fs_log_write bp (fs_put bp d k1) = Ret k2" "fs_brelse bp k2 = Ret k3"
          "iget dev (of_nat inum) k3 = Ret (ip, k')"
        by (auto simp: unfold obind_eq_Ret Let_def)
      have "k_inode k3 = k_inode k1" using l by (auto dest!: keeps_inode)
      from one_entry_iget [OF l(3) one_entry_same [OF same_refs_refl [OF this] k1]] show ?thesis .
    next
      case z: False
      with "1.prems"(1) True b obtain k2 where
        l: "fs_brelse bp k1 = Ret k2" "ialloc_loop dev type (Suc inum) k2 = Ret (r, k')"
        by (auto simp: unfold obind_eq_Ret Let_def)
      have "one_entry k2" using one_entry_same [OF same_refs_refl [OF fs_brelse_inode [OF l(1)]] k1] .
      then show ?thesis using "1.IH" [OF True b refl refl refl z l(1) l(2)] by blast
    qed
  next
    case False
    with "1.prems" obtain k1 where "kprintf (''ialloc: no inodes'' @ NL) [] k = Ret k1" "k' = k1"
      by (auto simp: unfold obind_eq_Ret)
    then show ?thesis using one_entry_same [OF same_refs_refl] kprintf_inode "1.prems"(2) by blast
  qed
qed

text \<open>
  One operation of the inode layer by any process. idup() is for a caller that holds a
  reference.
\<close>

inductive inode_step :: "kernel \<Rightarrow> kernel \<Rightarrow> bool" where
  get: "iget dev inum k = Ret (ip, k') \<Longrightarrow> inode_step k k'"
| alloc: "ialloc dev type k = Ret (r, k') \<Longrightarrow> inode_step k k'"
| dup: "\<lbrakk>i_ref (k_inode k ip) > 0; idup ip k = (ip, k')\<rbrakk> \<Longrightarrow> inode_step k k'"
| lock: "ilock ip k = Ret k' \<Longrightarrow> inode_step k k'"
| unlock: "iunlock ip k = Ret k' \<Longrightarrow> inode_step k k'"
| put: "iput ip k = Ret k' \<Longrightarrow> inode_step k k'"
| trunc: "itrunc ip k = Ret k' \<Longrightarrow> inode_step k k'"
| update: "iupdate ip k = Ret k' \<Longrightarrow> inode_step k k'"
| "read": "readi ip u dst off n k = Ret (r, k') \<Longrightarrow> inode_step k k'"
| "write": "writei ip u src off n k = Ret (r, k') \<Longrightarrow> inode_step k k'"

lemma writei_refs: "writei ip u src off n k = Ret (r, k') \<Longrightarrow> same_refs k k'"
proof -
  assume w: "writei ip u src off n k = Ret (r, k')"
  show ?thesis
  proof (cases "off > i_size (k_inode k ip) \<or> off + n < off \<or> unat (off + n) > MAXFILE * BSIZE")
    case True
    with w show ?thesis by (auto simp: writei_def same_refs_def split: if_splits)
  next
    case False
    with w obtain off' t k1 k2 where
      "writei_loop ip u src (unat off) 0 (unat n) k = Ret (off', t, k1)" and
      "iupdate ip (if off' > unat (i_size (k_inode k1 ip))
                 then upd_inode ip (\<lambda>x. x\<lparr>i_size := of_nat off'\<rparr>) k1 else k1) = Ret k2" "k' = k2"
      by (auto simp: writei_def obind_eq_Ret Let_def)
    then have "only_addrs k k1" "same_refs k1 k'"
      by (auto simp: same_refs_def dest!: writei_loop_only iupdate_inode)
    then show ?thesis using only_addrs_refs same_refs_trans by blast
  qed
qed

lemma readi_refs: "readi ip u dst off n k = Ret (r, k') \<Longrightarrow> same_refs k k'"
  by (auto simp: readi_def Let_def same_refs_def dest!: readi_loop_only only_addrs_refs split: if_splits)

lemma one_entry_step: "inode_step k k' \<Longrightarrow> one_entry k \<Longrightarrow> one_entry k'"
proof (induction rule: inode_step.induct)
  case (alloc dev type k r k')
  then show ?case using ialloc_loop_entry by (auto simp: ialloc_def)
next
  case (dup k ip k')
  then show ?case using one_entry_dup by (auto simp: idup_def)
next
  case (put ip k k')
  then show ?case using iput_refs one_entry_same one_entry_fewer by metis
next
  case (update ip k k')
  then show ?case using one_entry_same same_refs_refl iupdate_inode by blast
qed (blast intro: one_entry_iget one_entry_same ilock_refs iunlock_refs itrunc_refs readi_refs writei_refs)+

text \<open>
  C12. The inode table never holds an inode twice: from a table without references, whatever
  sequence of inode operations the processes run, two entries in use never stand for the same
  inode of the same device, so all processes that open a file share one entry and its lock.
\<close>

theorem inode_entries_unique:
  assumes "\<forall>i. i_ref (k_inode k0 i) = 0" and "inode_step\<^sup>*\<^sup>* k0 k"
    and "i < NINODE" and "j < NINODE" and "i_ref (k_inode k i) > 0" and "i_ref (k_inode k j) > 0"
    and "i_dev (k_inode k i) = i_dev (k_inode k j)" and "i_inum (k_inode k i) = i_inum (k_inode k j)"
  shows "i = j"
proof -
  from assms(2) have "one_entry k"
    by (induction rule: rtranclp_induct) (use assms(1) one_entry_step in \<open>auto simp: one_entry_def\<close>)
  then show ?thesis using assms(3-) by (simp add: one_entry_def)
qed

theorem inode_entries_unique_witness:
  "\<exists>k1 k2. iget 1 7 demo_kernel = Ret (0, k1) \<and> iget 1 7 k1 = Ret (0, k2) \<and> i_ref (k_inode k2 0) = 2"
proof -
  define k1 where "k1 = upd_inode 0 (\<lambda>x. x\<lparr>i_dev := 1, i_inum := 7, i_ref := 1, i_valid := False\<rparr>) demo_kernel"
  have free: "\<forall>i. i_ref (k_inode demo_kernel i) = 0" by (simp add: demo_kernel_def free_inode_def)
  have a: "iget 1 7 demo_kernel = Ret (0, k1)"
  proof -
    have "scan (\<lambda>i. i_ref (k_inode demo_kernel i) > 0 \<and> i_dev (k_inode demo_kernel i) = 1 \<and>
        i_inum (k_inode demo_kernel i) = 7) 0 NINODE = None"
      using free by (simp add: scan_None_iff)
    moreover have "scan (\<lambda>i. i_ref (k_inode demo_kernel i) = 0) 0 NINODE = Some 0"
      using free by (simp add: scan_Some_iff)
    ultimately show ?thesis by (simp add: iget_def k1_def)
  qed
  have "scan (\<lambda>i. i_ref (k_inode k1 i) > 0 \<and> i_dev (k_inode k1 i) = 1 \<and> i_inum (k_inode k1 i) = 7) 0 NINODE \<noteq> None"
    by (auto simp: scan_None_iff k1_def)
  then obtain ip where s: "scan (\<lambda>i. i_ref (k_inode k1 i) > 0 \<and> i_dev (k_inode k1 i) = 1 \<and>
      i_inum (k_inode k1 i) = 7) 0 NINODE = Some ip" by blast
  then have ip: "ip < NINODE" "i_ref (k_inode k1 ip) > 0" "i_dev (k_inode k1 ip) = 1" "i_inum (k_inode k1 ip) = 7"
    by (auto simp: scan_Some_iff)
  have st: "inode_step\<^sup>*\<^sup>* demo_kernel k1" using inode_step.get [OF a] by blast
  have z: "(0::nat) < NINODE" "i_ref (k_inode k1 0) > 0" "i_dev (k_inode k1 0) = 1" "i_inum (k_inode k1 0) = 7"
    by (simp_all add: k1_def)
  have "ip = 0"
    by (rule inode_entries_unique [OF free st ip(1) z(1) ip(2) z(2)]) (simp_all only: ip z)
  then have "iget 1 7 k1 = Ret (0, upd_inode 0 (\<lambda>x. x\<lparr>i_ref := i_ref x + 1\<rparr>) k1)"
    using s by (simp only: iget_def option.case)
  moreover have "i_ref (k_inode (upd_inode 0 (\<lambda>x. x\<lparr>i_ref := i_ref x + 1\<rparr>) k1) 0) = 2" by (simp add: k1_def)
  ultimately show ?thesis using a by blast
qed

section \<open>Elements of a path\<close>

text \<open>
  The elements of a path, found character by character: \<open>cur\<close> is the element being read. This is
  what a path means, without the pointer arithmetic of skipelem().
\<close>

fun path_elems :: "u8 list \<Rightarrow> u8 list \<Rightarrow> u8 list list" where
  "path_elems cur [] = (if cur = [] then [] else [cur])"
| "path_elems cur (c # cs) =
     (if c = slash then (if cur = [] then path_elems [] cs else cur # path_elems [] cs)
      else path_elems (cur @ [c]) cs)"

lemma path_elems_slashes: "path_elems [] (dropWhile (\<lambda>c. c = slash) p) = path_elems [] p"
  by (induction p) auto

lemma path_elems_word:
  "slash \<notin> set e \<Longrightarrow> path_elems cur (e @ r) = path_elems (cur @ e) r"
  by (induction e arbitrary: cur) auto

lemma path_elems_end:
  assumes "e \<noteq> []" and "r = [] \<or> hd r = slash"
  shows "path_elems e r = e # path_elems [] (dropWhile (\<lambda>c. c = slash) r)"
  using assms path_elems_slashes by (cases r) auto

text \<open>The characters of a directory name: up to DIRSIZ of them, or up to the zero byte.\<close>

definition dir_chars :: "bytes \<Rightarrow> u8 list" where
  "dir_chars name = takeWhile (\<lambda>c. c \<noteq> 0) (map name [0..<DIRSIZ])"

lemma dir_chars_eq:
  assumes "\<And>i. i < length xs \<Longrightarrow> i < DIRSIZ \<Longrightarrow> name i = xs ! i" and "0 \<notin> set xs"
    and "length xs < DIRSIZ \<Longrightarrow> name (length xs) = 0"
  shows "dir_chars name = take DIRSIZ xs"
proof -
  have "dir_chars name = take (min DIRSIZ (length xs)) (map name [0..<DIRSIZ])"
    unfolding dir_chars_def
  proof (rule takeWhile_eq_take_P_nth)
    fix i assume i: "i < min DIRSIZ (length xs)" "i < length (map name [0..<DIRSIZ])"
    then have "name i = xs ! i" using assms(1) by simp
    moreover have "xs ! i \<in> set xs" using i by simp
    ultimately show "map name [0..<DIRSIZ] ! i \<noteq> 0" using assms(2) i by (metis add_0 diff_zero length_map length_upt nth_map_upt)
  qed (use assms(3) in \<open>auto simp: min_def split: if_splits\<close>)
  also have "\<dots> = take DIRSIZ xs"
    by (rule nth_equalityI) (use assms(1) in auto)
  finally show ?thesis .
qed

text \<open>
  C15. skipelem() reads a path from the front: it fails exactly when the path has no element
  left, and otherwise leaves the first element, cut to DIRSIZ characters, in the name buffer and
  returns a path with the remaining elements.
\<close>

theorem skipelem_elements:
  assumes "0 \<notin> set path"
  shows "case skipelem path name of
      None \<Rightarrow> path_elems [] path = []
    | Some (rest, name') \<Rightarrow> \<exists>e. path_elems [] path = e # path_elems [] rest \<and> dir_chars name' = take DIRSIZ e"
proof -
  define s where "s = dropWhile (\<lambda>c. c = slash) path"
  have p: "path_elems [] path = path_elems [] s" by (simp add: s_def path_elems_slashes)
  show ?thesis
  proof (cases "s = []")
    case True
    then show ?thesis using p by (simp add: skipelem_def s_def [symmetric])
  next
    case False
    define e where "e = takeWhile (\<lambda>c. c \<noteq> slash) s"
    define r where "r = dropWhile (\<lambda>c. c \<noteq> slash) s"
    have se: "s = e @ r" by (simp add: e_def r_def)
    have "hd s \<noteq> slash" using hd_dropWhile [of "\<lambda>c. c = slash" path] False by (simp add: s_def)
    then have e: "e \<noteq> []" using False by (cases s) (auto simp: e_def)
    have "slash \<notin> set e" by (auto simp: e_def dest: set_takeWhileD)
    moreover have "r = [] \<or> hd r = slash" using hd_dropWhile [of "\<lambda>c. c \<noteq> slash" s] by (auto simp: r_def)
    ultimately have el: "path_elems [] path = e # path_elems [] (dropWhile (\<lambda>c. c = slash) r)"
      using p se path_elems_word [of e "[]" r] path_elems_end [OF e] by simp
    have "set e \<subseteq> set s" by (auto simp: e_def dest: set_takeWhileD)
    also have "set s \<subseteq> set path" by (auto simp: s_def dest: set_dropWhileD)
    finally have z: "0 \<notin> set e" using assms by blast
    define n' where "n' = (if length e \<ge> DIRSIZ then copy_range name 0 (bytes_of e) 0 DIRSIZ
                    else (copy_range name 0 (bytes_of e) 0 (length e))(length e := 0))"
    have "dir_chars n' = take DIRSIZ e"
    proof (rule dir_chars_eq)
      fix i assume "i < length e" "i < DIRSIZ"
      then show "n' i = e ! i" by (cases "length e \<ge> DIRSIZ") (simp_all add: n'_def copy_range_def bytes_of_def)
    next
      assume "length e < DIRSIZ"
      then show "n' (length e) = 0" by (simp add: n'_def)
    qed (rule z)
    moreover have "skipelem path name = Some (dropWhile (\<lambda>c. c = slash) r, n')"
      using False by (simp add: skipelem_def s_def [symmetric] e_def [symmetric] r_def [symmetric] n'_def Let_def)
    ultimately show ?thesis using el by simp
  qed
qed

theorem skipelem_elements_witness:
  "path_elems [] [slash, slash, 97, 98, slash, 99] = [[97, 98], [99]] \<and>
   (case skipelem [slash, slash, 97, 98, slash, 99] (\<lambda>_. 0) of
      None \<Rightarrow> False | Some (rest, name') \<Rightarrow> dir_chars name' = [97, 98])"
  using skipelem_elements [of "[slash, slash, 97, 98, slash, 99]" "\<lambda>_. 0"]
  by (auto simp: skipelem_def Let_def)

end
