(* ===== verification/Xv6_Mkfs.thy ===== *)
theory Xv6_Mkfs
  imports Xv6_Inodes
begin

text \<open>
  The file system image builder, mkfs/mkfs.c, a program of the host. Its image is a function from
  sectors to their bytes with the number of sectors the image file has. A read beyond its end is short
  and ends the program through die(), which is Panic with its message, and so does a failed assertion. A
  seek, a write and opening an input file do not fail in the model. xshort() and xint() store
  numbers in the byte order of the target, which is how load and store (Xv6_Bytes) read them. The
  property is that a file is what has been appended to it, read through the same block map the kernel
  uses, or that the image was too small.
\<close>

section \<open>The image\<close>

record image =
  sector :: "u32 \<Rightarrow> bytes"
  sectors :: nat
  freeinode :: u32
  freeblock :: u32

abbreviation NINODES :: nat where "NINODES \<equiv> 200"

definition mk_nbitmap :: nat where "mk_nbitmap = FSSIZE div (BSIZE * 8) + 1"
definition mk_ninodeblocks :: nat where "mk_ninodeblocks = NINODES div IPB + 1"
definition mk_nlog :: nat where "mk_nlog = 30"
definition mk_nmeta :: nat where "mk_nmeta = 2 + mk_nlog + mk_ninodeblocks + mk_nbitmap"

text \<open>The superblock main() writes.\<close>

definition mk_sb :: superblock where
  "mk_sb = \<lparr>sb_magic = FSMAGIC, sb_size = of_nat FSSIZE, sb_nblocks = of_nat (FSSIZE - mk_nmeta),
     sb_ninodes = of_nat NINODES, sb_nlog = of_nat mk_nlog, sb_logstart = 2,
     sb_inodestart = of_nat (2 + mk_nlog), sb_bmapstart = of_nat (2 + mk_nlog + mk_ninodeblocks)\<rparr>"

text \<open>
  The sector at the offset lseek() is given, which is computed in 32 bits. A write beyond the end makes the
  file longer; what lies between reads as zero.
\<close>

definition seek_to :: "u32 \<Rightarrow> u32" where
  "seek_to sec = (sec * of_nat BSIZE) div of_nat BSIZE"

definition wsect :: "u32 \<Rightarrow> bytes \<Rightarrow> image \<Rightarrow> image" where
  "wsect sec buf img =
     img\<lparr>sector := (sector img)(seek_to sec := buf), sectors := max (sectors img) (unat (seek_to sec) + 1)\<rparr>"

definition rsect :: "u32 \<Rightarrow> image \<Rightarrow> bytes outcome" where
  "rsect sec img =
     (if unat (seek_to sec) < sectors img then Ret (sector img (seek_to sec)) else opanic ''read'')"

section \<open>Inodes\<close>

definition mk_iblock :: "u32 \<Rightarrow> u32" where
  "mk_iblock inum = inum div of_nat IPB + sb_inodestart mk_sb"

definition winode :: "u32 \<Rightarrow> inode \<Rightarrow> image \<Rightarrow> image outcome" where
  "winode inum ip img =
     (let bn = mk_iblock inum in
      obind (rsect bn img) (\<lambda>buf. Ret (wsect bn (put_dinode ip (dinode_off inum) buf) img)))"

definition rinode :: "u32 \<Rightarrow> image \<Rightarrow> inode outcome" where
  "rinode inum img =
     obind (rsect (mk_iblock inum) img) (\<lambda>buf. Ret (get_dinode buf (dinode_off inum) free_inode))"

definition mk_ialloc :: "u16 \<Rightarrow> image \<Rightarrow> (u32 \<times> image) outcome" where
  "mk_ialloc type img =
     (let inum = freeinode img; img = img\<lparr>freeinode := inum + 1\<rparr>
      in obind (winode inum (free_inode\<lparr>i_type := type, i_nlink := 1, i_size := 0\<rparr>) img) (\<lambda>img. Ret (inum, img)))"

section \<open>The bitmap\<close>

definition mk_balloc :: "nat \<Rightarrow> image \<Rightarrow> image outcome" where
  "mk_balloc used img =
     (if \<not> used < BSIZE * 8 then opanic ''used < BSIZE*8''
      else Ret (wsect (sb_bmapstart mk_sb)
        (fold (\<lambda>i buf. buf(i div 8 := buf (i div 8) OR push_bit (i mod 8) 1)) [0..<used] (\<lambda>_. 0)) img))"

section \<open>Appending to a file\<close>

text \<open>
  The first half of the loop of iappend(): the sector of block \<open>fbn\<close>, taken from \<open>freeblock\<close> when
  the file has none yet. \<open>din\<close> is the inode in memory.
\<close>

definition mk_block :: "nat \<Rightarrow> inode \<Rightarrow> image \<Rightarrow> (u32 \<times> inode \<times> image) outcome" where
  "mk_block fbn din img =
     (if fbn < NDIRECT then
        (let (din, img) =
           (if i_addrs din fbn = 0
            then (din\<lparr>i_addrs := (i_addrs din)(fbn := freeblock img)\<rparr>, img\<lparr>freeblock := freeblock img + 1\<rparr>)
            else (din, img))
         in Ret (i_addrs din fbn, din, img))
      else
        (let (din, img) =
           (if i_addrs din NDIRECT = 0
            then (din\<lparr>i_addrs := (i_addrs din)(NDIRECT := freeblock img)\<rparr>, img\<lparr>freeblock := freeblock img + 1\<rparr>)
            else (din, img));
             a = i_addrs din NDIRECT; k = 4 * (fbn - NDIRECT)
         in obind (rsect a img) (\<lambda>indirect.
            if load32 indirect k = 0 then
              let indirect = store32 indirect k (freeblock img); img = img\<lparr>freeblock := freeblock img + 1\<rparr>
              in Ret (load32 indirect k, din, wsect a indirect img)
            else Ret (load32 indirect k, din, img))))"

text \<open>The bytes \<open>xs\<close> copied into a buffer at \<open>a\<close>.\<close>

definition put_list :: "nat \<Rightarrow> u8 list \<Rightarrow> bytes \<Rightarrow> bytes" where
  "put_list a xs buf = (\<lambda>i. if a \<le> i \<and> i < a + length xs then xs ! (i - a) else buf i)"

function iappend_loop :: "inode \<Rightarrow> nat \<Rightarrow> u8 list \<Rightarrow> image \<Rightarrow> (inode \<times> nat \<times> image) outcome" where
  "iappend_loop din off p img =
     (if p = [] then Ret (din, off, img)
      else
        let fbn = off div BSIZE in
        if \<not> fbn < MAXFILE then opanic ''fbn < MAXFILE''
        else
          obind (mk_block fbn din img) (\<lambda>(x, din, img).
          let n1 = min (length p) ((fbn + 1) * BSIZE - off) in
          obind (rsect x img) (\<lambda>buf.
          let buf = put_list (off - fbn * BSIZE) (take n1 p) buf
          in iappend_loop din (off + n1) (drop n1 p) (wsect x buf img))))"
  by pat_completeness auto
termination
proof (relation "measure (\<lambda>(din, off, p, img). length p)", goal_cases)
  case (2 din off p img)
  have "off < (off div BSIZE + 1) * BSIZE" using dividend_less_times_div [of BSIZE off] by simp
  with 2 show ?case by auto
qed simp

declare iappend_loop.simps [simp del]

definition iappend :: "u32 \<Rightarrow> u8 list \<Rightarrow> image \<Rightarrow> image outcome" where
  "iappend inum p img =
     obind (rinode inum img) (\<lambda>din.
     obind (iappend_loop din (unat (i_size din)) p img) (\<lambda>(din, off, img).
     winode inum (din\<lparr>i_size := of_nat off\<rparr>) img))"

section \<open>Inside the image\<close>

text \<open>
  An image whose offsets fit in 32 bits and where \<open>freeblock\<close> is at most the end. Below the end a sector is
  what it was last written, and writing it leaves the size alone.
\<close>

definition image_ok :: "image \<Rightarrow> bool" where
  "image_ok img \<longleftrightarrow> unat (freeblock img) \<le> sectors img \<and> sectors img < 2 ^ 22"

definition put_sector :: "u32 \<Rightarrow> bytes \<Rightarrow> image \<Rightarrow> image" where
  "put_sector x buf img = img\<lparr>sector := (sector img)(x := buf)\<rparr>"

lemma seek_to_small: "unat x < 2 ^ 22 \<Longrightarrow> seek_to x = x"
proof -
  assume x: "unat x < 2 ^ 22"
  then have "unat (x * 1024) = unat x * 1024" by (simp add: unat_word_ariths)
  then have "unat (seek_to x) = unat x" by (simp add: seek_to_def unat_div)
  then show ?thesis by (simp add: word_unat_eq_iff)
qed

lemma rsect_small: "unat x < 2 ^ 22 \<Longrightarrow> rsect x img = (if unat x < sectors img then Ret (sector img x) else opanic ''read'')"
  by (simp add: rsect_def seek_to_small)

lemma wsect_inside: "\<lbrakk>unat x < sectors img; sectors img < 2 ^ 22\<rbrakk> \<Longrightarrow> wsect x buf img = put_sector x buf img"
  by (simp add: wsect_def put_sector_def seek_to_small max_absorb1)

text \<open>The choice of a sector when every access is inside the image.\<close>

definition pick_block :: "nat \<Rightarrow> inode \<Rightarrow> image \<Rightarrow> u32 \<times> inode \<times> image" where
  "pick_block fbn din img =
     (if fbn < NDIRECT then
        (if i_addrs din fbn = 0
         then (freeblock img, din\<lparr>i_addrs := (i_addrs din)(fbn := freeblock img)\<rparr>, img\<lparr>freeblock := freeblock img + 1\<rparr>)
         else (i_addrs din fbn, din, img))
      else
        (let (din, img) =
           (if i_addrs din NDIRECT = 0
            then (din\<lparr>i_addrs := (i_addrs din)(NDIRECT := freeblock img)\<rparr>, img\<lparr>freeblock := freeblock img + 1\<rparr>)
            else (din, img));
             a = i_addrs din NDIRECT; k = 4 * (fbn - NDIRECT)
         in if load32 (sector img a) k = 0 then
              (freeblock img, din, put_sector a (store32 (sector img a) k (freeblock img)) (img\<lparr>freeblock := freeblock img + 1\<rparr>))
            else (load32 (sector img a) k, din, img)))"

section \<open>The bytes of a file\<close>

text \<open>The sector of a block of the file, or 0, and a byte of the file, as bmap() and readi() find them.\<close>

definition fblk :: "image \<Rightarrow> inode \<Rightarrow> nat \<Rightarrow> u32" where
  "fblk img din f =
     (if f < NDIRECT then i_addrs din f
      else if i_addrs din NDIRECT = 0 then 0
      else load32 (sector img (i_addrs din NDIRECT)) (4 * (f - NDIRECT)))"

definition fbyte :: "image \<Rightarrow> inode \<Rightarrow> nat \<Rightarrow> u8" where
  "fbyte img din j = sector img (fblk img din (j div BSIZE)) (j mod BSIZE)"

text \<open>
  A file in the image: its sectors are taken and different, those not taken are still zero, and it
  has a sector for every block below \<open>off\<close>.
\<close>

definition used_sector :: "image \<Rightarrow> u32 \<Rightarrow> bool" where
  "used_sector img x \<longleftrightarrow> of_nat mk_nmeta \<le> x \<and> x < freeblock img"

definition file_ok :: "image \<Rightarrow> inode \<Rightarrow> nat \<Rightarrow> bool" where
  "file_ok img din off \<longleftrightarrow>
     of_nat mk_nmeta \<le> freeblock img \<and>
     (\<forall>f < MAXFILE. fblk img din f \<noteq> 0 \<longrightarrow> used_sector img (fblk img din f)) \<and>
     (i_addrs din NDIRECT \<noteq> 0 \<longrightarrow> used_sector img (i_addrs din NDIRECT)) \<and>
     (\<forall>f < MAXFILE. fblk img din f \<noteq> 0 \<longrightarrow> fblk img din f \<noteq> i_addrs din NDIRECT) \<and>
     (\<forall>f < MAXFILE. \<forall>g < MAXFILE. f \<noteq> g \<longrightarrow> fblk img din f \<noteq> 0 \<longrightarrow> fblk img din f \<noteq> fblk img din g) \<and>
     (\<forall>x \<ge> freeblock img. sector img x = (\<lambda>_. 0)) \<and>
     (\<forall>f < MAXFILE. f * BSIZE < off \<longrightarrow> fblk img din f \<noteq> 0)"

lemma file_okD:
  assumes "file_ok img din off"
  shows "of_nat mk_nmeta \<le> freeblock img"
    "\<And>f. f < MAXFILE \<Longrightarrow> fblk img din f \<noteq> 0 \<Longrightarrow> used_sector img (fblk img din f)"
    "i_addrs din NDIRECT \<noteq> 0 \<Longrightarrow> used_sector img (i_addrs din NDIRECT)"
    "\<And>f. f < MAXFILE \<Longrightarrow> fblk img din f \<noteq> 0 \<Longrightarrow> fblk img din f \<noteq> i_addrs din NDIRECT"
    "\<And>f g. f < MAXFILE \<Longrightarrow> g < MAXFILE \<Longrightarrow> f \<noteq> g \<Longrightarrow> fblk img din f \<noteq> 0 \<Longrightarrow> fblk img din f \<noteq> fblk img din g"
    "\<And>x. freeblock img \<le> x \<Longrightarrow> sector img x = (\<lambda>_. 0)"
    "\<And>f. f < MAXFILE \<Longrightarrow> f * BSIZE < off \<Longrightarrow> fblk img din f \<noteq> 0"
  using assms unfolding file_ok_def by blast+

lemma next_block: "unat b + 1 < 2 ^ 32 \<Longrightarrow> unat (b + 1 :: u32) = unat b + 1"
  by (subst unat_plus_simple [THEN iffD1]) (simp_all add: no_olen_add_nat)

lemma nmeta_pos: "of_nat mk_nmeta \<le> b \<Longrightarrow> b \<noteq> (0 :: u32)"
  by (auto simp: mk_nmeta_def mk_nlog_def mk_ninodeblocks_def mk_nbitmap_def)

text \<open>A block of the file that had no sector gets the next free one.\<close>

lemma file_ok_add:
  assumes ok: "file_ok img din off" and b: "unat (freeblock img) + 1 < 2 ^ 32"
    and new: "freeblock img' = freeblock img + 1" "fblk img' din' f0 = freeblock img" "fblk img din f0 = 0" "f0 < MAXFILE"
    and same: "\<And>f. f < MAXFILE \<Longrightarrow> f \<noteq> f0 \<Longrightarrow> fblk img' din' f = fblk img din f"
      "i_addrs din' NDIRECT = i_addrs din NDIRECT"
      "\<And>x. freeblock img + 1 \<le> x \<Longrightarrow> sector img' x = sector img x"
  shows "file_ok img' din' off"
proof -
  note k = file_okD [OF ok]
  let ?b = "freeblock img"
  have lt: "?b < ?b + 1" using next_block [OF b] by (simp add: word_less_nat_alt)
  have use: "used_sector img' x" if "used_sector img x" for x
    using that lt new(1) by (auto simp: used_sector_def)
  have useb: "used_sector img' ?b" using k(1) lt new(1) by (simp add: used_sector_def)
  have old: "fblk img din f \<noteq> ?b" if "f < MAXFILE" for f
    using k(2) [OF that] nmeta_pos [OF k(1)] by (cases "fblk img din f = 0") (auto simp: used_sector_def)
  have ind: "i_addrs din NDIRECT \<noteq> ?b"
    using k(3) nmeta_pos [OF k(1)] by (cases "i_addrs din NDIRECT = 0") (auto simp: used_sector_def)
  have F: "fblk img' din' f = (if f = f0 then ?b else fblk img din f)" if "f < MAXFILE" for f
    using same(1) [OF that] new(2) by simp
  show ?thesis unfolding file_ok_def
  proof (intro conjI allI impI)
    show "of_nat mk_nmeta \<le> freeblock img'" using k(1) lt new(1) by simp
    show "used_sector img' (fblk img' din' f)" if "f < MAXFILE" "fblk img' din' f \<noteq> 0" for f
      using that F [OF that(1)] k(2) [OF that(1)] use useb by (simp split: if_splits)
    show "used_sector img' (i_addrs din' NDIRECT)" if "i_addrs din' NDIRECT \<noteq> 0"
      using that k(3) use same(2) by simp
    show "fblk img' din' f \<noteq> i_addrs din' NDIRECT" if "f < MAXFILE" "fblk img' din' f \<noteq> 0" for f
      using that F [OF that(1)] k(4) [OF that(1)] ind same(2) by (auto split: if_splits)
    show "fblk img' din' f \<noteq> fblk img' din' g" if "f < MAXFILE" "g < MAXFILE" "f \<noteq> g" "fblk img' din' f \<noteq> 0" for f g
      using that F [OF that(1)] F [OF that(2)] k(5) [OF that(1-3)] old [OF that(1)] old [OF that(2)] by (auto split: if_splits)
    show "sector img' x = (\<lambda>_. 0)" if "freeblock img' \<le> x" for x
      using that same(3) [of x] k(6) [of x] lt new(1) by auto
    show "fblk img' din' f \<noteq> 0" if "f < MAXFILE" "f * BSIZE < off" for f
      using F [OF that(1)] k(7) [OF that] nmeta_pos [OF k(1)] by simp
  qed
qed

text \<open>The sector of the indirect block.\<close>

lemma file_ok_indirect:
  assumes ok: "file_ok img din off" and b: "unat (freeblock img) + 1 < 2 ^ 32" and z: "i_addrs din NDIRECT = 0"
  defines "din' \<equiv> din\<lparr>i_addrs := (i_addrs din)(NDIRECT := freeblock img)\<rparr>"
    and "img' \<equiv> img\<lparr>freeblock := freeblock img + 1\<rparr>"
  shows "file_ok img' din' off" and "fblk img' din' f = fblk img din f"
proof -
  note k = file_okD [OF ok]
  let ?b = "freeblock img"
  have lt: "?b < ?b + 1" using next_block [OF b] by (simp add: word_less_nat_alt)
  have zero: "sector img ?b = (\<lambda>_. 0)" using k(6) by simp
  have F: "fblk img' din' f = fblk img din f" for f
    using z zero by (simp add: fblk_def din'_def img'_def load32_def)
  then show "fblk img' din' f = fblk img din f" .
  have old: "fblk img din f \<noteq> ?b" if "f < MAXFILE" for f
    using k(2) [OF that] nmeta_pos [OF k(1)] by (cases "fblk img din f = 0") (auto simp: used_sector_def)
  have use: "used_sector img' x" if "used_sector img x" for x
    using that lt by (auto simp: used_sector_def img'_def)
  have useb: "used_sector img' ?b" using k(1) lt by (simp add: used_sector_def img'_def)
  have ind: "i_addrs din' NDIRECT = ?b" by (simp add: din'_def)
  have up: "of_nat mk_nmeta \<le> freeblock img'" "\<And>x. freeblock img' \<le> x \<Longrightarrow> sector img' x = (\<lambda>_. 0)"
    using k(1,6) lt by (auto simp: img'_def)
  show "file_ok img' din' off" unfolding file_ok_def F ind using up k(2,5,7) use useb old by blast
qed

text \<open>The sectors that a block takes: one when it is missing, and another for a missing indirect block.\<close>

definition block_cost :: "nat \<Rightarrow> image \<Rightarrow> inode \<Rightarrow> nat" where
  "block_cost f0 img din =
     (if fblk img din f0 \<noteq> 0 then 0 else if f0 < NDIRECT \<or> i_addrs din NDIRECT \<noteq> 0 then 1 else 2)"

text \<open>What the first half of the loop does, in all its cases.\<close>

definition block_step :: "nat \<Rightarrow> image \<Rightarrow> inode \<Rightarrow> u32 \<Rightarrow> image \<Rightarrow> inode \<Rightarrow> nat \<Rightarrow> bool" where
  "block_step f0 img din x img' din' off \<longleftrightarrow>
     file_ok img' din' off \<and> fblk img' din' f0 = x \<and> x \<noteq> 0 \<and>
     (\<forall>f < MAXFILE. f \<noteq> f0 \<longrightarrow> fblk img' din' f = fblk img din f) \<and>
     (\<forall>y. y < freeblock img \<longrightarrow> y \<noteq> i_addrs din NDIRECT \<longrightarrow> sector img' y = sector img y) \<and>
     unat (freeblock img') = unat (freeblock img) + block_cost f0 img din \<and>
     (i_addrs din' NDIRECT = 0 \<longleftrightarrow> i_addrs din NDIRECT = 0 \<and> f0 < NDIRECT) \<and> sectors img' = sectors img \<and>
     (fblk img din f0 \<noteq> 0 \<longrightarrow> x = fblk img din f0) \<and>
     (fblk img din f0 = 0 \<longrightarrow> unat x + 1 = unat (freeblock img')) \<and>
     (\<exists>a. din' = din\<lparr>i_addrs := a\<rparr>)"

lemma step_present:
  assumes "file_ok img din off" "fblk img din f0 \<noteq> 0"
  shows "block_step f0 img din (fblk img din f0) img din off"
  using assms by (auto simp: block_step_def block_cost_def fblk_def split: if_splits intro: exI [of _ "i_addrs din"])

lemma step_direct:
  assumes ok: "file_ok img din off" and f0: "f0 < NDIRECT" "i_addrs din f0 = 0" and b: "unat (freeblock img) + 1 < 2 ^ 32"
  shows "block_step f0 img din (freeblock img) (img\<lparr>freeblock := freeblock img + 1\<rparr>)
    (din\<lparr>i_addrs := (i_addrs din)(f0 := freeblock img)\<rparr>) off"
proof -
  let ?i = "img\<lparr>freeblock := freeblock img + 1\<rparr>" and ?d = "din\<lparr>i_addrs := (i_addrs din)(f0 := freeblock img)\<rparr>"
  have z: "fblk img din f0 = 0" using f0 by (simp add: fblk_def)
  have F: "fblk ?i ?d f = (if f = f0 then freeblock img else fblk img din f)" for f
    using f0(1) by (auto simp: fblk_def)
  have "file_ok ?i ?d off"
    by (rule file_ok_add [OF ok b, where ?f0.0 = f0]) (use f0 z F in auto)
  then show ?thesis
    using F z f0(1) next_block [OF b] nmeta_pos [OF file_okD(1) [OF ok]] by (auto simp: block_step_def block_cost_def)
qed

lemma step_indirect:
  assumes ok: "file_ok img din off" and f0: "\<not> f0 < NDIRECT" "f0 < MAXFILE" "fblk img din f0 = 0"
    and a: "i_addrs din NDIRECT \<noteq> 0" and b: "unat (freeblock img) + 1 < 2 ^ 32"
  shows "block_step f0 img din (freeblock img)
    (put_sector (i_addrs din NDIRECT) (store32 (sector img (i_addrs din NDIRECT)) (4 * (f0 - NDIRECT)) (freeblock img))
      (img\<lparr>freeblock := freeblock img + 1\<rparr>)) din off"
proof -
  let ?a = "i_addrs din NDIRECT" and ?k = "4 * (f0 - NDIRECT)"
  let ?i = "put_sector ?a (store32 (sector img ?a) ?k (freeblock img)) (img\<lparr>freeblock := freeblock img + 1\<rparr>)"
  have F: "fblk ?i din f = (if f = f0 then freeblock img else fblk img din f)" for f
  proof (cases "f < NDIRECT \<or> f = f0")
    case True
    then show ?thesis using f0(1) a by (auto simp: fblk_def put_sector_def)
  next
    case False
    then have "4 * (f - NDIRECT) + 4 \<le> ?k \<or> ?k + 4 \<le> 4 * (f - NDIRECT)" using f0(1) by auto
    then have "load32 (store32 (sector img ?a) ?k (freeblock img)) (4 * (f - NDIRECT)) = load32 (sector img ?a) (4 * (f - NDIRECT))"
      by (rule load32_store32_other)
    then show ?thesis using False a by (simp add: fblk_def put_sector_def)
  qed
  have "used_sector img ?a" using file_okD(3) [OF ok a] .
  then have "?a < freeblock img" by (simp add: used_sector_def)
  then have "sector ?i x = sector img x" if "freeblock img + 1 \<le> x" for x
    using that next_block [OF b] by (auto simp: put_sector_def word_le_nat_alt word_less_nat_alt)
  then have "file_ok ?i din off"
    by (intro file_ok_add [OF ok b, where ?f0.0 = f0]) (use f0 F in \<open>auto simp: put_sector_def\<close>)
  then show ?thesis
    using F f0(3) next_block [OF b] nmeta_pos [OF file_okD(1) [OF ok]]
    by (auto simp: block_step_def block_cost_def put_sector_def a intro: exI [of _ "i_addrs din"])
qed

lemma pick_block_ok:
  assumes ok: "file_ok img din off" and f0: "f0 < MAXFILE" and b: "unat (freeblock img) + 2 < 2 ^ 32"
    and m: "pick_block f0 din img = (x, din', img')"
  shows "block_step f0 img din x img' din' off"
proof -
  have b1: "unat (freeblock img) + 1 < 2 ^ 32" using b by simp
  show ?thesis
  proof (cases "f0 < NDIRECT")
    case True
    show ?thesis
    proof (cases "i_addrs din f0 = 0")
      case z: True
      with True m have "x = freeblock img" "img' = img\<lparr>freeblock := freeblock img + 1\<rparr>"
        "din' = din\<lparr>i_addrs := (i_addrs din)(f0 := freeblock img)\<rparr>" by (auto simp: pick_block_def)
      with step_direct [OF ok True z b1] show ?thesis by simp
    next
      case nz: False
      with True m have "x = fblk img din f0" "img' = img" "din' = din" by (auto simp: pick_block_def fblk_def)
      with step_present [OF ok, of f0] nz True show ?thesis by (simp add: fblk_def)
    qed
  next
    case False
    define d1 where "d1 = (if i_addrs din NDIRECT = 0 then din\<lparr>i_addrs := (i_addrs din)(NDIRECT := freeblock img)\<rparr> else din)"
    define g1 where "g1 = (if i_addrs din NDIRECT = 0 then img\<lparr>freeblock := freeblock img + 1\<rparr> else img)"
    let ?a = "i_addrs d1 NDIRECT"
    have 1: "file_ok g1 d1 off" "\<And>f. fblk g1 d1 f = fblk img din f" "?a \<noteq> 0"
      using ok file_ok_indirect [OF ok b1] nmeta_pos [OF file_okD(1) [OF ok]] by (auto simp: d1_def g1_def)
    have n1: "unat (freeblock g1) = unat (freeblock img) + (if i_addrs din NDIRECT = 0 then 1 else 0)"
      "unat (freeblock g1) \<le> unat (freeblock img) + 1" "sectors g1 = sectors img"
      "sector g1 = sector img" "\<exists>a. d1 = din\<lparr>i_addrs := a\<rparr>"
      using next_block [OF b1] by (auto simp: g1_def d1_def intro: exI [of _ "i_addrs din"])
    have e: "pick_block f0 din img =
        (if load32 (sector g1 ?a) (4 * (f0 - NDIRECT)) = 0
         then (freeblock g1, d1, put_sector ?a (store32 (sector g1 ?a) (4 * (f0 - NDIRECT)) (freeblock g1)) (g1\<lparr>freeblock := freeblock g1 + 1\<rparr>))
         else (load32 (sector g1 ?a) (4 * (f0 - NDIRECT)), d1, g1))"
      using False by (simp add: pick_block_def d1_def g1_def Let_def)
    have l: "load32 (sector g1 ?a) (4 * (f0 - NDIRECT)) = fblk img din f0"
      using 1(2) [of f0] 1(3) False by (simp add: fblk_def)
    have there: "i_addrs din NDIRECT \<noteq> 0" if "fblk img din f0 \<noteq> 0" using that False by (auto simp: fblk_def)
    show ?thesis
    proof (cases "fblk img din f0 = 0")
      case True
      let ?g = "put_sector ?a (store32 (sector g1 ?a) (4 * (f0 - NDIRECT)) (freeblock g1)) (g1\<lparr>freeblock := freeblock g1 + 1\<rparr>)"
      have v: "x = freeblock g1" "din' = d1" "img' = ?g" using m unfolding e l by (auto simp: True)
      have b2: "unat (freeblock g1) + 1 < 2 ^ 32" using n1(2) b by simp
      have z: "fblk g1 d1 f0 = 0" using 1(2) True by simp
      have s: "block_step f0 g1 d1 x img' din' off"
        unfolding v by (rule step_indirect [OF 1(1) False f0 z 1(3) b2])
      have fb: "unat (freeblock img') = unat (freeblock g1) + 1" using next_block [OF b2] by (simp add: v(3) put_sector_def)
      have "sector img' y = sector img y" if "y < freeblock img" "y \<noteq> i_addrs din NDIRECT" for y
      proof -
        have "?a = i_addrs din NDIRECT \<or> ?a = freeblock img" by (simp add: d1_def)
        then have "y \<noteq> ?a" using that by auto
        then show ?thesis by (simp add: v(3) put_sector_def n1(4))
      qed
      moreover have "\<exists>a. din' = din\<lparr>i_addrs := a\<rparr>" using v(2) n1(5) by simp
      moreover have "i_addrs din' NDIRECT \<noteq> 0" using v(2) 1(3) by simp
      ultimately show ?thesis
        using s fb n1(1,3) True 1(2) False v(1) by (auto simp: block_step_def block_cost_def)
    next
      case nz: False
      then have "d1 = din" "g1 = img" using there by (simp_all add: d1_def g1_def)
      then have "x = fblk img din f0" "din' = din" "img' = img" using m unfolding e l by (auto simp: nz)
      then show ?thesis using step_present [OF ok nz] by simp
    qed
  qed
qed

section \<open>Appending\<close>

text \<open>Writing a sector of the file changes only the bytes of its block.\<close>

lemma file_ok_write:
  assumes ok: "file_ok img din off" and f0: "f0 < MAXFILE" "fblk img din f0 \<noteq> 0"
  shows "file_ok (put_sector (fblk img din f0) buf img) din off"
    and "f < MAXFILE \<Longrightarrow> fblk (put_sector (fblk img din f0) buf img) din f = fblk img din f"
    and "f < MAXFILE \<Longrightarrow> fblk img din f \<noteq> 0 \<Longrightarrow>
      sector (put_sector (fblk img din f0) buf img) (fblk img din f) = (if f = f0 then buf else sector img (fblk img din f))"
proof -
  note k = file_okD [OF ok]
  let ?x = "fblk img din f0" and ?i = "put_sector (fblk img din f0) buf img"
  have F: "fblk ?i din f = fblk img din f" for f
    using k(4) [OF f0] by (simp add: fblk_def put_sector_def)
  then show "f < MAXFILE \<Longrightarrow> fblk ?i din f = fblk img din f" by simp
  have "?x < freeblock img" using k(2) [OF f0] by (simp add: used_sector_def)
  then have "sector ?i x = (\<lambda>_. 0)" if "freeblock img \<le> x" for x
    using that k(6) [OF that] by (auto simp: put_sector_def)
  then show "file_ok ?i din off"
    using k unfolding file_ok_def F by (auto simp: used_sector_def put_sector_def)
  show "f < MAXFILE \<Longrightarrow> fblk img din f \<noteq> 0 \<Longrightarrow> sector ?i (fblk img din f) = (if f = f0 then buf else sector img (fblk img din f))"
    using k(5) [of f f0] f0 by (auto simp: put_sector_def)
qed

lemma file_ok_off:
  assumes "file_ok img din off" "\<And>f. f < MAXFILE \<Longrightarrow> f * BSIZE < off' \<Longrightarrow> fblk img din f \<noteq> 0"
  shows "file_ok img din off'"
  using assms(1) assms(2) unfolding file_ok_def by blast

lemma put_list_in: "j < length xs \<Longrightarrow> put_list a xs buf (a + j) = xs ! j"
  by (simp add: put_list_def)

text \<open>One turn of the loop: \<open>n1\<close> bytes go into the block at \<open>off\<close>.\<close>

lemma fill_block:
  assumes ok: "file_ok img din off" and fbn: "fbn = off div BSIZE" "fbn < MAXFILE"
    and s: "block_step fbn img din x g1 d1 off"
    and n1: "off + n1 \<le> (fbn + 1) * BSIZE" "length xs = n1"
  defines "g2 \<equiv> put_sector x (put_list (off - fbn * BSIZE) xs (sector g1 x)) g1"
  shows "file_ok g2 d1 (off + n1)"
    and "\<And>j. j < off \<Longrightarrow> fbyte g2 d1 j = fbyte img din j"
    and "\<And>j. j < n1 \<Longrightarrow> fbyte g2 d1 (off + j) = xs ! j"
proof -
  from s have b: "file_ok g1 d1 off" "fblk g1 d1 fbn = x" "x \<noteq> 0"
      "\<And>f. f < MAXFILE \<Longrightarrow> f \<noteq> fbn \<Longrightarrow> fblk g1 d1 f = fblk img din f"
      "\<And>y. y < freeblock img \<Longrightarrow> y \<noteq> i_addrs din NDIRECT \<Longrightarrow> sector g1 y = sector img y"
      "fblk img din fbn \<noteq> 0 \<Longrightarrow> x = fblk img din fbn"
    by (auto simp: block_step_def)
  note k = file_okD [OF ok]
  note w = file_ok_write [OF b(1) fbn(2), unfolded b(2), OF b(3), where buf = "put_list (off - fbn * BSIZE) xs (sector g1 x)", folded g2_def]
  have lo: "fbn * BSIZE \<le> off" "off < (fbn + 1) * BSIZE" using fbn(1) dividend_less_times_div [of BSIZE off] by simp_all
  have F: "fblk g2 d1 f = fblk g1 d1 f" if "f < MAXFILE" for f using w(2) [OF that] .
  show "file_ok g2 d1 (off + n1)"
  proof (rule file_ok_off [OF w(1)])
    fix f assume f: "f < MAXFILE" "f * BSIZE < off + n1"
    then have "f * BSIZE < (fbn + 1) * BSIZE" using n1(1) by simp
    then have "f \<le> fbn" by simp
    then show "fblk g2 d1 f \<noteq> 0" using F [OF f(1)] b(2,3) file_okD(7) [OF b(1) f(1)] lo(1) by (cases "f = fbn") auto
  qed
  show "fbyte g2 d1 (off + j) = xs ! j" if j: "j < n1" for j
  proof -
    have q: "(off + j) div BSIZE = fbn" using lo n1(1) j by (intro div_nat_eqI) simp_all
    have "(off + j) mod BSIZE = off + j - fbn * BSIZE" using q by (metis minus_div_mult_eq_mod)
    also have "\<dots> = (off - fbn * BSIZE) + j" using lo(1) by simp
    finally have r: "(off + j) mod BSIZE = (off - fbn * BSIZE) + j" .
    have "fblk g2 d1 fbn = x" "fblk g1 d1 fbn \<noteq> 0" using F [OF fbn(2)] b(2,3) by simp_all
    then have "sector g2 (fblk g2 d1 fbn) = put_list (off - fbn * BSIZE) xs (sector g1 x)"
      using w(3) [OF fbn(2)] b(2) by simp
    then show ?thesis unfolding fbyte_def q r using put_list_in [of j xs] j n1(2) by simp
  qed
  show "fbyte g2 d1 j = fbyte img din j" if j: "j < off" for j
  proof -
    let ?f = "j div BSIZE"
    have f: "?f \<le> fbn" using j fbn(1) by (simp add: div_le_mono)
    then have fm: "?f < MAXFILE" using fbn(2) by simp
    have "?f * BSIZE < off" using j by (meson div_times_less_eq_dividend le_less_trans)
    then have z: "fblk img din ?f \<noteq> 0" by (rule k(7) [OF fm])
    have eq: "fblk g1 d1 ?f = fblk img din ?f" using b(2,4,6) fm z by (cases "?f = fbn") auto
    have same: "sector g1 (fblk img din ?f) = sector img (fblk img din ?f)"
      by (rule b(5)) (use k(2,4) [OF fm z] in \<open>auto simp: used_sector_def\<close>)
    have "j mod BSIZE < off - fbn * BSIZE" if "?f = fbn"
      using j lo that minus_div_mult_eq_mod [of j BSIZE] by simp
    then show ?thesis
      using F [OF fm] eq same w(3) [OF fm] z b(2) by (auto simp: fbyte_def put_list_def)
  qed
qed

text \<open>The sectors that a file lacks for its first \<open>e\<close> blocks.\<close>

definition lacks :: "image \<Rightarrow> inode \<Rightarrow> nat \<Rightarrow> nat" where
  "lacks img din e = card {f. f < e \<and> fblk img din f = 0} +
     (if i_addrs din NDIRECT = 0 \<and> NDIRECT < e then 1 else 0)"

lemma lacks_step:
  assumes s: "block_step f0 img din x g1 d1 off" and e: "f0 < e" "e \<le> MAXFILE"
  shows "lacks g1 d1 e + block_cost f0 img din = lacks img din e"
proof -
  let ?A = "{f. f < e \<and> fblk img din f = 0}" and ?B = "{f. f < e \<and> fblk g1 d1 f = 0}"
  have "f < e \<Longrightarrow> fblk g1 d1 f = 0 \<longleftrightarrow> f \<noteq> f0 \<and> fblk img din f = 0" for f
    using s e by (cases "f = f0") (auto simp: block_step_def)
  then have B: "?B = ?A - {f0}" by auto
  have c: "card ?A = card ?B + (if fblk img din f0 = 0 then 1 else 0)"
  proof (cases "fblk img din f0 = 0")
    case True
    then have "f0 \<in> ?A" using e(1) by simp
    then have "card ?A = Suc (card (?A - {f0}))" by (intro card.remove) auto
    then show ?thesis using True unfolding B by simp
  next
    case False
    then have "?A - {f0} = ?A" by auto
    with False show ?thesis unfolding B by simp
  qed
  have i: "i_addrs d1 NDIRECT = 0 \<longleftrightarrow> i_addrs din NDIRECT = 0 \<and> f0 < NDIRECT" using s by (simp add: block_step_def)
  have "i_addrs din NDIRECT \<noteq> 0" if "fblk img din f0 \<noteq> 0" "\<not> f0 < NDIRECT" using that by (auto simp: fblk_def)
  then show ?thesis using c e(1) unfolding lacks_def i block_cost_def by auto
qed

lemma lacks_cong:
  assumes "\<And>f. f < MAXFILE \<Longrightarrow> fblk g2 din f = fblk g1 din f" and "e \<le> MAXFILE"
  shows "lacks g2 din e = lacks g1 din e"
proof -
  have "{f. f < e \<and> fblk g2 din f = 0} = {f. f < e \<and> fblk g1 din f = 0}" using assms by auto
  then show ?thesis by (simp add: lacks_def)
qed

text \<open>The choice of a sector and the read of it are inside the image, or the program ends.\<close>

lemma mk_block_pick:
  assumes "image_ok img" and ok: "file_ok img din off"
  defines "a \<equiv> if i_addrs din NDIRECT = 0 then freeblock img else i_addrs din NDIRECT"
  shows "mk_block f0 din img =
    (if f0 < NDIRECT \<or> unat a < sectors img then Ret (pick_block f0 din img) else opanic ''read'')"
proof (cases "f0 < NDIRECT")
  case True
  then show ?thesis by (simp add: mk_block_def pick_block_def)
next
  case False
  have im: "unat (freeblock img) \<le> sectors img" "sectors img < 2 ^ 22" using assms(1) by (simp_all add: image_ok_def)
  have "i_addrs din NDIRECT \<noteq> 0 \<Longrightarrow> i_addrs din NDIRECT < freeblock img"
    using file_okD(3) [OF ok] by (simp add: used_sector_def)
  then have "unat a \<le> sectors img" using im by (auto simp: a_def word_less_nat_alt)
  then have a22: "unat a < 2 ^ 22" using im(2) by simp
  show ?thesis
  proof (cases "unat a < sectors img")
    case True
    then have w: "wsect a buf (img\<lparr>freeblock := b\<rparr>) = put_sector a buf (img\<lparr>freeblock := b\<rparr>)" for buf b
      using im(2) by (intro wsect_inside) simp_all
    show ?thesis
      using False True w rsect_small [OF a22] unfolding a_def
      by (auto simp: mk_block_def pick_block_def Let_def)
  next
    case nf: False
    then show ?thesis using False rsect_small [OF a22] unfolding a_def by (auto simp: mk_block_def Let_def)
  qed
qed

lemma mk_block_turn:
  assumes im: "image_ok img" and ok: "file_ok img din off" and f0: "f0 < MAXFILE"
    and m: "pick_block f0 din img = (x, d1, g1)"
  shows "unat (freeblock g1) \<le> sectors img \<Longrightarrow> mk_block f0 din img = Ret (x, d1, g1) \<and> unat x < sectors img"
    and "sectors img < unat (freeblock g1) \<Longrightarrow>
      obind (mk_block f0 din img) (\<lambda>(x, d, g). obind (rsect x g) (k x d g)) = opanic ''read''"
proof -
  have s22: "unat (freeblock img) \<le> sectors img" "sectors img < 2 ^ 22" using im by (simp_all add: image_ok_def)
  have "block_step f0 img din x g1 d1 off" by (rule pick_block_ok [OF ok f0 _ m]) (use s22 in simp)
  then have st: "file_ok g1 d1 off" "fblk g1 d1 f0 = x" "x \<noteq> 0" "sectors g1 = sectors img"
      "unat (freeblock g1) = unat (freeblock img) + block_cost f0 img din"
      "fblk img din f0 = 0 \<Longrightarrow> unat x + 1 = unat (freeblock g1)"
    by (auto simp: block_step_def)
  have xl: "unat x < unat (freeblock g1)"
    using file_okD(2) [OF st(1) f0] st(2,3) by (simp add: used_sector_def word_less_nat_alt)
  define a where "a = (if i_addrs din NDIRECT = 0 then freeblock img else i_addrs din NDIRECT)"
  note e = mk_block_pick [OF im ok, of f0, folded a_def]
  have far: "i_addrs din NDIRECT = 0 \<and> fblk img din f0 = 0 \<and> unat (freeblock img) = sectors img"
    if "\<not> (f0 < NDIRECT \<or> unat a < sectors img)"
  proof -
    have z: "i_addrs din NDIRECT = 0"
    proof (rule ccontr)
      assume nz: "i_addrs din NDIRECT \<noteq> 0"
      then have "unat (i_addrs din NDIRECT) < unat (freeblock img)"
        using file_okD(3) [OF ok] by (simp add: used_sector_def word_less_nat_alt)
      with nz that s22(1) show False by (simp add: a_def)
    qed
    with that s22(1) show ?thesis by (simp add: a_def fblk_def)
  qed
  show "mk_block f0 din img = Ret (x, d1, g1) \<and> unat x < sectors img" if le: "unat (freeblock g1) \<le> sectors img"
  proof -
    have "f0 < NDIRECT \<or> unat a < sectors img"
    proof (rule ccontr)
      assume n: "\<not> ?thesis"
      with far [OF n] have "block_cost f0 img din = 2" by (simp add: block_cost_def)
      with far [OF n] st(5) le show False by simp
    qed
    with e m xl le show ?thesis by simp
  qed
  show "obind (mk_block f0 din img) (\<lambda>(x, d, g). obind (rsect x g) (k x d g)) = opanic ''read''"
    if gt: "sectors img < unat (freeblock g1)"
  proof (cases "f0 < NDIRECT \<or> unat a < sectors img")
    case True
    have z: "fblk img din f0 = 0" using gt st(5) s22(1) by (auto simp: block_cost_def split: if_splits)
    have "unat (freeblock g1) \<le> sectors img + 1"
    proof (cases "f0 < NDIRECT \<or> i_addrs din NDIRECT \<noteq> 0")
      case t: True
      then show ?thesis using z st(5) s22(1) by (auto simp: block_cost_def)
    next
      case f: False
      then have "unat (freeblock img) < sectors img" using True by (simp add: a_def)
      then show ?thesis using z f st(5) by (simp add: block_cost_def)
    qed
    then have "unat x = sectors img" using st(6) [OF z] gt by simp
    then have "rsect x g1 = opanic ''read''" using rsect_small [of x g1] s22(2) st(4) by simp
    then show ?thesis using e m True by simp
  next
    case False
    then show ?thesis using e by simp
  qed
qed

text \<open>
  The loop: it stores the bytes when the image has the sectors that the file lacks, and otherwise ends at
  the read of the first one beyond the end.
\<close>

definition ceil_blocks :: "nat \<Rightarrow> nat" where
  "ceil_blocks n = (n + (BSIZE - 1)) div BSIZE"

definition appended :: "image \<Rightarrow> inode \<Rightarrow> nat \<Rightarrow> u8 list \<Rightarrow> image \<Rightarrow> inode \<Rightarrow> bool" where
  "appended img din off p img' din' \<longleftrightarrow>
     file_ok img' din' (off + length p) \<and> image_ok img' \<and> sectors img' = sectors img \<and>
     (\<forall>j < off. fbyte img' din' j = fbyte img din j) \<and> (\<forall>j < length p. fbyte img' din' (off + j) = p ! j) \<and>
     (\<exists>a. din' = din\<lparr>i_addrs := a\<rparr>) \<and> (\<forall>y. 0 < y \<and> y < of_nat mk_nmeta \<longrightarrow> sector img' y = sector img y)"

lemma appendedI:
  assumes "block_step fbn img din x g1 d1 off" "file_ok img din off" "fbn < MAXFILE"
    and g2: "g2 = put_sector x buf g1" and n1: "n1 \<le> length p" "length (take n1 p) = n1"
    and fi: "\<And>j. j < off \<Longrightarrow> fbyte g2 d1 j = fbyte img din j" "\<And>j. j < n1 \<Longrightarrow> fbyte g2 d1 (off + j) = take n1 p ! j"
    and r: "appended g2 d1 (off + n1) (drop n1 p) g3 d3"
  shows "appended img din off p g3 d3"
proof -
  have len: "off + n1 + length (drop n1 p) = off + length p" using n1(1) by simp
  from r have r: "file_ok g3 d3 (off + length p)" "image_ok g3" "sectors g3 = sectors g2"
      "\<And>j. j < off + n1 \<Longrightarrow> fbyte g3 d3 j = fbyte g2 d1 j"
      "\<And>j. j < length p - n1 \<Longrightarrow> fbyte g3 d3 (off + n1 + j) = drop n1 p ! j" "\<exists>a. d3 = d1\<lparr>i_addrs := a\<rparr>"
      "\<And>y. 0 < y \<Longrightarrow> y < of_nat mk_nmeta \<Longrightarrow> sector g3 y = sector g2 y"
    unfolding appended_def len by auto
  have new: "fbyte g3 d3 (off + j) = p ! j" if "j < length p" for j
  proof (cases "j < n1")
    case True
    then show ?thesis using r(4) [of "off + j"] fi(2) [OF True] by simp
  next
    case nj: False
    then have "fbyte g3 d3 (off + n1 + (j - n1)) = drop n1 p ! (j - n1)" using r(5) [of "j - n1"] that by simp
    moreover have "drop n1 p ! (j - n1) = p ! j" using nj n1(1) by simp
    moreover have "off + n1 + (j - n1) = off + j" using nj by simp
    ultimately show ?thesis by simp
  qed
  have old: "fbyte g3 d3 j = fbyte img din j" if "j < off" for j
    using r(4) [of j] fi(1) [OF that] that by simp
  have frame: "sector g3 y = sector img y" if y: "0 < y" "y < of_nat mk_nmeta" for y
  proof -
    note k = file_okD [OF assms(2)]
    have x: "of_nat mk_nmeta \<le> x"
      using assms(1,3) file_okD(2) [of g1 d1 off fbn] by (auto simp: block_step_def used_sector_def)
    have "y \<noteq> i_addrs din NDIRECT"
      using k(3) y by (cases "i_addrs din NDIRECT = 0") (auto simp: used_sector_def)
    moreover have "y < freeblock img" using y(2) k(1) by (rule less_le_trans)
    ultimately have "sector g1 y = sector img y" using assms(1) by (simp add: block_step_def)
    moreover have "y \<noteq> x" using y(2) x by auto
    ultimately show ?thesis using r(7) [OF y] by (simp add: g2 put_sector_def)
  qed
  have same: "sectors g3 = sectors img" using r(3) assms(1) by (simp add: g2 put_sector_def block_step_def)
  obtain b where b: "d1 = din\<lparr>i_addrs := b\<rparr>" using assms(1) unfolding block_step_def by (elim conjE exE)
  obtain c where "d3 = d1\<lparr>i_addrs := c\<rparr>" using r(6) by (elim exE)
  then have "d3 = din\<lparr>i_addrs := c\<rparr>" unfolding b by simp
  then show ?thesis unfolding appended_def using r(1,2) same new old frame by blast
qed

lemma iappend_loop_ok:
  "\<lbrakk>image_ok img; file_ok img din off; off + length p \<le> MAXFILE * BSIZE\<rbrakk> \<Longrightarrow>
   if unat (freeblock img) + lacks img din (ceil_blocks (off + length p)) \<le> sectors img
   then \<exists>din' img'. iappend_loop din off p img = Ret (din', off + length p, img') \<and> appended img din off p img' din'
   else iappend_loop din off p img = opanic ''read''"
proof (induction p arbitrary: din off img rule: measure_induct_rule [where f = length])
  case (less p)
  note im = less.prems(1) and ok = less.prems(2)
  have s22: "unat (freeblock img) \<le> sectors img" "sectors img < 2 ^ 22" using im by (simp_all add: image_ok_def)
  have c: "ceil_blocks (off + length p) \<le> MAXFILE"
    using less.prems(3) div_le_mono [of "off + length p + 1023" "MAXFILE * BSIZE + 1023" BSIZE] by (simp add: ceil_blocks_def)
  show ?case
  proof (cases "p = []")
    case True
    then have l: "iappend_loop din off p img = Ret (din, off + length p, img)" by (subst iappend_loop.simps) simp
    have pres: "fblk img din f \<noteq> 0" if "f < ceil_blocks off" for f
      using that c True by (intro file_okD(7) [OF ok]) (auto simp: ceil_blocks_def)
    then have "{f. f < ceil_blocks off \<and> fblk img din f = 0} = {}" by auto
    moreover have "i_addrs din NDIRECT \<noteq> 0" if "NDIRECT < ceil_blocks off"
      using pres [OF that] by (auto simp: fblk_def)
    ultimately have "lacks img din (ceil_blocks (off + length p)) = 0" using True by (auto simp: lacks_def)
    moreover have "appended img din off p img din" unfolding appended_def using True ok im by (auto intro: exI [of _ "i_addrs din"])
    ultimately show ?thesis using l s22(1) by auto
  next
    case False
    define fbn where "fbn = off div BSIZE"
    obtain x d1 g1 where m: "pick_block fbn din img = (x, d1, g1)" by (metis prod_cases3)
    define n1 where "n1 = min (length p) ((fbn + 1) * BSIZE - off)"
    define g2 where "g2 = put_sector x (put_list (off - fbn * BSIZE) (take n1 p) (sector g1 x)) g1"
    have fm: "fbn < MAXFILE" using less.prems(3) False unfolding fbn_def
      by (intro less_mult_imp_div_less) (cases p, auto)
    have st: "block_step fbn img din x g1 d1 off" by (rule pick_block_ok [OF ok fm _ m]) (use s22 in simp)
    have lo: "fbn * BSIZE \<le> off" "off < (fbn + 1) * BSIZE"
      unfolding fbn_def using dividend_less_times_div [of BSIZE off] by simp_all
    have n1: "off + n1 \<le> (fbn + 1) * BSIZE" "length (take n1 p) = n1" "0 < n1" "n1 \<le> length p"
      using lo False by (auto simp: n1_def)
    note fi = fill_block [OF ok fbn_def fm st n1(1,2), folded g2_def]
    have inside: "fbn < ceil_blocks (off + length p)"
      using lo(1) n1(3,4) div_le_mono [of "fbn * BSIZE + 1024" "off + length p + 1023" BSIZE]
      by (simp add: ceil_blocks_def)
    have g: "fblk g1 d1 fbn = x" "x \<noteq> 0" "file_ok g1 d1 off" "sectors g1 = sectors img"
        "unat (freeblock g1) = unat (freeblock img) + block_cost fbn img din"
      using st by (auto simp: block_step_def)
    have same: "fblk g2 d1 f = fblk g1 d1 f" if "f < MAXFILE" for f
      using file_ok_write(2) [OF g(3) fm _ that] g(1,2) unfolding g2_def by simp
    have pot: "unat (freeblock g2) + lacks g2 d1 (ceil_blocks (off + length p)) =
        unat (freeblock img) + lacks img din (ceil_blocks (off + length p))"
      using lacks_cong [OF same c] lacks_step [OF st inside c] g(5) by (simp add: g2_def put_sector_def)
    have un: "iappend_loop din off p img = obind (mk_block fbn din img) (\<lambda>(x, din, img).
          obind (rsect x img) (\<lambda>buf. iappend_loop din (off + n1) (drop n1 p)
            (wsect x (put_list (off - fbn * BSIZE) (take n1 p) buf) img)))"
      using False fm by (subst iappend_loop.simps) (simp add: fbn_def n1_def Let_def)
    show ?thesis
    proof (cases "unat (freeblock g1) \<le> sectors img")
      case True
      have t: "mk_block fbn din img = Ret (x, d1, g1)" "unat x < sectors g1"
        using mk_block_turn(1) [OF im ok fm m True] g(4) by simp_all
      have "rsect x g1 = Ret (sector g1 x)" using rsect_small [of x g1] t(2) s22(2) g(4) by simp
      moreover have "wsect x (put_list (off - fbn * BSIZE) (take n1 p) (sector g1 x)) g1 = g2"
        unfolding g2_def by (rule wsect_inside) (use t(2) s22(2) g(4) in simp_all)
      ultimately have e: "iappend_loop din off p img = iappend_loop d1 (off + n1) (drop n1 p) g2"
        unfolding un t(1) by simp
      have im2: "image_ok g2" "sectors g2 = sectors img" using True g(4) s22(2) by (simp_all add: image_ok_def g2_def put_sector_def)
      have len: "off + n1 + length (drop n1 p) = off + length p" using n1(4) by simp
      have "length (drop n1 p) < length p" using n1(3,4) by simp
      from less.IH [OF this im2(1) fi(1)] less.prems(3)
      have IH: "if unat (freeblock img) + lacks img din (ceil_blocks (off + length p)) \<le> sectors img
          then \<exists>d3 g3. iappend_loop d1 (off + n1) (drop n1 p) g2 = Ret (d3, off + length p, g3) \<and>
            appended g2 d1 (off + n1) (drop n1 p) g3 d3
          else iappend_loop d1 (off + n1) (drop n1 p) g2 = opanic ''read''"
        unfolding len im2(2) pot by simp
      have "appended img din off p g3 d3" if "appended g2 d1 (off + n1) (drop n1 p) g3 d3" for g3 d3
        by (rule appendedI [OF st ok fm g2_def n1(4,2) fi(2,3) that])
      with IH show ?thesis unfolding e by (auto split: if_splits)
    next
      case gt: False
      then have "iappend_loop din off p img = opanic ''read''"
        unfolding un by (intro mk_block_turn(2) [OF im ok fm m]) simp
      moreover have "\<not> unat (freeblock img) + lacks img din (ceil_blocks (off + length p)) \<le> sectors img"
        using gt g(5) lacks_step [OF st inside c] by linarith
      ultimately show ?thesis by simp
    qed
  qed
qed

lemma inode_block_low: "unat inum < NINODES \<Longrightarrow> 0 < mk_iblock inum \<and> mk_iblock inum < of_nat mk_nmeta"
proof -
  assume "unat inum < NINODES"
  then have "unat inum div 16 < 13" by (intro less_mult_imp_div_less) simp
  then have "unat (inum div 16) < 13" by (simp add: unat_div)
  moreover from this have "unat (inum div 16 + 32) = unat (inum div 16) + 32"
    by (subst unat_plus_simple [THEN iffD1]) (simp_all add: no_olen_add_nat)
  ultimately show ?thesis
    by (simp add: mk_iblock_def mk_sb_def mk_nmeta_def mk_nlog_def mk_ninodeblocks_def mk_nbitmap_def word_less_nat_alt)
qed

text \<open>The blocks of the inodes are inside the image; storing an inode touches no file.\<close>

definition the_inode :: "u32 \<Rightarrow> image \<Rightarrow> inode" where
  "the_inode inum img = get_dinode (sector img (mk_iblock inum)) (dinode_off inum) free_inode"

definition store_inode :: "u32 \<Rightarrow> inode \<Rightarrow> image \<Rightarrow> image" where
  "store_inode inum x img = put_sector (mk_iblock inum) (put_dinode x (dinode_off inum) (sector img (mk_iblock inum))) img"

lemma inode_inside:
  assumes "image_ok img" and "of_nat mk_nmeta \<le> freeblock img" and "unat inum < NINODES"
  shows "rinode inum img = Ret (the_inode inum img)" "winode inum x img = Ret (store_inode inum x img)"
proof -
  have "mk_iblock inum < freeblock img" using inode_block_low [OF assms(3)] assms(2) by (auto intro: less_le_trans)
  then have l: "unat (mk_iblock inum) < sectors img" "sectors img < 2 ^ 22"
    using assms(1) by (simp_all add: image_ok_def word_less_nat_alt)
  then have "rsect (mk_iblock inum) img = Ret (sector img (mk_iblock inum))" by (simp add: rsect_small)
  then show "rinode inum img = Ret (the_inode inum img)" "winode inum x img = Ret (store_inode inum x img)"
    using wsect_inside [OF l] by (simp_all add: rinode_def winode_def the_inode_def store_inode_def Let_def)
qed

lemma the_inode_store: "the_inode inum (store_inode inum x img) = with_dinode x free_inode"
  by (simp add: the_inode_def store_inode_def put_sector_def get_put_dinode)

lemma store_inode_simps [simp]:
  "sectors (store_inode inum x img) = sectors img" "freeblock (store_inode inum x img) = freeblock img"
  "image_ok (store_inode inum x img) = image_ok img"
  by (simp_all add: store_inode_def put_sector_def image_ok_def)

lemma fbyte_store:
  assumes ok: "file_ok img din off" and low: "unat inum < NINODES" and j: "j < off" "off \<le> MAXFILE * BSIZE"
  shows "fbyte (store_inode inum x img) (with_dinode (din\<lparr>i_size := n\<rparr>) free_inode) j = fbyte img din j"
proof -
  note k = file_okD [OF ok]
  let ?f = "j div BSIZE"
  have fm: "?f < MAXFILE" using j by (intro less_mult_imp_div_less) simp
  have "?f * BSIZE < off" using j(1) by (meson div_times_less_eq_dividend le_less_trans)
  then have z: "fblk img din ?f \<noteq> 0" by (rule k(7) [OF fm])
  note b = inode_block_low [OF low]
  have i: "i_addrs din NDIRECT \<noteq> mk_iblock inum"
    using k(3) b by (cases "i_addrs din NDIRECT = 0") (auto simp: used_sector_def)
  have "fblk img din ?f \<noteq> mk_iblock inum" using k(2) [OF fm z] b by (auto simp: used_sector_def)
  moreover have "fblk (store_inode inum x img) (with_dinode (din\<lparr>i_size := n\<rparr>) free_inode) ?f = fblk img din ?f"
    using i fm by (auto simp: fblk_def with_dinode_def store_inode_def put_sector_def)
  ultimately show ?thesis by (simp add: fbyte_def store_inode_def put_sector_def)
qed

section \<open>main()\<close>

text \<open>The image main() starts from: FSSIZE sectors, every one zero, then the superblock in sector 1.\<close>

definition mk_start :: image where
  "mk_start =
     (let img = \<lparr>sector = (\<lambda>_ _. 0), sectors = 0, freeinode = 1, freeblock = of_nat mk_nmeta\<rparr>;
          img = fold (\<lambda>i. wsect (of_nat i) (\<lambda>_. 0)) [0..<FSSIZE] img;
          words = [sb_magic mk_sb, sb_size mk_sb, sb_nblocks mk_sb, sb_ninodes mk_sb, sb_nlog mk_sb,
                   sb_logstart mk_sb, sb_inodestart mk_sb, sb_bmapstart mk_sb];
          buf = fold (\<lambda>i buf. store32 buf (4 * i) (words ! i)) [0..<8] (\<lambda>_. 0)
      in wsect 1 buf img)"

lemma zeroed:
  assumes "sector img = (\<lambda>_ _. 0)" and "sectors img = 0" and "n \<le> FSSIZE"
  shows "fold (\<lambda>i. wsect (of_nat i) (\<lambda>_. 0)) [0..<n] img = img\<lparr>sectors := n\<rparr>"
  using assms(3)
proof (induction n)
  case 0
  then show ?case using assms(2) by simp
next
  case (Suc n)
  have u: "unat (of_nat n :: u32) = n" using Suc.prems by (simp add: unsigned_of_nat take_bit_nat_eq_self)
  then have k: "seek_to (of_nat n) = of_nat n" using Suc.prems by (intro seek_to_small) simp
  have z: "(sector img)(x := (\<lambda>_. 0)) = sector img" for x by (simp add: assms(1) fun_eq_iff)
  show ?case using Suc u k z by (simp add: wsect_def)
qed

lemma mk_start_eq:
  obtains buf where "mk_start = \<lparr>sector = (\<lambda>_ _. 0)(1 := buf), sectors = FSSIZE, freeinode = 1, freeblock = of_nat mk_nmeta\<rparr>"
    "(\<lparr>sb_magic = load32 buf 0, sb_size = load32 buf 4, sb_nblocks = load32 buf 8, sb_ninodes = load32 buf 12,
      sb_nlog = load32 buf 16, sb_logstart = load32 buf 20, sb_inodestart = load32 buf 24, sb_bmapstart = load32 buf 28\<rparr>) = mk_sb"
proof -
  define words where "words = [sb_magic mk_sb, sb_size mk_sb, sb_nblocks mk_sb, sb_ninodes mk_sb, sb_nlog mk_sb,
                   sb_logstart mk_sb, sb_inodestart mk_sb, sb_bmapstart mk_sb]"
  define buf where "buf = fold (\<lambda>i buf. store32 buf (4 * i) (words ! i)) [0..<8] (\<lambda>_. 0)"
  define img where "img = \<lparr>sector = (\<lambda>_ _. 0), sectors = FSSIZE, freeinode = 1, freeblock = of_nat mk_nmeta\<rparr>"
  have "mk_start = wsect 1 buf img"
    unfolding mk_start_def Let_def buf_def words_def img_def by (subst zeroed) simp_all
  also have "\<dots> = put_sector 1 buf img" by (rule wsect_inside) (simp_all add: img_def)
  finally have "mk_start = \<lparr>sector = (\<lambda>_ _. 0)(1 := buf), sectors = FSSIZE, freeinode = 1, freeblock = of_nat mk_nmeta\<rparr>"
    by (simp add: put_sector_def img_def)
  then show thesis by (rule that) (simp add: buf_def words_def upt_rec mem_simps)
qed

text \<open>readsb() of the kernel finds this superblock.\<close>

lemma mk_start_sb:
  "(let d = sector mk_start 1 in
     \<lparr>sb_magic = load32 d 0, sb_size = load32 d 4, sb_nblocks = load32 d 8, sb_ninodes = load32 d 12,
      sb_nlog = load32 d 16, sb_logstart = load32 d 20, sb_inodestart = load32 d 24, sb_bmapstart = load32 d 28\<rparr>) = mk_sb"
proof -
  obtain buf where st: "mk_start = \<lparr>sector = (\<lambda>_ _. 0)(1 := buf), sectors = FSSIZE, freeinode = 1, freeblock = of_nat mk_nmeta\<rparr>"
    "(\<lparr>sb_magic = load32 buf 0, sb_size = load32 buf 4, sb_nblocks = load32 buf 8, sb_ninodes = load32 buf 12,
      sb_nlog = load32 buf 16, sb_logstart = load32 buf 20, sb_inodestart = load32 buf 24, sb_bmapstart = load32 buf 28\<rparr>) = mk_sb"
    by (rule mk_start_eq)
  have "sector mk_start 1 = buf" by (simp add: st(1))
  then show ?thesis by (simp only: Let_def st(2))
qed

text \<open>A directory entry: the number of the inode and the name, cut or filled with zeros to DIRSIZ.\<close>

definition mk_dirent :: "u32 \<Rightarrow> u8 list \<Rightarrow> u8 list" where
  "mk_dirent inum name = [ucast inum, ucast (drop_bit 8 inum)] @ take DIRSIZ (name @ replicate DIRSIZ 0)"

definition mk_shortname :: "u8 list \<Rightarrow> u8 list" where
  "mk_shortname arg = (if take 5 arg = [117, 115, 101, 114, 47] then drop 5 arg else arg)"

text \<open>One turn of the loop over the arguments: the name and what read() returns for the file.\<close>

definition mk_add :: "u8 list \<times> u8 list list \<Rightarrow> image \<Rightarrow> image outcome" where
  "mk_add file img =
     (let (arg, reads) = file; shortname = mk_shortname arg in
      if 47 \<in> set shortname then opanic ''index(shortname, '/') == 0''
      else
        let shortname = (if shortname \<noteq> [] \<and> hd shortname = 95 then tl shortname else shortname) in
        obind (mk_ialloc T_FILE img) (\<lambda>(inum, img).
        obind (iappend ROOTINO (mk_dirent inum shortname) img) (ofold (iappend inum) reads)))"

definition mk_main :: "(u8 list \<times> u8 list list) list \<Rightarrow> image outcome" where
  "mk_main files =
     obind (mk_ialloc T_DIR mk_start) (\<lambda>(rootino, img).
      if rootino \<noteq> ROOTINO then opanic ''rootino == ROOTINO''
      else
        obind (iappend rootino (mk_dirent rootino [46]) img) (\<lambda>img.
        obind (iappend rootino (mk_dirent rootino [46, 46]) img) (\<lambda>img.
        obind (ofold mk_add files img) (\<lambda>img.
        obind (rinode rootino img) (\<lambda>din.
          let off = (i_size din div of_nat BSIZE + 1) * of_nat BSIZE in
        obind (winode rootino (din\<lparr>i_size := off\<rparr>) img) (\<lambda>img.
          mk_balloc (unat (freeblock img)) img))))))"

lemma fresh_file_ok:
  assumes "of_nat mk_nmeta \<le> freeblock img" "\<And>x. freeblock img \<le> x \<Longrightarrow> sector img x = (\<lambda>_. 0)"
    and low: "unat inum < NINODES" and x: "i_addrs x = (\<lambda>_. 0)"
  shows "file_ok (store_inode inum x img) (the_inode inum (store_inode inum x img)) 0"
proof -
  have z: "fblk (store_inode inum x img) (the_inode inum (store_inode inum x img)) f = 0" for f
    unfolding the_inode_store by (simp add: fblk_def with_dinode_def x free_inode_def)
  have a: "i_addrs (the_inode inum (store_inode inum x img)) NDIRECT = 0"
    unfolding the_inode_store by (simp add: with_dinode_def x)
  have "sector (store_inode inum x img) y = (\<lambda>_. 0)" if "freeblock img \<le> y" for y
  proof -
    have "mk_iblock inum < freeblock img" using inode_block_low [OF low] assms(1) by (auto intro: less_le_trans)
    then have "y \<noteq> mk_iblock inum" using that by auto
    then show ?thesis using assms(2) [OF that] by (simp add: store_inode_def put_sector_def)
  qed
  then show ?thesis using assms(1) unfolding file_ok_def z a by simp
qed

text \<open>The contents of file \<open>inum\<close> of an image.\<close>

definition file_bytes :: "u32 \<Rightarrow> image \<Rightarrow> u8 list" where
  "file_bytes inum img = map (fbyte img (the_inode inum img)) [0..<unat (i_size (the_inode inum img))]"

section \<open>Properties\<close>

text \<open>
  C36. iappend() appends or finds the image full: on an image whose sectors taken by the file are its own,
  for a file that stays within MAXFILE blocks, when the sectors that the file lacks for its new
  size, an indirect block included, are left in the image, no assertion fails and the file afterwards, read
  through its direct and indirect blocks, is what it was before followed by the new bytes. When
  they are not, the program ends with the error of the read beyond the end.
\<close>

theorem iappend_appends:
  assumes ok: "file_ok img (the_inode inum img) (length (file_bytes inum img))" and im: "image_ok img"
    and fits: "length (file_bytes inum img) + length p \<le> MAXFILE * BSIZE" and inum: "unat inum < NINODES"
  shows "if unat (freeblock img) + lacks img (the_inode inum img) (ceil_blocks (length (file_bytes inum img @ p))) \<le> sectors img
    then \<exists>img'. iappend inum p img = Ret img' \<and> file_bytes inum img' = file_bytes inum img @ p
    else iappend inum p img = opanic ''read''"
proof -
  let ?d = "the_inode inum img" and ?off = "unat (i_size (the_inode inum img))"
  have off: "length (file_bytes inum img) = ?off" by (simp add: file_bytes_def)
  have rd: "rinode inum img = Ret ?d" by (rule inode_inside(1) [OF im file_okD(1) [OF ok] inum])
  from iappend_loop_ok [OF im ok [unfolded off] fits [unfolded off]]
  have L: "if unat (freeblock img) + lacks img ?d (ceil_blocks (?off + length p)) \<le> sectors img
    then \<exists>d g. iappend_loop ?d ?off p img = Ret (d, ?off + length p, g) \<and> appended img ?d ?off p g d
    else iappend_loop ?d ?off p img = opanic ''read''" .
  have good: "\<exists>img'. iappend inum p img = Ret img' \<and> file_bytes inum img' = file_bytes inum img @ p"
    if l: "iappend_loop ?d ?off p img = Ret (d, ?off + length p, g)" and a: "appended img ?d ?off p g d" for d g
  proof -
    note r = a [unfolded appended_def]
    have fo: "file_ok g d (?off + length p)" "image_ok g" using r by blast+
    let ?n = "of_nat (?off + length p) :: u32"
    define img' where "img' = store_inode inum (d\<lparr>i_size := ?n\<rparr>) g"
    have "iappend inum p img = Ret img'"
      using rd l inode_inside(2) [OF fo(2) file_okD(1) [OF fo(1)] inum] by (simp add: iappend_def img'_def)
    moreover have rd': "the_inode inum img' = with_dinode (d\<lparr>i_size := ?n\<rparr>) free_inode" by (simp add: img'_def the_inode_store)
    have "?off + length p < 2 ^ 32" using fits off by simp
    then have sz: "unat (i_size (the_inode inum img')) = ?off + length p"
      unfolding rd' by (simp add: with_dinode_def unsigned_of_nat take_bit_nat_eq_self del: of_nat_add)
    have fb: "fbyte img' (the_inode inum img') j = fbyte g d j" if "j < ?off + length p" for j
      unfolding rd' unfolding img'_def by (rule fbyte_store [OF fo(1) inum that]) (use fits off in simp)
    have "file_bytes inum img' = file_bytes inum img @ p"
    proof (rule nth_equalityI)
      show "length (file_bytes inum img') = length (file_bytes inum img @ p)" using sz off by (simp add: file_bytes_def)
      fix j assume "j < length (file_bytes inum img')"
      then have j: "j < ?off + length p" using sz by (simp add: file_bytes_def)
      then have e: "file_bytes inum img' ! j = fbyte g d j" using fb sz by (simp add: file_bytes_def)
      show "file_bytes inum img' ! j = (file_bytes inum img @ p) ! j"
      proof (cases "j < ?off")
        case True
        then have "fbyte g d j = fbyte img ?d j" using r by blast
        with True show ?thesis unfolding e by (simp add: file_bytes_def nth_append)
      next
        case False
        then have "j - ?off < length p" "?off + (j - ?off) = j" using j by simp_all
        then have "fbyte g d j = p ! (j - ?off)" using r by metis
        then show ?thesis unfolding e using False off by (simp add: nth_append)
      qed
    qed
    ultimately show ?thesis by blast
  qed
  show ?thesis
  proof (cases "unat (freeblock img) + lacks img ?d (ceil_blocks (?off + length p)) \<le> sectors img")
    case True
    with L good show ?thesis unfolding length_append off by auto
  next
    case False
    with L have "iappend_loop ?d ?off p img = opanic ''read''" by simp
    with rd have "iappend inum p img = opanic ''read''" by (simp add: iappend_def)
    with False show ?thesis unfolding length_append off by simp
  qed
qed

text \<open>Three bytes for the new root directory, and for the same on an image that is full.\<close>

theorem iappend_appends_witness:
  "\<exists>img. mk_ialloc T_DIR mk_start = Ret (1, img) \<and>
     (\<exists>img'. iappend 1 [1, 2, 3] img = Ret img' \<and> file_bytes 1 img' = [1, 2, 3]) \<and>
     iappend 1 [1, 2, 3] (img\<lparr>freeblock := of_nat FSSIZE\<rparr>) = opanic ''read''"
proof -
  obtain buf where st: "mk_start = \<lparr>sector = (\<lambda>_ _. 0)(1 := buf), sectors = FSSIZE, freeinode = 1, freeblock = of_nat mk_nmeta\<rparr>"
    by (rule mk_start_eq)
  let ?x = "free_inode\<lparr>i_type := T_DIR, i_nlink := 1, i_size := 0\<rparr>"
  define g where "g b = mk_start\<lparr>freeinode := 2, freeblock := b\<rparr>" for b
  have nm: "mk_nmeta = 46" by (simp add: mk_nmeta_def mk_nlog_def mk_ninodeblocks_def mk_nbitmap_def)
  have g: "sectors (g b) = FSSIZE" "freeblock (g b) = b" "sector (g b) = (\<lambda>_ _. 0)(1 := buf)" for b
    by (simp_all add: g_def st)
  have ok: "image_ok (store_inode 1 ?x (g b))" if "unat b \<le> FSSIZE" for b using that g by (simp add: image_ok_def)
  have fo: "file_ok (store_inode 1 ?x (g b)) (the_inode 1 (store_inode 1 ?x (g b))) 0" if "of_nat mk_nmeta \<le> b" for b
  proof (rule fresh_file_ok)
    fix y assume "freeblock (g b) \<le> y"
    then have "of_nat mk_nmeta \<le> y" using that g(2) by simp
    then have "y \<noteq> 1" by (auto simp: nm word_le_nat_alt)
    then show "sector (g b) y = (\<lambda>_. 0)" by (simp add: g(3))
  qed (use that g in \<open>simp_all add: free_inode_def\<close>)
  have z: "file_bytes 1 (store_inode 1 ?x (g b)) = []" for b
    unfolding file_bytes_def the_inode_store by (simp add: with_dinode_def)
  have la: "lacks (store_inode 1 ?x (g b)) (the_inode 1 (store_inode 1 ?x (g b))) (ceil_blocks 3) = 1" for b
  proof -
    have "fblk (store_inode 1 ?x (g b)) (the_inode 1 (store_inode 1 ?x (g b))) 0 = 0"
      unfolding the_inode_store by (simp add: fblk_def with_dinode_def free_inode_def)
    then have "{f. f < 1 \<and> fblk (store_inode 1 ?x (g b)) (the_inode 1 (store_inode 1 ?x (g b))) f = 0} = {0}" by auto
    then show ?thesis by (simp add: lacks_def ceil_blocks_def)
  qed
  have A: "if unat b + 1 \<le> FSSIZE
      then \<exists>img'. iappend 1 [1, 2, 3] (store_inode 1 ?x (g b)) = Ret img' \<and> file_bytes 1 img' = [1, 2, 3]
      else iappend 1 [1, 2, 3] (store_inode 1 ?x (g b)) = opanic ''read''" if "of_nat mk_nmeta \<le> b" "unat b \<le> FSSIZE" for b
    using iappend_appends [where inum = 1 and img = "store_inode 1 ?x (g b)" and p = "[1, 2, 3]"] fo [OF that(1)] ok [OF that(2)] la [of b] z [of b] g
    by (auto simp: numeral_3_eq_3 split: if_splits)
  have start: "mk_start\<lparr>freeinode := 2\<rparr> = g (of_nat mk_nmeta)" by (simp add: g_def st)
  have full: "(store_inode 1 ?x (g (of_nat mk_nmeta)))\<lparr>freeblock := of_nat FSSIZE\<rparr> = store_inode 1 ?x (g (of_nat FSSIZE))"
    by (simp add: store_inode_def put_sector_def g_def)
  have "winode 1 ?x (g (of_nat mk_nmeta)) = Ret (store_inode 1 ?x (g (of_nat mk_nmeta)))"
    by (rule inode_inside) (simp_all add: image_ok_def g nm)
  then have "mk_ialloc T_DIR mk_start = Ret (1, store_inode 1 ?x (g (of_nat mk_nmeta)))"
    using start by (simp add: mk_ialloc_def st)
  moreover have "\<exists>img'. iappend 1 [1, 2, 3] (store_inode 1 ?x (g (of_nat mk_nmeta))) = Ret img' \<and> file_bytes 1 img' = [1, 2, 3]"
    using A [of "of_nat mk_nmeta"] by (simp add: nm)
  moreover have "iappend 1 [1, 2, 3] (store_inode 1 ?x (g (of_nat FSSIZE))) = opanic ''read''"
    using A [of "of_nat FSSIZE"] by (simp add: nm word_le_nat_alt)
  ultimately show ?thesis using full by metis
qed

end
