(* ===== verification/Xv6_Boot.thy ===== *)
theory Xv6_Boot
  imports Xv6_Sleeplock Xv6_Param Xv6_Bytes
begin

text \<open>
  Start-up: start.c in machine mode, main.c, the interrupt controller of plic.c, and ramdisk.c,
  which the build leaves out. Memory-mapped registers are a function from addresses; the
  addresses the linker gives to main(), timervec() and timer_scratch are arguments.
\<close>

unbundle bit_operations_syntax

section \<open>Machine mode\<close>

abbreviation MSTATUS_MPP_MASK :: u64 where "MSTATUS_MPP_MASK \<equiv> push_bit 11 3"
abbreviation MSTATUS_MPP_S :: u64 where "MSTATUS_MPP_S \<equiv> push_bit 11 1"
abbreviation MSTATUS_MIE :: u64 where "MSTATUS_MIE \<equiv> push_bit 3 1"
abbreviation SIE_SEIE :: u64 where "SIE_SEIE \<equiv> push_bit 9 1"
abbreviation SIE_STIE :: u64 where "SIE_STIE \<equiv> push_bit 5 1"
abbreviation SIE_SSIE :: u64 where "SIE_SSIE \<equiv> push_bit 1 1"
abbreviation MIE_MTIE :: u64 where "MIE_MTIE \<equiv> push_bit 7 1"

abbreviation CLINT :: u64 where "CLINT \<equiv> 0x2000000"
abbreviation CLINT_MTIME :: u64 where "CLINT_MTIME \<equiv> CLINT + 0xBFF8"

definition clint_mtimecmp :: "u64 \<Rightarrow> u64" where
  "clint_mtimecmp hartid = CLINT + 0x4000 + 8 * hartid"

text \<open>The control registers of a hart, the registers of the CLINT and the array timer_scratch.\<close>

record machine =
  m_mstatus :: u64
  m_mepc :: u64
  m_satp :: u64
  m_medeleg :: u64
  m_mideleg :: u64
  m_sie :: u64
  m_mie :: u64
  m_mtvec :: u64
  m_mscratch :: u64
  m_pmpaddr0 :: u64
  m_pmpcfg0 :: u64
  m_mhartid :: u64
  m_tp :: u64
  clint :: "u64 \<Rightarrow> u64"
  timer_scratch :: "u64 \<Rightarrow> nat \<Rightarrow> u64"

record boot_link =
  l_main :: u64
  l_timervec :: u64
  l_timer_scratch :: u64

definition timerinit :: "boot_link \<Rightarrow> machine \<Rightarrow> machine" where
  "timerinit l m =
     (let id = m_mhartid m;
          interval = 1000000;
          m = m\<lparr>clint := (clint m)(clint_mtimecmp id := clint m CLINT_MTIME + interval)\<rparr>;
          m = m\<lparr>timer_scratch := (timer_scratch m)(id := (timer_scratch m id)(3 := clint_mtimecmp id, 4 := interval))\<rparr>;
          m = m\<lparr>m_mscratch := l_timer_scratch l + 40 * id\<rparr>;
          m = m\<lparr>m_mtvec := l_timervec l\<rparr>;
          m = m\<lparr>m_mstatus := m_mstatus m OR MSTATUS_MIE\<rparr>
      in m\<lparr>m_mie := m_mie m OR MIE_MTIE\<rparr>)"

text \<open>start() up to the mret, which goes to \<open>m_mepc\<close> in the mode that mstatus names.\<close>

definition start :: "boot_link \<Rightarrow> machine \<Rightarrow> machine" where
  "start l m =
     (let x = m_mstatus m AND NOT MSTATUS_MPP_MASK;
          x = x OR MSTATUS_MPP_S;
          m = m\<lparr>m_mstatus := x\<rparr>;
          m = m\<lparr>m_mepc := l_main l\<rparr>;
          m = m\<lparr>m_satp := 0\<rparr>;
          m = m\<lparr>m_medeleg := 0xffff\<rparr>;
          m = m\<lparr>m_mideleg := 0xffff\<rparr>;
          m = m\<lparr>m_sie := m_sie m OR (SIE_SEIE OR SIE_STIE OR SIE_SSIE)\<rparr>;
          m = m\<lparr>m_pmpaddr0 := 0x3fffffffffffff\<rparr>;
          m = m\<lparr>m_pmpcfg0 := 0xf\<rparr>;
          m = timerinit l m
      in m\<lparr>m_tp := m_mhartid m\<rparr>)"

text \<open>After start() the mode to return to is the supervisor's, and only that field and one bit have changed.\<close>

lemma start_mode:
  "m_mstatus (start l m) AND MSTATUS_MPP_MASK = MSTATUS_MPP_S"
  "bit (m_mstatus (start l m)) 3"
  "m_mstatus (start l m) AND NOT (MSTATUS_MPP_MASK OR MSTATUS_MIE) = m_mstatus m AND NOT (MSTATUS_MPP_MASK OR MSTATUS_MIE)"
  by (simp_all add: start_def timerinit_def Let_def bit.conj_disj_distrib2 and.assoc bit_or_iff)

lemma start_timer:
  "clint (start l m) = (clint m)(clint_mtimecmp (m_mhartid m) := clint m CLINT_MTIME + 1000000)"
  "timer_scratch (start l m) (m_mhartid m) 3 = clint_mtimecmp (m_mhartid m)"
  "m_tp (start l m) = m_mhartid m"
  by (simp_all add: start_def timerinit_def Let_def)

section \<open>The interrupt controller\<close>

abbreviation UART0_IRQ :: nat where "UART0_IRQ \<equiv> 10"
abbreviation VIRTIO0_IRQ :: nat where "VIRTIO0_IRQ \<equiv> 1"
abbreviation PLIC :: u64 where "PLIC \<equiv> 0x0c000000"

type_synonym plic_regs = "u64 \<Rightarrow> u32"

definition plic_senable :: "u64 \<Rightarrow> u64" where
  "plic_senable hart = PLIC + 0x2080 + hart * 0x100"

definition plic_spriority :: "u64 \<Rightarrow> u64" where
  "plic_spriority hart = PLIC + 0x201000 + hart * 0x2000"

definition plic_sclaim :: "u64 \<Rightarrow> u64" where
  "plic_sclaim hart = PLIC + 0x201004 + hart * 0x2000"

definition plicinit :: "plic_regs \<Rightarrow> plic_regs" where
  "plicinit m = m(PLIC + of_nat UART0_IRQ * 4 := 1, PLIC + of_nat VIRTIO0_IRQ * 4 := 1)"

definition plicinithart :: "u64 \<Rightarrow> plic_regs \<Rightarrow> plic_regs" where
  "plicinithart hart m =
     m(plic_senable hart := push_bit UART0_IRQ 1 OR push_bit VIRTIO0_IRQ 1, plic_spriority hart := 0)"

text \<open>What the controller answers to the read is the contents of the register.\<close>

definition plic_claim :: "u64 \<Rightarrow> plic_regs \<Rightarrow> u32" where
  "plic_claim hart m = m (plic_sclaim hart)"

definition plic_complete :: "u64 \<Rightarrow> u32 \<Rightarrow> plic_regs \<Rightarrow> plic_regs" where
  "plic_complete hart irq m = m(plic_sclaim hart := irq)"

text \<open>A hart gets the two interrupts devintr() knows and no other, and leaves the other harts alone.\<close>

lemma plic_addr:
  assumes "hart < of_nat NCPU"
  shows "unat (plic_senable hart) = 0xc002080 + unat hart * 0x100"
    "unat (plic_spriority hart) = 0xc201000 + unat hart * 0x2000"
    "unat (plic_sclaim hart) = 0xc201004 + unat hart * 0x2000"
    "unat hart < 8"
proof -
  show *: "unat hart < 8" using assms by (simp add: word_less_nat_alt)
  have a: "unat (b + hart * c) = unat b + unat hart * unat c" if "unat b + 8 * unat c < 2 ^ 64" for b c :: u64
  proof -
    have "unat hart * unat c \<le> 8 * unat c" using * by (intro mult_right_mono) simp_all
    then have "unat b + unat hart * unat c < 2 ^ 64" using that by linarith
    then show ?thesis by (simp add: unat_word_ariths)
  qed
  show "unat (plic_senable hart) = 0xc002080 + unat hart * 0x100"
    unfolding plic_senable_def by (subst a) simp_all
  show "unat (plic_spriority hart) = 0xc201000 + unat hart * 0x2000"
    unfolding plic_spriority_def by (subst a) simp_all
  show "unat (plic_sclaim hart) = 0xc201004 + unat hart * 0x2000"
    unfolding plic_sclaim_def by (subst a) simp_all
qed

lemma plic_enables:
  assumes "hart < of_nat NCPU" "irq < 32"
  shows "bit (plicinithart hart m (plic_senable hart)) irq \<longleftrightarrow> irq \<in> {UART0_IRQ, VIRTIO0_IRQ}"
proof -
  note a = plic_addr [OF assms(1)]
  have "plic_senable hart \<noteq> plic_spriority hart"
  proof
    assume "plic_senable hart = plic_spriority hart"
    then have "0xc002080 + unat hart * 0x100 = 0xc201000 + unat hart * 0x2000" using a(1,2) by simp
    then show False using a(4) by linarith
  qed
  then have "plicinithart hart m (plic_senable hart) = 2 ^ 10 OR 2 ^ 1"
    by (auto simp: plicinithart_def push_bit_eq_mult)
  moreover have "bit (2 ^ 10 OR 2 ^ 1 :: u32) irq \<longleftrightarrow> irq = 10 \<or> irq = 1"
    using assms(2) by (simp only: bit_or_iff bit_exp_iff) auto
  ultimately show ?thesis by simp
qed

lemma plic_harts_apart:
  assumes "hart < of_nat NCPU" "other < of_nat NCPU" "hart \<noteq> other"
  shows "plicinithart hart m (plic_senable other) = m (plic_senable other)"
    "plicinithart hart m (plic_spriority other) = m (plic_spriority other)"
    "plic_claim other (plic_complete hart irq m) = plic_claim other m"
proof -
  note a = plic_addr [OF assms(1)] and b = plic_addr [OF assms(2)]
  have n: "unat hart \<noteq> unat other" using assms(3) by (simp add: word_unat_eq_iff)
  have "plic_senable other \<noteq> plic_senable hart" using a(1) b(1) n by auto
  moreover have "plic_senable other \<noteq> plic_spriority hart"
  proof
    assume "plic_senable other = plic_spriority hart"
    then have "0xc002080 + unat other * 0x100 = 0xc201000 + unat hart * 0x2000" using a(2) b(1) by simp
    then show False using b(4) by linarith
  qed
  moreover have "plic_spriority other \<noteq> plic_senable hart"
  proof
    assume "plic_spriority other = plic_senable hart"
    then have "0xc002080 + unat hart * 0x100 = 0xc201000 + unat other * 0x2000" using a(1) b(2) by simp
    then show False using a(4) by linarith
  qed
  moreover have "plic_spriority other \<noteq> plic_spriority hart" using a(2) b(2) n by auto
  moreover have "plic_sclaim other \<noteq> plic_sclaim hart" using a(3) b(3) n by auto
  ultimately show "plicinithart hart m (plic_senable other) = m (plic_senable other)"
    "plicinithart hart m (plic_spriority other) = m (plic_spriority other)"
    "plic_claim other (plic_complete hart irq m) = plic_claim other m"
    by (simp_all only: plicinithart_def plic_claim_def plic_complete_def fun_upd_apply if_False)
qed

section \<open>The order of the initialisers\<close>

datatype boot_call =
  Consoleinit | Printfinit | Greeting | Kinit | Kvminit | Kvminithart | Procinit | Trapinit | Trapinithart
| Plicinit | Plicinithart | Binit | Iinit | Fileinit | Virtio_disk_init | Userinit
| Set_started | Wait_started | Say_starting | Scheduler

text \<open>The calls of main() on hart \<open>h\<close>, and the loop on \<open>started\<close> as one step that waits.\<close>

definition main_calls :: "nat \<Rightarrow> boot_call list" where
  "main_calls h =
     (if h = 0 then
        [Consoleinit, Printfinit, Greeting, Kinit, Kvminit, Kvminithart, Procinit, Trapinit, Trapinithart,
         Plicinit, Plicinithart, Binit, Iinit, Fileinit, Virtio_disk_init, Userinit, Set_started]
      else [Wait_started, Say_starting, Kvminithart, Trapinithart, Plicinithart])
     @ [Scheduler]"

record boot_state =
  boot_pc :: "nat \<Rightarrow> nat"
  started :: bool

inductive boot_step :: "boot_state \<Rightarrow> boot_state \<Rightarrow> bool" where
  call: "\<lbrakk>h < NCPU; boot_pc s h < length (main_calls h); c = main_calls h ! boot_pc s h; c = Wait_started \<longrightarrow> started s\<rbrakk>
    \<Longrightarrow> boot_step s (s\<lparr>boot_pc := (boot_pc s)(h := boot_pc s h + 1), started := started s \<or> c = Set_started\<rparr>)"

definition boot_start :: boot_state where
  "boot_start = \<lparr>boot_pc = (\<lambda>_. 0), started = False\<rparr>"

definition boot_inv :: "boot_state \<Rightarrow> bool" where
  "boot_inv s \<longleftrightarrow> (started s \<longrightarrow> 17 \<le> boot_pc s 0) \<and> (\<forall>h. h \<noteq> 0 \<longrightarrow> 0 < boot_pc s h \<longrightarrow> started s)"

lemma set_started_last:
  assumes "main_calls h ! i = Set_started" "i < length (main_calls h)"
  shows "h = 0 \<and> i = 16"
  using assms by (auto simp: main_calls_def less_Suc_eq nth_Cons' split: if_splits)

lemma boot_step_inv: "boot_step s t \<Longrightarrow> boot_inv s \<Longrightarrow> boot_inv t"
proof (induction rule: boot_step.induct)
  case (call h s c)
  let ?t = "s\<lparr>boot_pc := (boot_pc s)(h := boot_pc s h + 1), started := started s \<or> c = Set_started\<rparr>"
  have inv: "started s \<longrightarrow> 17 \<le> boot_pc s 0" "\<And>g. g \<noteq> 0 \<Longrightarrow> 0 < boot_pc s g \<Longrightarrow> started s"
    using call(5) unfolding boot_inv_def by blast+
  have "17 \<le> boot_pc ?t 0" if "started ?t"
  proof (cases "started s")
    case True
    then show ?thesis using inv(1) by (cases "h = 0") simp_all
  next
    case False
    then have "main_calls h ! boot_pc s h = Set_started" using that call(3) by simp
    from set_started_last [OF this call(2)] have "h = 0" "boot_pc s 0 = 16" by blast+
    then show ?thesis by simp
  qed
  moreover have "started ?t" if "g \<noteq> 0" "0 < boot_pc ?t g" for g
  proof (cases "g = h \<and> boot_pc s h = 0")
    case True
    then have "c = Wait_started" using call(3) that(1) by (simp add: main_calls_def)
    then show ?thesis using call(4) by simp
  next
    case False
    then have "0 < boot_pc s g" using that(2) by (cases "g = h") simp_all
    then show ?thesis using inv(2) [OF that(1)] by simp
  qed
  ultimately show ?case unfolding boot_inv_def by blast
qed

text \<open>No other hart turns paging on, or does anything, before hart 0 has finished every initialiser.\<close>

lemma harts_wait:
  assumes "boot_step\<^sup>*\<^sup>* boot_start s" "h \<noteq> 0" "0 < boot_pc s h"
  shows "set (take (boot_pc s 0) (main_calls 0)) \<supseteq> set (main_calls 0) - {Scheduler}"
proof -
  have "boot_inv s" using assms(1)
  proof (induction rule: rtranclp_induct)
    case base
    show ?case by (simp add: boot_inv_def boot_start_def)
  next
    case (step t u)
    then show ?case using boot_step_inv by blast
  qed
  then have "17 \<le> boot_pc s 0" using assms(2,3) by (auto simp: boot_inv_def)
  then have "set (take 17 (main_calls 0)) \<subseteq> set (take (boot_pc s 0) (main_calls 0))" by (rule set_take_subset_set_take)
  then show ?thesis by (auto simp: main_calls_def)
qed

section \<open>The RAM disk\<close>

text \<open>
  The code is written for a buffer with flags, which struct buf no longer has, and for the names
  B_VALID, B_DIRTY and RAMDISK, which nothing defines: the two bits are arguments, and
  the disk is a function of the offset from RAMDISK.
\<close>

record rbuf =
  rb_flags :: u32
  rb_blockno :: u32
  rb_lock :: sleeplock
  rb_data :: bytes

definition ramdiskrw :: "u32 \<Rightarrow> u32 \<Rightarrow> int \<Rightarrow> rbuf \<Rightarrow> bytes \<Rightarrow> (rbuf \<times> bytes) outcome" where
  "ramdiskrw B_VALID B_DIRTY pid b disk =
     (if \<not> holdingsleep pid (rb_lock b) then opanic ''ramdiskrw: buf not locked''
      else if rb_flags b AND (B_VALID OR B_DIRTY) = B_VALID then opanic ''ramdiskrw: nothing to do''
      else if of_nat FSSIZE \<le> rb_blockno b then opanic ''ramdiskrw: blockno too big''
      else
        let diskaddr = unat (rb_blockno b * of_nat BSIZE) in
        if rb_flags b AND B_DIRTY \<noteq> 0 then
          Ret (b\<lparr>rb_flags := rb_flags b AND NOT B_DIRTY\<rparr>,
            \<lambda>i. if diskaddr \<le> i \<and> i < diskaddr + BSIZE then rb_data b (i - diskaddr) else disk i)
        else
          Ret (b\<lparr>rb_data := (\<lambda>i. if i < BSIZE then disk (diskaddr + i) else rb_data b i),
                 rb_flags := rb_flags b OR B_VALID\<rparr>, disk))"

text \<open>A block written and read again into another buffer.\<close>

lemma ramdisk_reads_back:
  assumes "ramdiskrw V D pid b disk = Ret (b', disk')" "rb_flags b AND D \<noteq> 0" "V \<noteq> 0"
    and "rb_blockno c = rb_blockno b" "holdingsleep pid (rb_lock c)" "rb_flags c = 0"
  shows "\<exists>c'. ramdiskrw V D pid c disk' = Ret (c', disk') \<and> (\<forall>i < BSIZE. rb_data c' i = rb_data b i)"
  using assms by (auto simp: ramdiskrw_def outcome_simps Let_def split: if_splits)

end
