(* ===== verification/Xv6_Spinlock.thy ===== *)
theory Xv6_Spinlock
  imports Xv6_Prelude
begin

text \<open>
  Spin locks (kernel/spinlock.c) with the harts interleaved at the atomic steps of acquire() and
  release(): the amoswap of the spin, and the stores to \<open>lk->cpu\<close> and \<open>lk->locked\<close>. A hart is a
  number; \<open>cp_intr\<close> is its interrupt-enable bit. Memory is sequentially consistent, which is what
  the fences of the code ask for around the critical section.
\<close>

section \<open>Locks and harts\<close>

record spinlock =
  lk_locked :: bool
  lk_cpu :: "nat option"

record cpu =
  cp_noff :: int
  cp_intena :: bool
  cp_intr :: bool

definition initlock :: "spinlock \<Rightarrow> spinlock" where
  "initlock lk = lk\<lparr>lk_locked := False, lk_cpu := None\<rparr>"

definition push_off :: "cpu \<Rightarrow> cpu" where
  "push_off c =
     (let old = cp_intr c;
          c = c\<lparr>cp_intr := False\<rparr>;
          c = (if cp_noff c = 0 then c\<lparr>cp_intena := old\<rparr> else c)
      in c\<lparr>cp_noff := cp_noff c + 1\<rparr>)"

definition pop_off :: "cpu \<Rightarrow> cpu outcome" where
  "pop_off c =
     (if cp_intr c then opanic ''pop_off - interruptible''
      else if cp_noff c < 1 then opanic ''pop_off''
      else
        (let c = c\<lparr>cp_noff := cp_noff c - 1\<rparr>
         in Ret (if cp_noff c = 0 \<and> cp_intena c then c\<lparr>cp_intr := True\<rparr> else c)))"

definition holding :: "nat \<Rightarrow> spinlock \<Rightarrow> bool" where
  "holding h lk = (lk_locked lk \<and> lk_cpu lk = Some h)"

text \<open>acquire() up to its loop.\<close>

definition acquire_begin :: "nat \<Rightarrow> spinlock \<Rightarrow> cpu \<Rightarrow> cpu outcome" where
  "acquire_begin h lk c =
     (let c = push_off c in if holding h lk then opanic ''acquire'' else Ret c)"

text \<open>The atomic swap: the old value and the lock after it.\<close>

definition test_and_set :: "spinlock \<Rightarrow> bool \<times> spinlock" where
  "test_and_set lk = (lk_locked lk, lk\<lparr>lk_locked := True\<rparr>)"

definition acquire_end :: "nat \<Rightarrow> spinlock \<Rightarrow> spinlock" where
  "acquire_end h lk = lk\<lparr>lk_cpu := Some h\<rparr>"

text \<open>acquire() on a hart that no other interrupts: it spins for ever when the lock is taken.\<close>

definition acquire :: "nat \<Rightarrow> spinlock \<times> cpu \<Rightarrow> (spinlock \<times> cpu) outcome" where
  "acquire h s =
     (let (lk, c) = s in
      obind (acquire_begin h lk c) (\<lambda>c.
      let (old, lk) = test_and_set lk in
      if old then Fail Blocked else Ret (acquire_end h lk, c)))"

definition release_begin :: "nat \<Rightarrow> spinlock \<Rightarrow> spinlock outcome" where
  "release_begin h lk = (if \<not> holding h lk then opanic ''release'' else Ret (lk\<lparr>lk_cpu := None\<rparr>))"

definition release_store :: "spinlock \<Rightarrow> spinlock" where
  "release_store lk = lk\<lparr>lk_locked := False\<rparr>"

definition release :: "nat \<Rightarrow> spinlock \<times> cpu \<Rightarrow> (spinlock \<times> cpu) outcome" where
  "release h s =
     (let (lk, c) = s in
      obind (release_begin h lk) (\<lambda>lk.
      obind (pop_off c) (\<lambda>c. Ret (release_store lk, c))))"

section \<open>Interleaved harts\<close>

text \<open>
  Where a hart is: outside, in the loop of acquire(), between the swap that took the lock and the
  store to \<open>lk->cpu\<close>, in the critical section, between the two stores of release(), before pop_off().
\<close>

datatype place = Out | Spin | Got | Crit | Rel | Pop

record smp =
  sm_lock :: spinlock
  sm_cpu :: "nat \<Rightarrow> cpu"
  sm_at :: "nat \<Rightarrow> place"

definition set_at :: "nat \<Rightarrow> place \<Rightarrow> smp \<Rightarrow> smp" where
  "set_at h p s = s\<lparr>sm_at := (sm_at s)(h := p)\<rparr>"

definition set_cpu :: "nat \<Rightarrow> cpu \<Rightarrow> smp \<Rightarrow> smp" where
  "set_cpu h c s = s\<lparr>sm_cpu := (sm_cpu s)(h := c)\<rparr>"

lemma smp_simps [simp]:
  "sm_lock (set_at h p s) = sm_lock s" "sm_cpu (set_at h p s) = sm_cpu s"
  "sm_at (set_at h p s) = (sm_at s)(h := p)" "sm_lock (set_cpu h c s) = sm_lock s"
  "sm_cpu (set_cpu h c s) = (sm_cpu s)(h := c)" "sm_at (set_cpu h c s) = sm_at s"
  by (simp_all add: set_at_def set_cpu_def)

text \<open>One atomic step of one hart. Outside, a hart turns its interrupts on and off as it likes.\<close>

inductive smp_step :: "smp \<Rightarrow> smp \<Rightarrow> bool" where
  enter: "\<lbrakk>sm_at s h = Out; acquire_begin h (sm_lock s) (sm_cpu s h) = Ret c\<rbrakk> \<Longrightarrow>
    smp_step s (set_at h Spin (set_cpu h c s))"
| swap: "\<lbrakk>sm_at s h = Spin; test_and_set (sm_lock s) = (old, lk)\<rbrakk> \<Longrightarrow>
    smp_step s (set_at h (if old then Spin else Got) (s\<lparr>sm_lock := lk\<rparr>))"
| own: "sm_at s h = Got \<Longrightarrow> smp_step s (set_at h Crit (s\<lparr>sm_lock := acquire_end h (sm_lock s)\<rparr>))"
| disown: "\<lbrakk>sm_at s h = Crit; release_begin h (sm_lock s) = Ret lk\<rbrakk> \<Longrightarrow>
    smp_step s (set_at h Rel (s\<lparr>sm_lock := lk\<rparr>))"
| unlock: "sm_at s h = Rel \<Longrightarrow> smp_step s (set_at h Pop (s\<lparr>sm_lock := release_store (sm_lock s)\<rparr>))"
| pop: "\<lbrakk>sm_at s h = Pop; pop_off (sm_cpu s h) = Ret c\<rbrakk> \<Longrightarrow> smp_step s (set_at h Out (set_cpu h c s))"
| toggle: "sm_at s h = Out \<Longrightarrow> smp_step s (set_cpu h ((sm_cpu s h)\<lparr>cp_intr := b\<rparr>) s)"

definition smp_start :: "smp \<Rightarrow> bool" where
  "smp_start s \<longleftrightarrow> (\<exists>lk. sm_lock s = initlock lk) \<and> (\<forall>h. sm_at s h = Out \<and> cp_noff (sm_cpu s h) = 0)"

abbreviation owns :: "smp \<Rightarrow> nat \<Rightarrow> bool" where
  "owns s h \<equiv> sm_at s h \<in> {Got, Crit, Rel}"

text \<open>
  The lock is taken exactly while some hart owns it, only one does, \<open>lk->cpu\<close> names the hart in
  the critical section, and interrupts are off from the first push_off() to the last pop_off().
\<close>

definition hart_ok :: "place \<Rightarrow> cpu \<Rightarrow> bool" where
  "hart_ok p c \<longleftrightarrow> (if p = Out then cp_noff c = 0 else cp_noff c = 1 \<and> \<not> cp_intr c)"

definition smp_inv :: "smp \<Rightarrow> bool" where
  "smp_inv s \<longleftrightarrow>
     (lk_locked (sm_lock s) \<longleftrightarrow> (\<exists>h. owns s h)) \<and>
     (\<forall>h h'. owns s h \<and> owns s h' \<longrightarrow> h = h') \<and>
     (\<forall>h. lk_cpu (sm_lock s) = Some h \<longleftrightarrow> sm_at s h = Crit) \<and>
     (\<forall>h. hart_ok (sm_at s h) (sm_cpu s h))"

lemma smp_inv_start: "smp_start s \<Longrightarrow> smp_inv s"
  by (auto simp: smp_start_def smp_inv_def initlock_def hart_ok_def)

lemma acquire_begin_ok: "acquire_begin h lk c = Ret c' \<Longrightarrow> hart_ok Out c \<Longrightarrow> hart_ok Spin c'"
  by (auto simp: acquire_begin_def push_off_def hart_ok_def Let_def split: if_splits)

lemma pop_off_ok: "pop_off c = Ret c' \<Longrightarrow> hart_ok Pop c \<Longrightarrow> hart_ok Out c'"
  by (auto simp: pop_off_def hart_ok_def Let_def split: if_splits)

text \<open>A step that does not change who owns the lock.\<close>

lemma smp_inv_same:
  assumes "smp_inv s" and "lk_locked (sm_lock s') = lk_locked (sm_lock s)"
    and "\<And>x. owns s' x \<longleftrightarrow> owns s x"
    and "\<And>x. lk_cpu (sm_lock s') = Some x \<longleftrightarrow> sm_at s' x = Crit"
    and "\<And>x. hart_ok (sm_at s' x) (sm_cpu s' x)"
  shows "smp_inv s'"
  using assms unfolding smp_inv_def by presburger

lemma smp_inv_parts:
  assumes "smp_inv s"
  shows "lk_locked (sm_lock s) \<longleftrightarrow> (\<exists>h. owns s h)"
    and "owns s h \<Longrightarrow> owns s h' \<Longrightarrow> h = h'"
    and "lk_cpu (sm_lock s) = Some h \<longleftrightarrow> sm_at s h = Crit"
    and "hart_ok (sm_at s h) (sm_cpu s h)"
  using assms unfolding smp_inv_def by blast+

lemma hart_ok_inside: "p \<noteq> Out \<Longrightarrow> q \<noteq> Out \<Longrightarrow> hart_ok p c = hart_ok q c"
  by (simp add: hart_ok_def)

lemma smp_inv_step: "\<lbrakk>smp_step s s'; smp_inv s\<rbrakk> \<Longrightarrow> smp_inv s'"
proof (induction rule: smp_step.induct)
  case (enter s h c)
  note I = smp_inv_parts [OF enter.prems]
  show ?case
    by (rule smp_inv_same [OF enter.prems])
      (use enter I(3,4) acquire_begin_ok [OF enter(2)] I(4) [of h] in \<open>auto\<close>)
next
  case (swap s h old lk)
  note I = smp_inv_parts [OF swap.prems]
  have l: "old = lk_locked (sm_lock s)" "lk = (sm_lock s)\<lparr>lk_locked := True\<rparr>"
    using swap(2) by (auto simp: test_and_set_def)
  show ?case
  proof (cases old)
    case True
    show ?thesis
      by (rule smp_inv_same [OF swap.prems]) (use swap(1) True l I(3,4) in \<open>auto simp: fun_upd_idem\<close>)
  next
    case False
    then have "\<not> owns s x" for x using I(1) l by blast
    then show ?thesis
      using swap(1) False l I(3) I(4) hart_ok_inside [of Spin Got "sm_cpu s h"]
      by (auto simp: smp_inv_def) (metis place.distinct)+
  qed
next
  case (own s h)
  note I = smp_inv_parts [OF own.prems]
  have o: "owns s h" using own(1) by simp
  have "sm_at s x \<noteq> Crit" if "x \<noteq> h" for x using I(2) [OF o, of x] that by auto
  moreover have "hart_ok Crit (sm_cpu s h)" using I(4) [of h] own(1) hart_ok_inside by auto
  ultimately show ?case
    by (intro smp_inv_same [OF own.prems]) (use own(1) I(4) in \<open>auto simp: acquire_end_def\<close>)
next
  case (disown s h lk)
  note I = smp_inv_parts [OF disown.prems]
  have o: "owns s h" using disown(1) by simp
  have "sm_at s x \<noteq> Crit" if "x \<noteq> h" for x using I(2) [OF o, of x] that by auto
  moreover have "hart_ok Rel (sm_cpu s h)" using I(4) [of h] disown(1) hart_ok_inside by auto
  ultimately show ?case
    by (intro smp_inv_same [OF disown.prems])
      (use disown I(4) in \<open>auto simp: release_begin_def split: if_splits\<close>)
next
  case (unlock s h)
  note I = smp_inv_parts [OF unlock.prems]
  have o: "owns s h" using unlock(1) by simp
  have n: "\<not> owns (set_at h Pop s) x" for x using I(2) [OF o, of x] by (auto split: if_splits)
  have "hart_ok Pop (sm_cpu s h)" using I(4) [of h] unlock(1) hart_ok_inside by auto
  moreover have "lk_cpu (sm_lock s) = None"
  proof (cases "lk_cpu (sm_lock s)")
    case (Some a)
    then have "sm_at s a = Crit" using I(3) by simp
    with I(2) [OF o, of a] unlock(1) show ?thesis by auto
  qed
  ultimately show ?case using n I(4) unfolding smp_inv_def by (auto simp: release_store_def)
next
  case (pop s h c)
  note I = smp_inv_parts [OF pop.prems]
  show ?case
    by (rule smp_inv_same [OF pop.prems])
      (use pop I(3,4) pop_off_ok [OF pop(2)] I(4) [of h] in \<open>auto\<close>)
next
  case (toggle s h b)
  note I = smp_inv_parts [OF toggle.prems]
  show ?case
    by (rule smp_inv_same [OF toggle.prems]) (use toggle I(3,4) I(4) [of h] in \<open>auto simp: hart_ok_def\<close>)
qed

section \<open>Nested critical sections of a hart\<close>

primrec push_offs :: "nat \<Rightarrow> cpu \<Rightarrow> cpu" where
  "push_offs 0 c = c"
| "push_offs (Suc n) c = push_offs n (push_off c)"

primrec pop_offs :: "nat \<Rightarrow> cpu \<Rightarrow> cpu outcome" where
  "pop_offs 0 c = Ret c"
| "pop_offs (Suc n) c = obind (pop_off c) (pop_offs n)"

lemma push_offs_eq:
  "0 \<le> cp_noff c \<Longrightarrow> push_offs (Suc n) c =
     \<lparr>cp_noff = cp_noff c + int n + 1,
      cp_intena = (if cp_noff c = 0 then cp_intr c else cp_intena c), cp_intr = False\<rparr>"
proof (induction n arbitrary: c)
  case (Suc n)
  have "push_offs (Suc (Suc n)) c = push_offs (Suc n) (push_off c)" by simp
  also have "\<dots> = \<lparr>cp_noff = cp_noff c + int (Suc n) + 1,
      cp_intena = (if cp_noff c = 0 then cp_intr c else cp_intena c), cp_intr = False\<rparr>"
    using Suc.prems by (subst Suc.IH) (auto simp: push_off_def Let_def)
  finally show ?case .
qed (simp add: push_off_def Let_def)

lemma pop_offs_eq:
  "\<not> cp_intr c \<Longrightarrow> int n + 1 \<le> cp_noff c \<Longrightarrow> pop_offs (Suc n) c =
     Ret \<lparr>cp_noff = cp_noff c - int n - 1, cp_intena = cp_intena c,
       cp_intr = (cp_noff c = int n + 1 \<and> cp_intena c)\<rparr>"
proof (induction n arbitrary: c)
  case 0
  then show ?case by (auto simp: pop_off_def Let_def)
next
  case (Suc n)
  then have p: "pop_off c = Ret (c\<lparr>cp_noff := cp_noff c - 1\<rparr>)" by (auto simp: pop_off_def Let_def)
  have "pop_offs (Suc (Suc n)) c = pop_offs (Suc n) (c\<lparr>cp_noff := cp_noff c - 1\<rparr>)"
    by (simp only: pop_offs.simps(2) [of "Suc n"] p obind.simps)
  also have "\<dots> = Ret \<lparr>cp_noff = cp_noff c - int (Suc n) - 1, cp_intena = cp_intena c,
       cp_intr = (cp_noff c = int (Suc n) + 1 \<and> cp_intena c)\<rparr>"
    using Suc.prems by (subst Suc.IH) auto
  finally show ?case .
qed

section \<open>Properties\<close>

text \<open>
  C4. Mutual exclusion: however the harts interleave their atomic steps, at most one is between
  the swap that took the lock and the store that gives it back. The one in the critical section
  holds the lock by holding()'s test, has interrupts off, and neither its release() nor any
  pop_off() panics.
\<close>

theorem spinlock_mutual_exclusion:
  assumes "smp_start s0" and "smp_step\<^sup>*\<^sup>* s0 s"
  shows "(owns s h \<and> owns s h' \<longrightarrow> h = h') \<and>
    (sm_at s h = Crit \<longrightarrow> holding h (sm_lock s) \<and> \<not> cp_intr (sm_cpu s h) \<and> returns (release_begin h (sm_lock s))) \<and>
    (sm_at s h = Pop \<longrightarrow> returns (pop_off (sm_cpu s h)))"
proof -
  from assms(2) have inv: "smp_inv s"
    by (induction rule: rtranclp_induct) (use assms(1) smp_inv_start smp_inv_step in auto)
  note I = smp_inv_parts [OF inv]
  have "holding h (sm_lock s)" if "sm_at s h = Crit"
    using that I(1) I(3) [of h] by (auto simp: holding_def)
  moreover have "\<not> cp_intr (sm_cpu s h)" if "sm_at s h = Crit"
    using that I(4) [of h] by (simp add: hart_ok_def)
  moreover have "returns (pop_off (sm_cpu s h))" if "sm_at s h = Pop"
    using that I(4) [of h] by (simp add: hart_ok_def pop_off_def Let_def)
  ultimately show ?thesis using I(2) [of h h'] by (auto simp: release_begin_def)
qed

definition smp_idle :: smp where
  "smp_idle = \<lparr>sm_lock = \<lparr>lk_locked = False, lk_cpu = None\<rparr>,
     sm_cpu = (\<lambda>_. \<lparr>cp_noff = 0, cp_intena = False, cp_intr = True\<rparr>), sm_at = (\<lambda>_. Out)\<rparr>"

theorem spinlock_mutual_exclusion_witness:
  "\<exists>s. smp_step\<^sup>*\<^sup>* smp_idle s \<and> sm_at s 1 = Got \<and> \<not> owns s 0"
proof -
  let ?c = "\<lparr>cp_noff = 1, cp_intena = True, cp_intr = False\<rparr>"
  let ?s1 = "set_at 1 Spin (set_cpu 1 ?c smp_idle)"
  let ?s2 = "set_at 1 Got (?s1\<lparr>sm_lock := \<lparr>lk_locked = True, lk_cpu = None\<rparr>\<rparr>)"
  have start: "smp_start smp_idle" by (auto simp: smp_start_def smp_idle_def initlock_def)
  have "smp_step smp_idle ?s1"
    by (rule enter) (simp_all add: smp_idle_def acquire_begin_def push_off_def holding_def Let_def)
  moreover have "smp_step ?s1 (set_at 1 (if False then Spin else Got)
      (?s1\<lparr>sm_lock := \<lparr>lk_locked = True, lk_cpu = None\<rparr>\<rparr>))"
    by (rule swap) (simp_all add: smp_idle_def test_and_set_def)
  ultimately have r: "smp_step\<^sup>*\<^sup>* smp_idle ?s2" by simp
  moreover have "sm_at ?s2 1 = Got" by simp
  ultimately show ?thesis
    using spinlock_mutual_exclusion [OF start r, of 1 0] by (intro exI [of _ ?s2]) auto
qed

text \<open>
  A hart that takes a lock it already holds panics instead of spinning for ever, and one that
  finds the lock held by another hart keeps its interrupts off while it spins.
\<close>

theorem acquire_twice_panics:
  assumes "acquire h (lk, c) = Ret (lk', c')"
  shows "acquire h (lk', c') = opanic ''acquire'' \<and> \<not> cp_intr c' \<and>
    (h' \<noteq> h \<longrightarrow> acquire h' (lk', d) = Fail Blocked)"
  using assms
  by (auto simp: acquire_def acquire_begin_def test_and_set_def acquire_end_def holding_def Let_def
      push_off_def split: if_splits)

theorem acquire_twice_panics_witness:
  "acquire 1 (\<lparr>lk_locked = True, lk_cpu = Some 1\<rparr>, \<lparr>cp_noff = 1, cp_intena = True, cp_intr = False\<rparr>)
     = opanic ''acquire''"
proof -
  have "acquire 1 (\<lparr>lk_locked = False, lk_cpu = None\<rparr>, \<lparr>cp_noff = 0, cp_intena = False, cp_intr = True\<rparr>)
     = Ret (\<lparr>lk_locked = True, lk_cpu = Some 1\<rparr>, \<lparr>cp_noff = 1, cp_intena = True, cp_intr = False\<rparr>)"
    by (simp add: acquire_def acquire_begin_def push_off_def test_and_set_def acquire_end_def holding_def)
  from acquire_twice_panics [OF this] show ?thesis by simp
qed

text \<open>
  push_off() and pop_off() nest: after any number of push_off()s interrupts are off, and as
  many pop_off()s bring the hart back to the nesting depth and the interrupt state it had, on or
  off, without a panic.
\<close>

theorem push_pop_nest:
  assumes "0 \<le> cp_noff c" and "cp_noff c \<noteq> 0 \<longrightarrow> \<not> cp_intr c"
  shows "\<not> cp_intr (push_offs (Suc n) c) \<and>
    (\<exists>c'. pop_offs (Suc n) (push_offs (Suc n) c) = Ret c' \<and> cp_noff c' = cp_noff c \<and> cp_intr c' = cp_intr c)"
proof -
  note p = push_offs_eq [OF assms(1), of n]
  have "pop_offs (Suc n) (push_offs (Suc n) c) =
      Ret \<lparr>cp_noff = cp_noff c, cp_intena = (if cp_noff c = 0 then cp_intr c else cp_intena c),
        cp_intr = (cp_noff c = 0 \<and> (if cp_noff c = 0 then cp_intr c else cp_intena c))\<rparr>"
    using assms(1) unfolding p by (subst pop_offs_eq) auto
  with p assms(2) show ?thesis by auto
qed

theorem push_pop_nest_witness:
  "pop_offs 2 (push_offs 2 \<lparr>cp_noff = 0, cp_intena = False, cp_intr = True\<rparr>) =
     Ret \<lparr>cp_noff = 0, cp_intena = True, cp_intr = True\<rparr> \<and>
   (\<exists>c'. pop_offs 2 (push_offs 2 \<lparr>cp_noff = 0, cp_intena = False, cp_intr = True\<rparr>) = Ret c' \<and> cp_intr c')"
  using push_pop_nest [of "\<lparr>cp_noff = 0, cp_intena = False, cp_intr = True\<rparr>" 1]
  by (simp add: numeral_2_eq_2 push_off_def pop_off_def Let_def)

end
