(* ===== verification/Xv6_Virtio.thy ===== *)
theory Xv6_Virtio
  imports Xv6_Vm Xv6_Ring
begin

text \<open>
  The disk driver (kernel/virtio_disk.c): descriptors, the avail and used rings, submitting a
  request, the interrupt handler and the end of virtio_disk_rw(). Descriptor numbers are natural
  numbers. The device is modelled by the documented steps it takes on the shared rings.
\<close>

section \<open>Driver state\<close>

abbreviation NUM :: nat where "NUM \<equiv> 8"

abbreviation (input) VRING_DESC_F_NEXT :: u16 where "VRING_DESC_F_NEXT \<equiv> 1"
abbreviation (input) VRING_DESC_F_WRITE :: u16 where "VRING_DESC_F_WRITE \<equiv> 2"
abbreviation (input) VIRTIO_BLK_T_IN :: u32 where "VIRTIO_BLK_T_IN \<equiv> 0"
abbreviation (input) VIRTIO_BLK_T_OUT :: u32 where "VIRTIO_BLK_T_OUT \<equiv> 1"

record virtq_desc =
  vd_addr :: u64
  vd_len :: u32
  vd_flags :: u16
  vd_next :: nat

record virtio_blk_req =
  rq_type :: u32
  rq_reserved :: u32
  rq_sector :: u64

text \<open>\<open>dk_busy b\<close> is the field \<open>disk\<close> of buffer \<open>b\<close>; a pointer to a buffer is its number.\<close>

record vdisk =
  dk_desc :: "nat \<Rightarrow> virtq_desc"
  dk_avail_ring :: "nat \<Rightarrow> nat"
  dk_avail_idx :: u16
  dk_used_ring :: "nat \<Rightarrow> nat"
  dk_used_ridx :: u16
  dk_free :: "nat \<Rightarrow> bool"
  dk_used_idx :: u16
  dk_info_b :: "nat \<Rightarrow> nat option"
  dk_info_status :: "nat \<Rightarrow> u8"
  dk_ops :: "nat \<Rightarrow> virtio_blk_req"
  dk_busy :: "nat \<Rightarrow> bool"

text \<open>Where the linker puts \<open>b->data\<close>, \<open>disk.ops[i]\<close> and \<open>disk.info[i].status\<close>.\<close>

record vlayout =
  at_data :: "nat \<Rightarrow> u64"
  at_op :: "nat \<Rightarrow> u64"
  at_status :: "nat \<Rightarrow> u64"

section \<open>Initialisation\<close>

text \<open>What the device registers read as; \<open>rg_status\<close> is what the status reads as after FEATURES_OK.\<close>

record vregs =
  rg_magic :: u32
  rg_version :: u32
  rg_device :: u32
  rg_vendor :: u32
  rg_features :: u32
  rg_status :: u32
  rg_ready :: u32
  rg_max :: u32

definition drop_features :: "u32 \<Rightarrow> u32" where
  "drop_features f = f AND NOT (push_bit 5 1) AND NOT (push_bit 7 1) AND NOT (push_bit 11 1) AND NOT (push_bit 12 1)
     AND NOT (push_bit 27 1) AND NOT (push_bit 29 1) AND NOT (push_bit 28 1)"

text \<open>The registers written, in order, as pairs of offset and value.\<close>

definition virtio_disk_init ::
    "vregs \<Rightarrow> vdisk \<Rightarrow> physmem \<Rightarrow> ((nat \<times> u32) list \<times> vdisk \<times> physmem) outcome" where
  "virtio_disk_init r d m =
     (if rg_magic r \<noteq> 0x74726976 \<or> rg_version r \<noteq> 2 \<or> rg_device r \<noteq> 2 \<or> rg_vendor r \<noteq> 0x554d4551
      then opanic ''could not find virtio disk''
      else if rg_status r AND 8 = 0 then opanic ''virtio disk FEATURES_OK unset''
      else if rg_ready r \<noteq> 0 then opanic ''virtio disk should not be ready''
      else if rg_max r = 0 then opanic ''virtio disk has no queue 0''
      else if rg_max r < of_nat NUM then opanic ''virtio disk max queue too short''
      else
        let (desc, m) = kalloc m; (avail, m) = kalloc m; (used, m) = kalloc m in
        if desc = 0 \<or> avail = 0 \<or> used = 0 then opanic ''virtio disk kalloc''
        else
          Ret ([(0x70, 0), (0x70, 1), (0x70, 3), (0x20, drop_features (rg_features r)), (0x70, 11),
                (0x30, 0), (0x38, of_nat NUM),
                (0x80, ucast desc), (0x84, ucast (drop_bit 32 desc)),
                (0x90, ucast avail), (0x94, ucast (drop_bit 32 avail)),
                (0xa0, ucast used), (0xa4, ucast (drop_bit 32 used)),
                (0x44, 1), (0x70, rg_status r OR 4)],
               d\<lparr>dk_desc := (\<lambda>_. \<lparr>vd_addr = 0, vd_len = 0, vd_flags = 0, vd_next = 0\<rparr>),
                 dk_avail_ring := (\<lambda>_. 0), dk_avail_idx := 0, dk_used_ring := (\<lambda>_. 0), dk_used_ridx := 0,
                 dk_free := (\<lambda>i. i < NUM \<or> dk_free d i)\<rparr>,
               fill_page used 0 (fill_page avail 0 (fill_page desc 0 m))))"

section \<open>Descriptors\<close>

definition alloc_desc :: "vdisk \<Rightarrow> nat option \<times> vdisk" where
  "alloc_desc d =
     (case scan (dk_free d) 0 NUM of
        Some i \<Rightarrow> (Some i, d\<lparr>dk_free := (dk_free d)(i := False)\<rparr>)
      | None \<Rightarrow> (None, d))"

definition free_desc :: "nat \<Rightarrow> vdisk \<Rightarrow> vdisk outcome" where
  "free_desc i d =
     (if i \<ge> NUM then opanic ''free_desc 1''
      else if dk_free d i then opanic ''free_desc 2''
      else Ret (d\<lparr>dk_desc := (dk_desc d)(i := \<lparr>vd_addr = 0, vd_len = 0, vd_flags = 0, vd_next = 0\<rparr>),
                  dk_free := (dk_free d)(i := True)\<rparr>))"

lemma free_desc_card:
  assumes "free_desc i d = Ret d'"
  shows "card {n. n < NUM \<and> \<not> dk_free d' n} < card {n. n < NUM \<and> \<not> dk_free d n}"
proof -
  have f: "i < NUM" "\<not> dk_free d i" "dk_free d' = (dk_free d)(i := True)"
    using assms by (simp_all add: free_desc_def split: if_splits) auto
  then have "{n. n < NUM \<and> \<not> dk_free d' n} = {n. n < NUM \<and> \<not> dk_free d n} - {i}" by auto
  moreover have "i \<in> {n. n < NUM \<and> \<not> dk_free d n}" using f by simp
  ultimately show ?thesis by (metis card_Diff1_less finite_Collect_conjI finite_Collect_less_nat)
qed

function free_chain :: "nat \<Rightarrow> vdisk \<Rightarrow> vdisk outcome" where
  "free_chain i d =
     (let flag = vd_flags (dk_desc d i); nxt = vd_next (dk_desc d i) in
      obind (free_desc i d) (\<lambda>d'.
      if flag AND VRING_DESC_F_NEXT \<noteq> 0 then free_chain nxt d' else Ret d'))"
  by pat_completeness auto
termination
  by (relation "measure (\<lambda>(i, d). card {n. n < NUM \<and> \<not> dk_free d n})") (auto dest: free_desc_card)

declare free_chain.simps [simp del]

text \<open>The loop of alloc3_desc() with \<open>n\<close> descriptors to go.\<close>

fun alloc3_loop :: "nat \<Rightarrow> nat list \<Rightarrow> vdisk \<Rightarrow> (nat list option \<times> vdisk) outcome" where
  "alloc3_loop 0 idx d = Ret (Some idx, d)"
| "alloc3_loop (Suc n) idx d =
     (case alloc_desc d of
        (Some i, d) \<Rightarrow> alloc3_loop n (idx @ [i]) d
      | (None, d) \<Rightarrow> obind (ofold free_desc idx d) (\<lambda>d. Ret (None, d)))"

definition alloc3_desc :: "vdisk \<Rightarrow> (nat list option \<times> vdisk) outcome" where
  "alloc3_desc = alloc3_loop 3 []"

section \<open>Requests\<close>

definition format_chain ::
    "vlayout \<Rightarrow> nat \<Rightarrow> bool \<Rightarrow> u64 \<Rightarrow> nat \<Rightarrow> nat \<Rightarrow> nat \<Rightarrow> vdisk \<Rightarrow> vdisk" where
  "format_chain L b write sector i0 i1 i2 d =
     d\<lparr>dk_ops := (dk_ops d)(i0 := \<lparr>rq_type = (if write then VIRTIO_BLK_T_OUT else VIRTIO_BLK_T_IN),
                                   rq_reserved = 0, rq_sector = sector\<rparr>),
       dk_desc := (dk_desc d)
         (i0 := \<lparr>vd_addr = at_op L i0, vd_len = 16, vd_flags = VRING_DESC_F_NEXT, vd_next = i1\<rparr>,
          i1 := \<lparr>vd_addr = at_data L b, vd_len = of_nat BSIZE,
                 vd_flags = (if write then 0 else VRING_DESC_F_WRITE) OR VRING_DESC_F_NEXT, vd_next = i2\<rparr>,
          i2 := \<lparr>vd_addr = at_status L i0, vd_len = 1, vd_flags = VRING_DESC_F_WRITE, vd_next = 0\<rparr>),
       dk_info_status := (dk_info_status d)(i0 := 0xff)\<rparr>"

definition start_chain :: "nat \<Rightarrow> nat \<Rightarrow> vdisk \<Rightarrow> vdisk" where
  "start_chain b i0 d =
     d\<lparr>dk_busy := (dk_busy d)(b := True),
       dk_info_b := (dk_info_b d)(i0 := Some b),
       dk_avail_ring := (dk_avail_ring d)(ring_index NUM (dk_avail_idx d) := i0),
       dk_avail_idx := dk_avail_idx d + 1\<rparr>"

text \<open>
  virtio_disk_rw() up to its sleep on the buffer; \<open>None\<close> when it has to sleep for descriptors and
  try again. The sector number is computed in 32 bits.
\<close>

definition virtio_submit ::
    "vlayout \<Rightarrow> nat \<Rightarrow> bool \<Rightarrow> u32 \<Rightarrow> vdisk \<Rightarrow> ((nat \<times> nat \<times> nat) option \<times> vdisk) outcome" where
  "virtio_submit L b write blockno d =
     (let sector = ucast (blockno * of_nat (BSIZE div 512)) in
      obind (alloc3_desc d) (\<lambda>(r, d).
      case r of
        Some [i0, i1, i2] \<Rightarrow>
          Ret (Some (i0, i1, i2), start_chain b i0 (format_chain L b write sector i0 i1 i2 d))
      | _ \<Rightarrow> Ret (None, d)))"

text \<open>The rest of virtio_disk_rw() once the buffer is no longer busy.\<close>

definition virtio_finish :: "nat \<Rightarrow> vdisk \<Rightarrow> vdisk outcome" where
  "virtio_finish i0 d = free_chain i0 (d\<lparr>dk_info_b := (dk_info_b d)(i0 := None)\<rparr>)"

text \<open>The body of the loop of virtio_disk_intr().\<close>

definition intr_one :: "vdisk \<Rightarrow> vdisk outcome" where
  "intr_one d =
     (let h = dk_used_ring d (ring_index NUM (dk_used_idx d)) in
      if dk_info_status d h \<noteq> 0 then opanic ''virtio_disk_intr status''
      else case dk_info_b d h of
        None \<Rightarrow> Fail Undef
      | Some b \<Rightarrow> Ret (d\<lparr>dk_busy := (dk_busy d)(b := False), dk_used_idx := dk_used_idx d + 1\<rparr>))"

function virtio_disk_intr :: "vdisk \<Rightarrow> vdisk outcome" where
  "virtio_disk_intr d =
     (if dk_used_idx d \<noteq> dk_used_ridx d then obind (intr_one d) virtio_disk_intr else Ret d)"
  by pat_completeness auto
termination
proof (relation "measure (\<lambda>d. unat (dk_used_ridx d - dk_used_idx d))", goal_cases)
  case (2 d d')
  then have "dk_used_ridx d' = dk_used_ridx d" "dk_used_idx d' = dk_used_idx d + 1"
    by (auto simp: intr_one_def Let_def split: if_splits option.splits)
  moreover have "0 < unat (dk_used_ridx d - dk_used_idx d)" using 2(1) by (simp add: unat_gt_0)
  ultimately show ?case using ring_take(1) [of "dk_used_ridx d" "dk_used_idx d"] 2(1) by simp
qed simp

declare virtio_disk_intr.simps [simp del]

section \<open>The driver, its callers and the device\<close>

text \<open>
  \<open>vs_data b\<close> is the contents of \<open>b->data\<close>, \<open>vs_disk\<close> the disk by sector. \<open>vs_seen\<close> and
  \<open>vs_work\<close> belong to the device: how far it has read the avail ring and the requests it has
  taken. \<open>vs_req b\<close> is the process that waits in virtio_disk_rw() on buffer \<open>b\<close>: its \<open>idx\<close> array and
  its arguments; a buffer is locked, so at most one does.
\<close>

record vsys =
  vs_drv :: vdisk
  vs_data :: "nat \<Rightarrow> bytes"
  vs_disk :: "u64 \<Rightarrow> bytes"
  vs_seen :: u16
  vs_work :: "nat list"
  vs_req :: "nat \<Rightarrow> ((nat \<times> nat \<times> nat) \<times> bool \<times> u32) option"

text \<open>
  What the device does with a chain of three descriptors, as the virtio specification documents it
  for a block device. The request is at the address of the first descriptor. The second is the
  block: a read fills as many of its bytes as the device may write, a write takes as many as it may
  read, which its flags and its length say; the data go to or come from the sectors from \<open>sector\<close>
  on, 512 bytes each. The status goes to the third; 0 says that the transfer has been done, and
  any other status that it has not. The device then appends the head to the used ring.
\<close>

definition device_writes :: "virtq_desc \<Rightarrow> nat" where
  "device_writes c = (if vd_flags c AND VRING_DESC_F_WRITE \<noteq> 0 then unat (vd_len c) else 0)"

definition device_reads :: "virtq_desc \<Rightarrow> nat" where
  "device_reads c = (if vd_flags c AND VRING_DESC_F_WRITE \<noteq> 0 then 0 else unat (vd_len c))"

definition device_transfer :: "virtio_blk_req \<Rightarrow> virtq_desc \<Rightarrow> nat \<Rightarrow> vsys \<Rightarrow> vsys" where
  "device_transfer rq c b s =
     (let sector = rq_sector rq in
      if rq_type rq = VIRTIO_BLK_T_IN then
        s\<lparr>vs_data := (vs_data s)(b := (\<lambda>k. if k < device_writes c
             then vs_disk s (sector + of_nat (k div 512)) (k mod 512) else vs_data s b k))\<rparr>
      else if rq_type rq = VIRTIO_BLK_T_OUT then
        s\<lparr>vs_disk := (\<lambda>x k. if k < 512 \<and> 512 * unat (x - sector) + k < device_reads c
             then vs_data s b (512 * unat (x - sector) + k) else vs_disk s x k)\<rparr>
      else s)"

definition device_done :: "nat \<Rightarrow> nat \<Rightarrow> u8 \<Rightarrow> vsys \<Rightarrow> vsys" where
  "device_done h j st s = s\<lparr>vs_work := remove1 h (vs_work s),
     vs_drv := (vs_drv s)\<lparr>dk_info_status := (dk_info_status (vs_drv s))(j := st),
       dk_used_ring := (dk_used_ring (vs_drv s))(ring_index NUM (dk_used_ridx (vs_drv s)) := h),
       dk_used_ridx := dk_used_ridx (vs_drv s) + 1\<rparr>\<rparr>"

text \<open>The block with number \<open>bn\<close>, two sectors, read into buffer \<open>b\<close> or written from it.\<close>

definition block_transfer :: "bool \<Rightarrow> u32 \<Rightarrow> nat \<Rightarrow> vsys \<Rightarrow> vsys" where
  "block_transfer write bn b s =
     (let x = ucast (bn * 2); lo = vs_disk s x; hi = vs_disk s (x + 1); dat = vs_data s b in
      if write then
        s\<lparr>vs_disk := (vs_disk s)
          (x := (\<lambda>k. if k < 512 then dat k else lo k), x + 1 := (\<lambda>k. if k < 512 then dat (512 + k) else hi k))\<rparr>
      else
        s\<lparr>vs_data := (vs_data s)
          (b := (\<lambda>k. if k < 512 then lo k else if k < BSIZE then hi (k - 512) else dat k))\<rparr>)"

text \<open>
  The linker puts different objects at different addresses. The device can serve the chain of
  \<open>h\<close> when it is three descriptors long, the first for a request it can read, \<open>i\<close>, the second for
  the data of buffer \<open>b\<close>, and the last for a byte it can write, the status of \<open>j\<close>.
\<close>

definition apart :: "vlayout \<Rightarrow> bool" where
  "apart L \<longleftrightarrow> inj_on (at_data L) {..<NBUF} \<and> inj_on (at_op L) {..<NUM} \<and> inj_on (at_status L) {..<NUM}"

definition chain_names :: "vlayout \<Rightarrow> vdisk \<Rightarrow> nat \<Rightarrow> nat \<Rightarrow> nat \<Rightarrow> nat \<Rightarrow> bool" where
  "chain_names L d h i b j \<longleftrightarrow>
     i < NUM \<and> b < NBUF \<and> j < NUM \<and>
     (let d0 = dk_desc d h; d1 = dk_desc d (vd_next d0); d2 = dk_desc d (vd_next d1) in
      vd_addr d0 = at_op L i \<and> vd_addr d1 = at_data L b \<and> vd_addr d2 = at_status L j \<and>
      vd_flags d0 AND VRING_DESC_F_NEXT \<noteq> 0 \<and> vd_flags d1 AND VRING_DESC_F_NEXT \<noteq> 0 \<and>
      vd_flags d2 AND VRING_DESC_F_NEXT = 0 \<and> device_reads d0 = 16 \<and> device_writes d2 = 1)"

text \<open>The second descriptor of the chain of \<open>h\<close>.\<close>

definition data_desc :: "vdisk \<Rightarrow> nat \<Rightarrow> virtq_desc" where
  "data_desc d h = dk_desc d (vd_next (dk_desc d h))"

text \<open>
  The steps of the processes, the device and the interrupt, in any order. A request may fail:
  then the status is not 0 and nothing is known of the buffer and of the disk.
\<close>

inductive vstep :: "vlayout \<Rightarrow> vsys \<Rightarrow> vsys \<Rightarrow> bool" for L where
  submit: "\<lbrakk>b < NBUF; vs_req s b = None; virtio_submit L b write bn (vs_drv s) = Ret (Some idx, d)\<rbrakk> \<Longrightarrow>
    vstep L s (s\<lparr>vs_drv := d, vs_req := (vs_req s)(b \<mapsto> (idx, write, bn))\<rparr>)"
| retry: "virtio_submit L b write bn (vs_drv s) = Ret (None, d) \<Longrightarrow> vstep L s (s\<lparr>vs_drv := d\<rparr>)"
| "fetch": "vs_seen s \<noteq> dk_avail_idx (vs_drv s) \<Longrightarrow>
    vstep L s (s\<lparr>vs_seen := vs_seen s + 1,
      vs_work := vs_work s @ [dk_avail_ring (vs_drv s) (ring_index NUM (vs_seen s))]\<rparr>)"
| serve: "\<lbrakk>h \<in> set (vs_work s); chain_names L (vs_drv s) h i b j\<rbrakk> \<Longrightarrow>
    vstep L s (device_done h j 0 (device_transfer (dk_ops (vs_drv s) i) (data_desc (vs_drv s) h) b s))"
| fail: "\<lbrakk>h \<in> set (vs_work s); chain_names L (vs_drv s) h i b j; st \<noteq> 0\<rbrakk> \<Longrightarrow>
    vstep L s (device_done h j st (s\<lparr>vs_data := (vs_data s)(b := x), vs_disk := y\<rparr>))"
| intr: "virtio_disk_intr (vs_drv s) = Ret d \<Longrightarrow> vstep L s (s\<lparr>vs_drv := d\<rparr>)"
| finish: "\<lbrakk>vs_req s b = Some ((i0, i1, i2), write, bn); \<not> dk_busy (vs_drv s) b;
    virtio_finish i0 (vs_drv s) = Ret d\<rbrakk> \<Longrightarrow>
    vstep L s (s\<lparr>vs_drv := d, vs_req := (vs_req s)(b := None)\<rparr>)"
| touch: "vs_req s b = None \<Longrightarrow> vstep L s (s\<lparr>vs_data := (vs_data s)(b := x)\<rparr>)"

text \<open>After virtio_disk_init().\<close>

definition vstart :: "vsys \<Rightarrow> bool" where
  "vstart s \<longleftrightarrow> (\<forall>i<NUM. dk_free (vs_drv s) i) \<and> (\<forall>b. vs_req s b = None \<and> \<not> dk_busy (vs_drv s) b) \<and>
     vs_work s = [] \<and> vs_seen s = dk_avail_idx (vs_drv s) \<and> dk_used_idx (vs_drv s) = dk_used_ridx (vs_drv s)"

section \<open>The invariant\<close>

text \<open>The descriptors of a request, as virtio_submit() leaves them.\<close>

definition chain_ok :: "vlayout \<Rightarrow> vdisk \<Rightarrow> nat \<Rightarrow> nat \<times> nat \<times> nat \<Rightarrow> bool \<Rightarrow> u32 \<Rightarrow> bool" where
  "chain_ok L d b idx write bn \<longleftrightarrow> (case idx of (i, j, k) \<Rightarrow>
     b < NBUF \<and> {i, j, k} \<subseteq> {..<NUM} \<and> distinct [i, j, k] \<and> (\<forall>n \<in> {i, j, k}. \<not> dk_free d n) \<and>
     dk_desc d i = \<lparr>vd_addr = at_op L i, vd_len = 16, vd_flags = VRING_DESC_F_NEXT, vd_next = j\<rparr> \<and>
     dk_desc d j = \<lparr>vd_addr = at_data L b, vd_len = of_nat BSIZE,
       vd_flags = (if write then 0 else VRING_DESC_F_WRITE) OR VRING_DESC_F_NEXT, vd_next = k\<rparr> \<and>
     dk_desc d k = \<lparr>vd_addr = at_status L i, vd_len = 1, vd_flags = VRING_DESC_F_WRITE, vd_next = 0\<rparr> \<and>
     dk_info_b d i = Some b \<and>
     dk_ops d i = \<lparr>rq_type = (if write then VIRTIO_BLK_T_OUT else VIRTIO_BLK_T_IN), rq_reserved = 0,
       rq_sector = ucast (bn * of_nat (BSIZE div 512))\<rparr>)"

fun ids :: "(nat \<times> nat \<times> nat) \<times> bool \<times> u32 \<Rightarrow> nat set" where
  "ids ((i, j, k), write, bn) = {i, j, k}"

definition head_of :: "(nat \<times> nat \<times> nat) \<times> bool \<times> u32 \<Rightarrow> nat" where
  "head_of r = fst (fst r)"

text \<open>The requests the device has not fetched, and those it has done that the handler has not seen.\<close>

definition avail_list :: "vsys \<Rightarrow> nat list" where
  "avail_list s = ring_content NUM (dk_avail_ring (vs_drv s)) (vs_seen s) (dk_avail_idx (vs_drv s))"

definition used_list :: "vdisk \<Rightarrow> nat list" where
  "used_list d = ring_content NUM (dk_used_ring d) (dk_used_idx d) (dk_used_ridx d)"

definition chains_inv :: "vlayout \<Rightarrow> vdisk \<Rightarrow> (nat \<Rightarrow> ((nat \<times> nat \<times> nat) \<times> bool \<times> u32) option) \<Rightarrow> bool" where
  "chains_inv L d rq \<longleftrightarrow>
     (\<forall>b idx write bn. rq b = Some (idx, write, bn) \<longrightarrow> chain_ok L d b idx write bn) \<and>
     (\<forall>b b' r r'. rq b = Some r \<and> rq b' = Some r' \<and> b \<noteq> b' \<longrightarrow> ids r \<inter> ids r' = {}) \<and>
     (\<forall>b. dk_busy d b \<longrightarrow> rq b \<noteq> None)"

definition flow_inv :: "vsys \<Rightarrow> bool" where
  "flow_inv s \<longleftrightarrow>
     (let q = avail_list s @ vs_work s @ used_list (vs_drv s) in
      distinct q \<and> set q = {head_of r | b r. vs_req s b = Some r \<and> dk_busy (vs_drv s) b} \<and>
      (\<forall>b r. vs_req s b = Some r \<longrightarrow> \<not> dk_busy (vs_drv s) b \<longrightarrow> dk_info_status (vs_drv s) (head_of r) = 0))"

definition vinv :: "vlayout \<Rightarrow> vsys \<Rightarrow> bool" where
  "vinv L s \<longleftrightarrow> chains_inv L (vs_drv s) (vs_req s) \<and> flow_inv s"

section \<open>Allocating and freeing descriptors\<close>

text \<open>Only the descriptors in \<open>I\<close> and their free flags differ.\<close>

definition touches :: "nat set \<Rightarrow> vdisk \<Rightarrow> vdisk \<Rightarrow> bool" where
  "touches I d d' \<longleftrightarrow> d' = d\<lparr>dk_desc := dk_desc d', dk_free := dk_free d'\<rparr> \<and>
     (\<forall>n. n \<notin> I \<longrightarrow> dk_desc d' n = dk_desc d n \<and> dk_free d' n = dk_free d n)"

lemma touches_refl: "touches I d d"
  by (simp add: touches_def)

lemma touches_mono: "touches I d d' \<Longrightarrow> I \<subseteq> J \<Longrightarrow> touches J d d'"
  by (auto simp: touches_def)

lemma touches_fields:
  assumes "touches I d d'"
  shows "dk_avail_ring d' = dk_avail_ring d" "dk_avail_idx d' = dk_avail_idx d"
    "dk_used_ring d' = dk_used_ring d" "dk_used_ridx d' = dk_used_ridx d" "dk_used_idx d' = dk_used_idx d"
    "dk_info_b d' = dk_info_b d" "dk_info_status d' = dk_info_status d" "dk_ops d' = dk_ops d"
    "dk_busy d' = dk_busy d"
proof -
  have e: "d' = d\<lparr>dk_desc := dk_desc d', dk_free := dk_free d'\<rparr>" using assms by (simp add: touches_def)
  show "dk_avail_ring d' = dk_avail_ring d" by (subst e) simp
  show "dk_avail_idx d' = dk_avail_idx d" by (subst e) simp
  show "dk_used_ring d' = dk_used_ring d" by (subst e) simp
  show "dk_used_ridx d' = dk_used_ridx d" by (subst e) simp
  show "dk_used_idx d' = dk_used_idx d" by (subst e) simp
  show "dk_info_b d' = dk_info_b d" by (subst e) simp
  show "dk_info_status d' = dk_info_status d" by (subst e) simp
  show "dk_ops d' = dk_ops d" by (subst e) simp
  show "dk_busy d' = dk_busy d" by (subst e) simp
qed

lemma touches_trans:
  assumes "touches I d d1" and "touches I d1 d2"
  shows "touches I d d2"
proof -
  have e: "d2 = d1\<lparr>dk_desc := dk_desc d2, dk_free := dk_free d2\<rparr>"
    "d1 = d\<lparr>dk_desc := dk_desc d1, dk_free := dk_free d1\<rparr>"
    using assms by (simp_all add: touches_def)
  have "d1\<lparr>dk_desc := x, dk_free := y\<rparr> = d\<lparr>dk_desc := x, dk_free := y\<rparr>" for x y by (subst e(2)) simp
  with e(1) have "d2 = d\<lparr>dk_desc := dk_desc d2, dk_free := dk_free d2\<rparr>" by (rule trans)
  then show ?thesis using assms by (simp add: touches_def)
qed

lemma free_desc_ok:
  assumes "i < NUM" and "\<not> dk_free d i"
  obtains d' where "free_desc i d = Ret d'" "touches {i} d d'" "dk_free d' = (dk_free d)(i := True)"
  by (rule that) (use assms in \<open>auto simp: free_desc_def touches_def\<close>)

lemma free_all:
  "\<lbrakk>distinct idx; \<forall>i \<in> set idx. i < NUM \<and> \<not> dk_free d i\<rbrakk> \<Longrightarrow>
     \<exists>d'. ofold free_desc idx d = Ret d' \<and> touches (set idx) d d' \<and> (\<forall>n. dk_free d' n \<longleftrightarrow> dk_free d n \<or> n \<in> set idx)"
proof (induction idx arbitrary: d)
  case (Cons i idx)
  then obtain d1 where d1: "free_desc i d = Ret d1" "touches {i} d d1" "dk_free d1 = (dk_free d)(i := True)"
    using free_desc_ok [of i d] by auto
  with Cons.prems have "distinct idx" "\<forall>i \<in> set idx. i < NUM \<and> \<not> dk_free d1 i" by auto
  from Cons.IH [OF this] obtain d2 where
    d2: "ofold free_desc idx d1 = Ret d2" "touches (set idx) d1 d2"
      "\<forall>n. dk_free d2 n \<longleftrightarrow> dk_free d1 n \<or> n \<in> set idx" by blast
  have "touches (set (i # idx)) d d2"
    by (rule touches_trans [OF touches_mono [OF d1(2)] touches_mono [OF d2(2)]]) auto
  with d1 d2 show ?case by auto
qed (simp add: touches_refl)

lemma alloc_desc_Some:
  "alloc_desc d = (Some i, d') \<Longrightarrow> i < NUM \<and> dk_free d i \<and> d' = d\<lparr>dk_free := (dk_free d)(i := False)\<rparr>"
  by (auto simp: alloc_desc_def scan_Some_iff split: option.splits)

lemma alloc_desc_None: "alloc_desc d = (None, d') \<Longrightarrow> d' = d"
  by (auto simp: alloc_desc_def split: option.splits)

lemma alloc3_loop_ok:
  "\<lbrakk>distinct idx; \<forall>i \<in> set idx. i < NUM \<and> \<not> dk_free d i\<rbrakk> \<Longrightarrow>
     (\<exists>d'. alloc3_loop n idx d = Ret (None, d') \<and> touches (set idx \<union> {m. dk_free d m}) d d' \<and>
        (\<forall>m. dk_free d' m \<longleftrightarrow> dk_free d m \<or> m \<in> set idx)) \<or>
     (\<exists>new. alloc3_loop n idx d = Ret (Some (idx @ new), d\<lparr>dk_free := (\<lambda>m. dk_free d m \<and> m \<notin> set new)\<rparr>) \<and>
        length new = n \<and> distinct (idx @ new) \<and> (\<forall>i \<in> set new. i < NUM \<and> dk_free d i))"
proof (induction n idx d rule: alloc3_loop.induct)
  case (2 n idx d)
  obtain r d1 where a: "alloc_desc d = (r, d1)" by fastforce
  show ?case
  proof (cases r)
    case None
    with a have "d1 = d" by (simp add: alloc_desc_None)
    from free_all [OF "2.prems"] obtain d' where
      f: "ofold free_desc idx d = Ret d'" "touches (set idx) d d'"
        "\<forall>n. dk_free d' n \<longleftrightarrow> dk_free d n \<or> n \<in> set idx" by blast
    have "touches (set idx \<union> {m. dk_free d m}) d d'" using f(2) by (rule touches_mono) simp
    with a None \<open>d1 = d\<close> f show ?thesis by simp
  next
    case (Some i)
    with a have i: "i < NUM" "dk_free d i" "d1 = d\<lparr>dk_free := (dk_free d)(i := False)\<rparr>"
      using alloc_desc_Some by blast+
    have fresh: "i \<notin> set idx" using "2.prems"(2) i(2) by auto
    have t: "touches (set idx \<union> {m. dk_free d m}) d d1" using i by (auto simp: touches_def)
    have "distinct (idx @ [i])" "\<forall>j \<in> set (idx @ [i]). j < NUM \<and> \<not> dk_free d1 j"
      using "2.prems" fresh i by auto
    from "2.IH"(1) [OF a [symmetric, unfolded Some] refl this]
    show ?thesis
    proof (elim disjE exE conjE)
      fix d' assume r: "alloc3_loop n (idx @ [i]) d1 = Ret (None, d')"
        and t': "touches (set (idx @ [i]) \<union> {m. dk_free d1 m}) d1 d'"
        and fr: "\<forall>m. dk_free d' m \<longleftrightarrow> dk_free d1 m \<or> m \<in> set (idx @ [i])"
      have "touches (set idx \<union> {m. dk_free d m}) d d'"
        by (rule touches_trans [OF t touches_mono [OF t']]) (use i in auto)
      moreover have "\<forall>m. dk_free d' m \<longleftrightarrow> dk_free d m \<or> m \<in> set idx" using fr i by auto
      ultimately show ?thesis using r a Some by auto
    next
      fix new assume n: "alloc3_loop n (idx @ [i]) d1 =
          Ret (Some ((idx @ [i]) @ new), d1\<lparr>dk_free := \<lambda>m. dk_free d1 m \<and> m \<notin> set new\<rparr>)"
        "length new = n" "distinct ((idx @ [i]) @ new)" "\<forall>i\<in>set new. i < NUM \<and> dk_free d1 i"
      have "(\<lambda>m. dk_free d1 m \<and> m \<notin> set new) = (\<lambda>m. dk_free d m \<and> m \<notin> set (i # new))" using i by auto
      then have "alloc3_loop (Suc n) idx d =
          Ret (Some (idx @ i # new), d\<lparr>dk_free := \<lambda>m. dk_free d m \<and> m \<notin> set (i # new)\<rparr>)"
        using n(1) a Some i by simp
      moreover have "\<forall>j\<in>set (i # new). j < NUM \<and> dk_free d j" using n(4) i by (auto split: if_splits)
      ultimately show ?thesis using n(2,3) by (intro disjI2 exI [of _ "i # new"]) auto
    qed
  qed
qed simp

text \<open>Three descriptors, or none and the free ones are still free.\<close>

lemma alloc3_desc_cases:
  obtains (none) d' where "alloc3_desc d = Ret (None, d')" "touches {m. dk_free d m} d d'" "dk_free d' = dk_free d"
  | (three) i j k where "alloc3_desc d = Ret (Some [i, j, k], d\<lparr>dk_free := (\<lambda>m. dk_free d m \<and> m \<notin> {i, j, k})\<rparr>)"
      "distinct [i, j, k]" "{i, j, k} \<subseteq> {..<NUM}" "dk_free d i" "dk_free d j" "dk_free d k"
proof -
  have "distinct ([] :: nat list)" "\<forall>i \<in> set []. i < NUM \<and> \<not> dk_free d i" by simp_all
  from alloc3_loop_ok [OF this, of 3]
  show thesis
  proof (elim disjE exE conjE)
    fix d' assume "alloc3_loop 3 [] d = Ret (None, d')" "touches (set [] \<union> {m. dk_free d m}) d d'"
      "\<forall>m. dk_free d' m = (dk_free d m \<or> m \<in> set [])"
    then show thesis using none [of d'] by (auto simp: alloc3_desc_def)
  next
    fix new assume n: "alloc3_loop 3 [] d = Ret (Some ([] @ new), d\<lparr>dk_free := \<lambda>m. dk_free d m \<and> m \<notin> set new\<rparr>)"
      "length new = 3" "distinct ([] @ new)" "\<forall>i\<in>set new. i < NUM \<and> dk_free d i"
    from n(2) obtain i j k where "new = [i, j, k]"
      by (auto simp: numeral_3_eq_3 length_Suc_conv)
    with n show thesis using three [of i j k] by (simp add: alloc3_desc_def)
  qed
qed

section \<open>Every step keeps the invariant\<close>

lemma chain_ok_cong:
  assumes "chain_ok L d b (i, j, k) wr bn"
    and "\<And>n. n \<in> {i, j, k} \<Longrightarrow> dk_desc d' n = dk_desc d n \<and> dk_free d' n = dk_free d n"
    and "dk_info_b d' i = dk_info_b d i" and "dk_ops d' i = dk_ops d i"
  shows "chain_ok L d' b (i, j, k) wr bn"
  using assms by (simp add: chain_ok_def)

lemma chains_inv_chain:
  assumes "chains_inv L d rq" and "rq b = Some ((i, j, k), wr, bn)"
  shows "chain_ok L d b (i, j, k) wr bn"
  using assms unfolding chains_inv_def by blast

lemma chain_ok_parts:
  assumes "chain_ok L d b (i, j, k) wr bn"
  shows "i < NUM" "j < NUM" "k < NUM" "i \<noteq> j" "i \<noteq> k" "j \<noteq> k"
    "\<not> dk_free d i" "\<not> dk_free d j" "\<not> dk_free d k" "dk_info_b d i = Some b"
    "dk_desc d i = \<lparr>vd_addr = at_op L i, vd_len = 16, vd_flags = VRING_DESC_F_NEXT, vd_next = j\<rparr>"
    "dk_desc d j = \<lparr>vd_addr = at_data L b, vd_len = of_nat BSIZE,
       vd_flags = (if wr then 0 else VRING_DESC_F_WRITE) OR VRING_DESC_F_NEXT, vd_next = k\<rparr>"
    "dk_desc d k = \<lparr>vd_addr = at_status L i, vd_len = 1, vd_flags = VRING_DESC_F_WRITE, vd_next = 0\<rparr>"
    "dk_ops d i = \<lparr>rq_type = (if wr then VIRTIO_BLK_T_OUT else VIRTIO_BLK_T_IN), rq_reserved = 0,
       rq_sector = ucast (bn * of_nat (BSIZE div 512))\<rparr>" "b < NBUF"
  using assms by (simp_all add: chain_ok_def)

lemma chains_inv_apart:
  assumes "chains_inv L d rq" and "rq b = Some r" and "rq b' = Some r'" and "b \<noteq> b'"
  shows "ids r \<inter> ids r' = {}"
  using assms unfolding chains_inv_def by blast

text \<open>Another request's chain does not notice changes to the descriptors in \<open>I\<close>.\<close>

lemma chains_invI:
  assumes "\<And>b i j k wr bn. rq b = Some ((i, j, k), wr, bn) \<Longrightarrow> chain_ok L d b (i, j, k) wr bn"
    and "\<And>b b' r r'. rq b = Some r \<Longrightarrow> rq b' = Some r' \<Longrightarrow> b \<noteq> b' \<Longrightarrow> ids r \<inter> ids r' = {}"
    and "\<And>b. dk_busy d b \<Longrightarrow> rq b \<noteq> None"
  shows "chains_inv L d rq"
  unfolding chains_inv_def
proof (intro conjI allI impI)
  fix b idx wr bn assume "rq b = Some (idx, wr, bn)"
  then show "chain_ok L d b idx wr bn" using assms(1) by (cases idx) auto
next
  fix b b' r r' assume "rq b = Some r \<and> rq b' = Some r' \<and> b \<noteq> b'"
  then show "ids r \<inter> ids r' = {}" using assms(2) by blast
qed (rule assms(3))

lemma ids_not_free:
  "chains_inv L d rq \<Longrightarrow> rq b = Some r \<Longrightarrow> n \<in> ids r \<Longrightarrow> n < NUM \<and> \<not> dk_free d n"
proof -
  assume c: "chains_inv L d rq" and r: "rq b = Some r" and n: "n \<in> ids r"
  obtain i j k wr bn where e: "r = ((i, j, k), wr, bn)" by (metis prod_cases3 prod.exhaust)
  from chain_ok_parts [OF chains_inv_chain [OF c r [unfolded e]]] n e show ?thesis by auto
qed

lemma chains_inv_quiet:
  assumes "chains_inv L d rq" and "touches {m. dk_free d m} d d'" and "dk_free d' = dk_free d"
  shows "chains_inv L d' rq"
proof (rule chains_invI)
  fix b i j k wr bn assume r: "rq b = Some ((i, j, k), wr, bn)"
  note c = chains_inv_chain [OF assms(1) r]
  show "chain_ok L d' b (i, j, k) wr bn"
    by (rule chain_ok_cong [OF c]) (use assms(2) chain_ok_parts [OF c] touches_fields [OF assms(2)] in \<open>auto simp: touches_def\<close>)
next
  show "\<And>b. dk_busy d' b \<Longrightarrow> rq b \<noteq> None"
    using assms(1) touches_fields [OF assms(2)] by (simp add: chains_inv_def)
qed (rule chains_inv_apart [OF assms(1)])

lemma chain_ok_format:
  assumes "distinct [i, j, k]" and "{i, j, k} \<subseteq> {..<NUM}" and "b < NBUF"
  shows "chain_ok L (start_chain b i (format_chain L b wr (ucast (bn * of_nat (BSIZE div 512))) i j k
      (d\<lparr>dk_free := (\<lambda>m. dk_free d m \<and> m \<notin> {i, j, k})\<rparr>))) b (i, j, k) wr bn"
  using assms unfolding chain_ok_def start_chain_def format_chain_def by simp

lemma submit_keeps:
  assumes "n \<notin> {i, j, k}"
  shows "dk_desc (start_chain b i (format_chain L b wr sector i j k (d\<lparr>dk_free := (\<lambda>m. dk_free d m \<and> m \<notin> {i, j, k})\<rparr>))) n = dk_desc d n"
    "dk_free (start_chain b i (format_chain L b wr sector i j k (d\<lparr>dk_free := (\<lambda>m. dk_free d m \<and> m \<notin> {i, j, k})\<rparr>))) n = dk_free d n"
    "dk_info_b (start_chain b i (format_chain L b wr sector i j k (d\<lparr>dk_free := (\<lambda>m. dk_free d m \<and> m \<notin> {i, j, k})\<rparr>))) n = dk_info_b d n"
    "dk_ops (start_chain b i (format_chain L b wr sector i j k (d\<lparr>dk_free := (\<lambda>m. dk_free d m \<and> m \<notin> {i, j, k})\<rparr>))) n = dk_ops d n"
  using assms by (simp_all add: start_chain_def format_chain_def)

lemma chains_inv_submit:
  assumes c: "chains_inv L d rq" and b: "rq b = None" "b < NBUF" and f: "dk_free d i" "dk_free d j" "dk_free d k"
    and n: "distinct [i, j, k]" "{i, j, k} \<subseteq> {..<NUM}"
  shows "chains_inv L (start_chain b i (format_chain L b wr (ucast (bn * of_nat (BSIZE div 512))) i j k
      (d\<lparr>dk_free := (\<lambda>m. dk_free d m \<and> m \<notin> {i, j, k})\<rparr>))) (rq(b \<mapsto> ((i, j, k), wr, bn)))"
    (is "chains_inv L ?d ?rq")
proof -
  have fresh: "ids r' \<inter> {i, j, k} = {}" if "rq b' = Some r'" for b' r'
    using ids_not_free [OF c that] f by blast
  show ?thesis
  proof (rule chains_invI)
    fix b' i' j' k' wr' bn' assume r: "?rq b' = Some ((i', j', k'), wr', bn')"
    show "chain_ok L ?d b' (i', j', k') wr' bn'"
    proof (cases "b' = b")
      case True
      with r have "i' = i" "j' = j" "k' = k" "wr' = wr" "bn' = bn" by simp_all
      with True chain_ok_format [OF n b(2)] show ?thesis by simp
    next
      case False
      with r have r': "rq b' = Some ((i', j', k'), wr', bn')" by simp
      have "m \<notin> {i, j, k}" if "m \<in> {i', j', k'}" for m using fresh [OF r'] that by auto
      then show ?thesis
        by (intro chain_ok_cong [OF chains_inv_chain [OF c r']] conjI submit_keeps) blast+
    qed
  next
    fix b1 b2 r1 r2 assume r: "?rq b1 = Some r1" "?rq b2 = Some r2" "b1 \<noteq> b2"
    consider "b1 = b" | "b2 = b" | "b1 \<noteq> b" "b2 \<noteq> b" by blast
    then show "ids r1 \<inter> ids r2 = {}"
    proof cases
      case 1
      with r fresh [of b2 r2] show ?thesis by auto
    next
      case 2
      with r fresh [of b1 r1] show ?thesis by auto
    next
      case 3
      with r chains_inv_apart [OF c, of b1 r1 b2 r2] show ?thesis by simp
    qed
  next
    fix b' assume "dk_busy ?d b'"
    then have "b' = b \<or> dk_busy d b'" by (simp add: start_chain_def format_chain_def split: if_splits)
    then show "?rq b' \<noteq> None" using c unfolding chains_inv_def by (metis fun_upd_apply option.distinct(1))
  qed
qed

text \<open>The requests in the three queues.\<close>

definition queue :: "vsys \<Rightarrow> nat list" where
  "queue s = avail_list s @ vs_work s @ used_list (vs_drv s)"

lemma flow_inv_eq:
  "flow_inv s \<longleftrightarrow> distinct (queue s) \<and>
     (\<forall>h. h \<in> set (queue s) \<longleftrightarrow> (\<exists>b r. vs_req s b = Some r \<and> dk_busy (vs_drv s) b \<and> head_of r = h)) \<and>
     (\<forall>b r. vs_req s b = Some r \<longrightarrow> \<not> dk_busy (vs_drv s) b \<longrightarrow> dk_info_status (vs_drv s) (head_of r) = 0)"
proof -
  have e: "(\<exists>b r. x = head_of r \<and> vs_req s b = Some r \<and> dk_busy (vs_drv s) b) \<longleftrightarrow>
      (\<exists>b r. vs_req s b = Some r \<and> dk_busy (vs_drv s) b \<and> head_of r = x)" for x by blast
  show ?thesis unfolding flow_inv_def queue_def Let_def set_eq_iff mem_Collect_eq e ..
qed

lemma vinvD:
  assumes "vinv L s"
  shows "chains_inv L (vs_drv s) (vs_req s)" "distinct (queue s)"
    "h \<in> set (queue s) \<longleftrightarrow> (\<exists>b r. vs_req s b = Some r \<and> dk_busy (vs_drv s) b \<and> head_of r = h)"
    "\<lbrakk>vs_req s b = Some r; \<not> dk_busy (vs_drv s) b\<rbrakk> \<Longrightarrow> dk_info_status (vs_drv s) (head_of r) = 0"
  using assms unfolding vinv_def flow_inv_eq by blast+

lemma queue_request:
  assumes "vinv L s" and "h \<in> set (queue s)"
  obtains b j k wr bn where "vs_req s b = Some ((h, j, k), wr, bn)" "dk_busy (vs_drv s) b"
    "chain_ok L (vs_drv s) b (h, j, k) wr bn"
proof -
  from assms vinvD(3) obtain b r where "vs_req s b = Some r" "dk_busy (vs_drv s) b" "head_of r = h" by blast
  moreover obtain i j k wr bn where "r = ((i, j, k), wr, bn)" by (metis prod_cases3 prod.exhaust)
  ultimately show thesis using that chains_inv_chain [OF vinvD(1) [OF assms(1)]] by (simp add: head_of_def)
qed

lemma queue_short:
  assumes "vinv L s" and "x < NUM" and "x \<notin> set (queue s)"
  shows "length (queue s) < NUM"
proof -
  have "set (queue s) \<subseteq> {..<NUM} - {x}"
  proof
    fix h assume h: "h \<in> set (queue s)"
    from queue_request [OF assms(1) h] chain_ok_parts(1) show "h \<in> {..<NUM} - {x}"
      using h assms(3) by (metis DiffI lessThan_iff singletonD)
  qed
  then have "card (set (queue s)) \<le> card ({..<NUM} - {x})" by (intro card_mono) auto
  also have "\<dots> = 7" using assms(2) by simp
  finally show ?thesis using distinct_card [OF vinvD(2) [OF assms(1)]] by simp
qed

lemma heads_inj:
  assumes "chains_inv L d rq" and "rq b = Some r" and "rq b' = Some r'" and "head_of r = head_of r'"
  shows "b = b'"
proof (rule ccontr)
  assume "b \<noteq> b'"
  from chains_inv_apart [OF assms(1-3) this] have "ids r \<inter> ids r' = {}" .
  moreover have "head_of x \<in> ids x" for x by (cases x rule: ids.cases) (simp add: head_of_def)
  ultimately show False using assms(4) by (metis disjoint_iff)
qed

lemma vinvI:
  assumes "chains_inv L (vs_drv s) (vs_req s)" and "distinct (queue s)"
    and "\<And>h. h \<in> set (queue s) \<longleftrightarrow> (\<exists>b r. vs_req s b = Some r \<and> dk_busy (vs_drv s) b \<and> head_of r = h)"
    and "\<And>b r. \<lbrakk>vs_req s b = Some r; \<not> dk_busy (vs_drv s) b\<rbrakk> \<Longrightarrow> dk_info_status (vs_drv s) (head_of r) = 0"
  shows "vinv L s"
  using assms unfolding vinv_def flow_inv_eq by blast

lemma length_queue: "length (queue s) = length (avail_list s) + length (vs_work s) + length (used_list (vs_drv s))"
  by (simp add: queue_def)

lemma ring8: "NUM dvd 2 ^ LENGTH(16)" "NUM < 2 ^ LENGTH(16)"
  by simp_all

lemma vinv_submit:
  assumes v: "vinv L s" and b: "vs_req s b = None" and nb: "b < NBUF"
    and sub: "virtio_submit L b wr bn (vs_drv s) = Ret (Some idx, d')"
  shows "vinv L (s\<lparr>vs_drv := d', vs_req := (vs_req s)(b \<mapsto> (idx, wr, bn))\<rparr>)" (is "vinv L ?s")
proof -
  let ?d = "vs_drv s"
  obtain i j k where a: "distinct [i, j, k]" "{i, j, k} \<subseteq> {..<NUM}" "dk_free ?d i" "dk_free ?d j" "dk_free ?d k"
    and idx: "idx = (i, j, k)"
    and d': "d' = start_chain b i (format_chain L b wr (ucast (bn * of_nat (BSIZE div 512))) i j k
      (?d\<lparr>dk_free := (\<lambda>m. dk_free ?d m \<and> m \<notin> {i, j, k})\<rparr>))"
    by (rule alloc3_desc_cases [of ?d]) (use sub in \<open>auto simp: virtio_submit_def Let_def simp del: insert_iff\<close>)
  note c = vinvD(1) [OF v]
  have i: "i \<notin> set (queue s)"
  proof
    assume "i \<in> set (queue s)"
    from queue_request [OF v this] obtain b' j' k' wr' bn' where "chain_ok L ?d b' (i, j', k') wr' bn'" by metis
    from chain_ok_parts(7) [OF this] a(3) show False by simp
  qed
  have "length (avail_list s) < NUM"
    using queue_short [OF v _ i] a(2) by (simp add: length_queue)
  then have short: "unat (dk_avail_idx ?d - vs_seen s) < NUM" by (simp add: avail_list_def)
  have av: "avail_list ?s = avail_list s @ [i]"
    using ring_put(2) [OF ring8(1) short ring8(2)]
    by (simp add: avail_list_def d' start_chain_def format_chain_def)
  have us: "used_list d' = used_list ?d" by (simp add: used_list_def d' start_chain_def format_chain_def)
  have busy: "dk_busy d' = (dk_busy ?d)(b := True)" by (simp add: d' start_chain_def format_chain_def)
  have st: "dk_info_status d' = (dk_info_status ?d)(i := 0xff)" by (simp add: d' start_chain_def format_chain_def)
  have q: "set (queue ?s) = insert i (set (queue s))" "distinct (queue ?s)"
    using vinvD(2) [OF v] i by (auto simp: queue_def av us)
  show ?thesis
  proof (rule vinvI)
    show "chains_inv L (vs_drv ?s) (vs_req ?s)" using chains_inv_submit [OF c b nb a(3-5) a(1,2)] by (simp add: d' idx)
  next
    fix h
    have "h \<in> set (queue s) \<longleftrightarrow> (\<exists>b' r. b' \<noteq> b \<and> vs_req s b' = Some r \<and> dk_busy ?d b' \<and> head_of r = h)"
      unfolding vinvD(3) [OF v] using b by (metis option.distinct(1))
    then show "h \<in> set (queue ?s) \<longleftrightarrow> (\<exists>b' r. vs_req ?s b' = Some r \<and> dk_busy (vs_drv ?s) b' \<and> head_of r = h)"
      unfolding q(1) using b by (auto simp: busy idx head_of_def simp del: split_paired_Ex) 
  next
    fix b' r assume r: "vs_req ?s b' = Some r" "\<not> dk_busy (vs_drv ?s) b'"
    then have r': "vs_req s b' = Some r" "\<not> dk_busy ?d b'" by (auto simp: busy split: if_splits)
    have "head_of r \<in> ids r" by (cases r rule: ids.cases) (simp add: head_of_def)
    with ids_not_free [OF c r'(1)] a(3) have "head_of r \<noteq> i" by blast
    with vinvD(4) [OF v r'] show "dk_info_status (vs_drv ?s) (head_of r) = 0" by (simp add: st)
  qed (rule q(2))
qed

lemma vinv_retry:
  assumes v: "vinv L s" and sub: "virtio_submit L b wr bn (vs_drv s) = Ret (None, d')"
  shows "vinv L (s\<lparr>vs_drv := d'\<rparr>)"
proof -
  let ?d = "vs_drv s"
  have t: "touches {m. dk_free ?d m} ?d d'" "dk_free d' = dk_free ?d"
    by (rule alloc3_desc_cases [of ?d]; use sub in \<open>auto simp: virtio_submit_def Let_def\<close>)+
  note f = touches_fields [OF t(1)]
  have "queue (s\<lparr>vs_drv := d'\<rparr>) = queue s" by (simp add: queue_def avail_list_def used_list_def f)
  moreover have "used_list d' = used_list ?d" by (simp add: used_list_def f)
  ultimately show ?thesis
    using chains_inv_quiet [OF vinvD(1) [OF v] t] vinvD [OF v] by (intro vinvI) (simp_all add: f)
qed

lemma vinv_fetch:
  assumes v: "vinv L s" and n: "vs_seen s \<noteq> dk_avail_idx (vs_drv s)"
  shows "vinv L (s\<lparr>vs_seen := vs_seen s + 1,
      vs_work := vs_work s @ [dk_avail_ring (vs_drv s) (ring_index NUM (vs_seen s))]\<rparr>)" (is "vinv L ?s")
proof -
  have "avail_list s = dk_avail_ring (vs_drv s) (ring_index NUM (vs_seen s)) # avail_list ?s"
    using ring_take(2) [OF n [symmetric]] by (simp add: avail_list_def)
  then have q: "set (queue ?s) = set (queue s)" "distinct (queue ?s)"
    using vinvD(2) [OF v] by (auto simp: queue_def)
  show ?thesis
    by (rule vinvI) (use vinvD [OF v] q in simp_all)
qed

lemma chain_names_ok:
  assumes "apart L" and "chain_ok L d b (h, j, k) wr bn" and "chain_names L d h i b' j'"
  shows "i = h" "b' = b" "j' = h"
proof -
  note c = chain_ok_parts [OF assms(2)]
  have "at_op L i = at_op L h" "at_data L b' = at_data L b" "at_status L j' = at_status L h"
    using assms(3) c(11-13) by (simp_all add: chain_names_def Let_def)
  moreover have "i < NUM" "b' < NBUF" "j' < NUM" using assms(3) by (simp_all add: chain_names_def)
  ultimately show "i = h" "b' = b" "j' = h"
    using assms(1) c(1) chain_ok_parts(15) [OF assms(2)] by (auto simp: apart_def inj_on_def)
qed

lemma chains_inv_busy: "chains_inv L d rq \<Longrightarrow> dk_busy d b \<Longrightarrow> rq b \<noteq> None"
  unfolding chains_inv_def by blast

lemma short_list:
  assumes "set xs \<subseteq> {..<NUM} - {x}" and "x < NUM" and "distinct xs"
  shows "length xs < NUM"
proof -
  have "card (set xs) \<le> card ({..<NUM} - {x})" using assms(1) by (intro card_mono) auto
  also have "\<dots> = 7" using assms(2) by simp
  finally show ?thesis using distinct_card [OF assms(3)] by simp
qed

lemma vinv_contents: "vinv L (s\<lparr>vs_data := x, vs_disk := y\<rparr>) \<longleftrightarrow> vinv L s"
  by (simp add: vinv_def flow_inv_def avail_list_def)

lemma device_transfer_contents: "\<exists>x y. device_transfer rq c b s = s\<lparr>vs_data := x, vs_disk := y\<rparr>"
  unfolding device_transfer_def Let_def
  by (intro exI [of _ "vs_data (device_transfer rq c b s)"] exI [of _ "vs_disk (device_transfer rq c b s)"])
    (simp add: device_transfer_def Let_def)

lemma vinv_done:
  assumes v: "vinv L s" and h: "h \<in> set (vs_work s)"
  shows "vinv L (device_done h h st s)" (is "vinv L ?s")
proof -
  let ?d = "vs_drv s"
  have hq: "h \<in> set (queue s)" using h by (simp add: queue_def)
  have dq: "distinct (queue s)" by (rule vinvD(2) [OF v])
  obtain ws vs where w: "vs_work s = ws @ h # vs" using h by (meson split_list)
  with dq have hn: "h \<notin> set ws" "h \<notin> set vs" "h \<notin> set (avail_list s)" "h \<notin> set (used_list ?d)"
    by (auto simp: queue_def)
  have "length (used_list ?d) < NUM"
  proof -
    have "set (used_list ?d) \<subseteq> {..<NUM} - {h}"
    proof
      fix x assume x: "x \<in> set (used_list ?d)"
      then have "x \<in> set (queue s)" by (simp add: queue_def)
      from queue_request [OF v this] chain_ok_parts(1) have "x < NUM" by metis
      with x hn(4) show "x \<in> {..<NUM} - {h}" by auto
    qed
    moreover have "h < NUM" using queue_request [OF v hq] chain_ok_parts(1) by metis
    moreover have "distinct (used_list ?d)" using dq by (simp add: queue_def)
    ultimately show ?thesis by (intro short_list)
  qed
  then have short: "unat (dk_used_ridx ?d - dk_used_idx ?d) < NUM" by (simp add: used_list_def)
  have us: "used_list (vs_drv ?s) = used_list ?d @ [h]"
    using ring_put(2) [OF ring8(1) short ring8(2)] by (simp add: used_list_def device_done_def)
  have q: "queue ?s = avail_list s @ (ws @ vs) @ used_list ?d @ [h]"
    using us w hn(1) by (simp add: queue_def avail_list_def device_done_def remove1_append)
  have qs: "set (queue ?s) = set (queue s)" "distinct (queue ?s)"
    using dq w hn unfolding q by (auto simp: queue_def)
  have c: "chains_inv L (vs_drv ?s) (vs_req ?s)"
  proof (rule chains_invI)
    fix b i j k wr bn assume "vs_req ?s b = Some ((i, j, k), wr, bn)"
    then have "vs_req s b = Some ((i, j, k), wr, bn)" by (simp add: device_done_def)
    from chains_inv_chain [OF vinvD(1) [OF v] this] show "chain_ok L (vs_drv ?s) b (i, j, k) wr bn"
      by (rule chain_ok_cong) (simp_all add: device_done_def)
  next
    show "\<And>b b' r r'. vs_req ?s b = Some r \<Longrightarrow> vs_req ?s b' = Some r' \<Longrightarrow> b \<noteq> b' \<Longrightarrow> ids r \<inter> ids r' = {}"
      using chains_inv_apart [OF vinvD(1) [OF v]] by (simp add: device_done_def)
  next
    show "\<And>b. dk_busy (vs_drv ?s) b \<Longrightarrow> vs_req ?s b \<noteq> None"
      using chains_inv_busy [OF vinvD(1) [OF v]] by (simp add: device_done_def)
  qed
  show ?thesis
  proof (rule vinvI [OF c qs(2)])
    fix x
    show "x \<in> set (queue ?s) \<longleftrightarrow> (\<exists>b r. vs_req ?s b = Some r \<and> dk_busy (vs_drv ?s) b \<and> head_of r = x)"
      unfolding qs(1) vinvD(3) [OF v] by (simp add: device_done_def)
  next
    fix b r assume "vs_req ?s b = Some r" "\<not> dk_busy (vs_drv ?s) b"
    then have r: "vs_req s b = Some r" "\<not> dk_busy ?d b" by (simp_all add: device_done_def)
    obtain b' r' where r': "vs_req s b' = Some r'" "dk_busy ?d b'" "head_of r' = h"
      using hq unfolding vinvD(3) [OF v] by blast
    have "head_of r \<noteq> h" using heads_inj [OF vinvD(1) [OF v] r(1) r'(1)] r(2) r'(2,3) by metis
    then show "dk_info_status (vs_drv ?s) (head_of r) = 0"
      using vinvD(4) [OF v r] by (simp add: device_done_def)
  qed
qed

lemma intr_one_ok:
  assumes v: "vinv L s" and n: "dk_used_idx (vs_drv s) \<noteq> dk_used_ridx (vs_drv s)"
  obtains (bad) h rest where "used_list (vs_drv s) = h # rest" "dk_info_status (vs_drv s) h \<noteq> 0"
      "intr_one (vs_drv s) = opanic ''virtio_disk_intr status''"
  | (good) h d' where "used_list (vs_drv s) = h # used_list d'" "dk_info_status (vs_drv s) h = 0"
      "intr_one (vs_drv s) = Ret d'" "dk_info_status d' = dk_info_status (vs_drv s)" "vinv L (s\<lparr>vs_drv := d'\<rparr>)"
proof (cases "dk_info_status (vs_drv s) (dk_used_ring (vs_drv s) (ring_index NUM (dk_used_idx (vs_drv s)))) = 0")
  case False
  then show thesis
    using ring_take(2) [OF n [symmetric]] by (intro bad) (simp_all add: used_list_def intr_one_def)
next
  case True
  let ?d = "vs_drv s"
  define h where "h = dk_used_ring ?d (ring_index NUM (dk_used_idx ?d))"
  define rest where "rest = ring_content NUM (dk_used_ring ?d) (dk_used_idx ?d + 1) (dk_used_ridx ?d)"
  have u: "used_list ?d = h # rest"
    using ring_take(2) [OF n [symmetric]] by (simp add: used_list_def h_def rest_def)
  have hq: "h \<in> set (queue s)" by (simp add: queue_def u)
  from queue_request [OF v hq] obtain b j k wr bn where
    r: "vs_req s b = Some ((h, j, k), wr, bn)" and busy: "dk_busy ?d b" and c: "chain_ok L ?d b (h, j, k) wr bn"
    by blast
  have st: "dk_info_status ?d h = 0" using True by (simp add: h_def)
  moreover have "dk_info_b ?d h = Some b" by (rule chain_ok_parts(10) [OF c])
  ultimately have i: "intr_one ?d = Ret (?d\<lparr>dk_busy := (dk_busy ?d)(b := False), dk_used_idx := dk_used_idx ?d + 1\<rparr>)"
    (is "_ = Ret ?d'") by (simp add: intr_one_def h_def [symmetric])
  let ?s = "s\<lparr>vs_drv := ?d'\<rparr>"
  have us: "used_list ?d' = rest" by (simp add: used_list_def rest_def)
  have q: "set (queue ?s) = set (queue s) - {h}" "distinct (queue ?s)"
    using vinvD(2) [OF v] by (auto simp: queue_def u us avail_list_def)
  have "vinv L ?s"
  proof (rule vinvI)
    show "chains_inv L (vs_drv ?s) (vs_req ?s)"
    proof (rule chains_invI)
      fix b i j k wr bn assume "vs_req ?s b = Some ((i, j, k), wr, bn)"
      then have "vs_req s b = Some ((i, j, k), wr, bn)" by simp
      from chains_inv_chain [OF vinvD(1) [OF v] this] show "chain_ok L (vs_drv ?s) b (i, j, k) wr bn"
        by (rule chain_ok_cong) simp_all
    next
      show "\<And>b b' r r'. vs_req ?s b = Some r \<Longrightarrow> vs_req ?s b' = Some r' \<Longrightarrow> b \<noteq> b' \<Longrightarrow> ids r \<inter> ids r' = {}"
        using chains_inv_apart [OF vinvD(1) [OF v]] by simp
    next
      fix b' assume "dk_busy (vs_drv ?s) b'"
      then have "dk_busy ?d b'" by (simp split: if_splits)
      from chains_inv_busy [OF vinvD(1) [OF v] this] show "vs_req ?s b' \<noteq> None" by simp
    qed
  next
    fix x
    have uniq: "b' = b" if "vs_req s b' = Some r'" "head_of r' = h" for b' r'
      by (rule heads_inj [OF vinvD(1) [OF v] that(1) r]) (use that(2) in \<open>simp add: head_of_def\<close>)
    have hb: "head_of r' = h" if "vs_req s b = Some r'" for r' using that r by (auto simp: head_of_def)
    have e: "vs_req ?s = vs_req s" "dk_busy (vs_drv ?s) b' \<longleftrightarrow> b' \<noteq> b \<and> dk_busy ?d b'" for b' by simp_all
    show "x \<in> set (queue ?s) \<longleftrightarrow> (\<exists>b r. vs_req ?s b = Some r \<and> dk_busy (vs_drv ?s) b \<and> head_of r = x)"
      unfolding q(1) Diff_iff singleton_iff vinvD(3) [OF v] e using uniq hb by blast
  next
    fix b' r' assume r': "vs_req ?s b' = Some r'" "\<not> dk_busy (vs_drv ?s) b'"
    show "dk_info_status (vs_drv ?s) (head_of r') = 0"
    proof (cases "b' = b")
      case True
      then have "r' = ((h, j, k), wr, bn)" using r' r by simp
      with st show ?thesis by (simp add: head_of_def)
    next
      case False
      with r' show ?thesis using vinvD(4) [OF v, of b' r'] by simp
    qed
  qed (rule q(2))
  then show thesis using u us st i by (intro good) simp_all
qed

text \<open>The handler panics when one of the requests it finds has failed, and only then.\<close>

lemma vinv_intr:
  "vinv L (s\<lparr>vs_drv := d\<rparr>) \<Longrightarrow>
     if \<forall>h \<in> set (used_list d). dk_info_status d h = 0
     then \<exists>d'. virtio_disk_intr d = Ret d' \<and> vinv L (s\<lparr>vs_drv := d'\<rparr>)
     else virtio_disk_intr d = opanic ''virtio_disk_intr status''"
proof (induction d rule: virtio_disk_intr.induct)
  case (1 d)
  show ?case
  proof (cases "dk_used_idx d \<noteq> dk_used_ridx d")
    case True
    then have n: "dk_used_idx (vs_drv (s\<lparr>vs_drv := d\<rparr>)) \<noteq> dk_used_ridx (vs_drv (s\<lparr>vs_drv := d\<rparr>))" by simp
    show ?thesis
    proof (rule intr_one_ok [OF "1.prems" n], goal_cases)
      case (1 h rest)
      then show ?thesis using True by (simp add: virtio_disk_intr.simps [of d])
    next
      case (2 h d1)
      with "1.IH" [OF True, of d1] show ?thesis using True by (simp add: virtio_disk_intr.simps [of d])
    qed
  next
    case False
    with "1.prems" show ?thesis by (simp add: virtio_disk_intr.simps [of d] used_list_def ring_content_def)
  qed
qed

lemma free_chain_more:
  assumes "free_desc i d = Ret d'" and "vd_flags (dk_desc d i) AND VRING_DESC_F_NEXT \<noteq> 0"
  shows "free_chain i d = free_chain (vd_next (dk_desc d i)) d'"
  using assms by (simp add: free_chain.simps [of i d])

lemma free_chain_last:
  assumes "free_desc i d = Ret d'" and "vd_flags (dk_desc d i) AND VRING_DESC_F_NEXT = 0"
  shows "free_chain i d = Ret d'"
  using assms by (simp add: free_chain.simps [of i d])

lemma finish_ok:
  assumes c: "chain_ok L d b (i, j, k) wr bn"
  obtains d' where "virtio_finish i d = Ret d'" "touches {i, j, k} (d\<lparr>dk_info_b := (dk_info_b d)(i := None)\<rparr>) d'"
proof -
  let ?d = "d\<lparr>dk_info_b := (dk_info_b d)(i := None)\<rparr>"
  note p = chain_ok_parts [OF c]
  from free_desc_ok [of i ?d] p(1,7) obtain d1 where
    d1: "free_desc i ?d = Ret d1" "touches {i} ?d d1" by auto
  have j: "dk_desc d1 j = dk_desc d j" "\<not> dk_free d1 j" "dk_desc d1 k = dk_desc d k" "\<not> dk_free d1 k"
    using d1(2) p(4-9) by (auto simp: touches_def)
  from free_desc_ok [of j d1] p(2) j obtain d2 where d2: "free_desc j d1 = Ret d2" "touches {j} d1 d2" by auto
  have k: "dk_desc d2 k = dk_desc d k" "\<not> dk_free d2 k"
    using d2(2) p(6) j by (auto simp: touches_def)
  from free_desc_ok [of k d2] p(3) k obtain d3 where d3: "free_desc k d2 = Ret d3" "touches {k} d2 d3" by auto
  have fi: "vd_flags (dk_desc ?d i) AND VRING_DESC_F_NEXT \<noteq> 0" "vd_next (dk_desc ?d i) = j"
    by (simp_all add: p(11))
  have fj: "vd_flags (dk_desc d1 j) AND VRING_DESC_F_NEXT \<noteq> 0" "vd_next (dk_desc d1 j) = k"
    by (cases wr; simp add: j p(12))+
  have fk: "vd_flags (dk_desc d2 k) AND VRING_DESC_F_NEXT = 0" by (simp add: k p(13))
  have "virtio_finish i d = free_chain i ?d" by (simp add: virtio_finish_def)
  also have "\<dots> = free_chain j d1" using free_chain_more [OF d1(1) fi(1)] unfolding fi(2) .
  also have "\<dots> = free_chain k d2" using free_chain_more [OF d2(1) fj(1)] unfolding fj(2) .
  also have "\<dots> = Ret d3" by (rule free_chain_last [OF d3(1) fk])
  finally have "virtio_finish i d = Ret d3" .
  moreover have "touches {i, j, k} ?d d3"
    by (rule touches_trans [OF touches_trans [OF touches_mono [OF d1(2)] touches_mono [OF d2(2)]]
          touches_mono [OF d3(2)]]) auto
  ultimately show thesis by (rule that)
qed

lemma vinv_finish:
  assumes v: "vinv L s" and r: "vs_req s b = Some ((i, j, k), wr, bn)" and nb: "\<not> dk_busy (vs_drv s) b"
    and f: "virtio_finish i (vs_drv s) = Ret d'"
  shows "vinv L (s\<lparr>vs_drv := d', vs_req := (vs_req s)(b := None)\<rparr>)" (is "vinv L ?s")
proof -
  let ?d = "vs_drv s"
  note c = vinvD(1) [OF v]
  have t: "touches {i, j, k} (?d\<lparr>dk_info_b := (dk_info_b ?d)(i := None)\<rparr>) d'"
    using finish_ok [OF chains_inv_chain [OF c r]] f by (metis outcome.inject(1))
  note fs = touches_fields [OF t]
  have q: "queue ?s = queue s" "used_list d' = used_list ?d"
    by (simp_all add: queue_def avail_list_def used_list_def fs)
  have cs: "chains_inv L (vs_drv ?s) (vs_req ?s)"
  proof (rule chains_invI)
    fix b' i' j' k' wr' bn' assume "vs_req ?s b' = Some ((i', j', k'), wr', bn')"
    then have r': "vs_req s b' = Some ((i', j', k'), wr', bn')" and ne: "b' \<noteq> b" by (auto split: if_splits)
    from chains_inv_apart [OF c r' r ne] have ap: "{i', j', k'} \<inter> {i, j, k} = {}" by simp
    show "chain_ok L (vs_drv ?s) b' (i', j', k') wr' bn'"
    proof (rule chain_ok_cong [OF chains_inv_chain [OF c r']])
      fix n assume "n \<in> {i', j', k'}"
      with ap have "n \<notin> {i, j, k}" by blast
      with t show "dk_desc (vs_drv ?s) n = dk_desc ?d n \<and> dk_free (vs_drv ?s) n = dk_free ?d n"
        unfolding touches_def by simp
    qed (use ap fs in auto)
  next
    fix b1 b2 r1 r2 assume "vs_req ?s b1 = Some r1" "vs_req ?s b2 = Some r2" "b1 \<noteq> b2"
    then show "ids r1 \<inter> ids r2 = {}" using chains_inv_apart [OF c, of b1 r1 b2 r2] by (auto split: if_splits)
  next
    fix b' assume "dk_busy (vs_drv ?s) b'"
    then have "dk_busy ?d b'" using fs(9) by simp
    with nb chains_inv_busy [OF c this] show "vs_req ?s b' \<noteq> None" by auto
  qed
  have e: "vs_req ?s b' = Some r' \<and> dk_busy (vs_drv ?s) b' \<longleftrightarrow> vs_req s b' = Some r' \<and> dk_busy ?d b'" for b' r'
    using nb fs(9) by auto
  show ?thesis
  proof (rule vinvI [OF cs])
    fix h
    have "(\<exists>b r. vs_req ?s b = Some r \<and> dk_busy (vs_drv ?s) b \<and> head_of r = h) \<longleftrightarrow>
        (\<exists>b r. vs_req s b = Some r \<and> dk_busy ?d b \<and> head_of r = h)" using e by blast
    then show "h \<in> set (queue ?s) \<longleftrightarrow> (\<exists>b r. vs_req ?s b = Some r \<and> dk_busy (vs_drv ?s) b \<and> head_of r = h)"
      unfolding q(1) vinvD(3) [OF v] by blast
  next
    fix b' r' assume "vs_req ?s b' = Some r'" "\<not> dk_busy (vs_drv ?s) b'"
    then show "dk_info_status (vs_drv ?s) (head_of r') = 0"
      using vinvD(4) [OF v, of b' r'] fs(7,9) by (simp split: if_splits)
  qed (use q vinvD(2) [OF v] in simp)
qed

lemma vinv_start: "vstart s \<Longrightarrow> vinv L s"
proof -
  assume s: "vstart s"
  have p: "vs_work s = []" "vs_seen s = dk_avail_idx (vs_drv s)" "dk_used_idx (vs_drv s) = dk_used_ridx (vs_drv s)"
    using s unfolding vstart_def by simp_all
  have "\<forall>b. vs_req s b = None \<and> \<not> dk_busy (vs_drv s) b"
    using s unfolding vstart_def by simp
  then have r: "vs_req s b = None" "\<not> dk_busy (vs_drv s) b" for b by simp_all
  have q: "used_list (vs_drv s) = []" by (simp add: used_list_def p(3) ring_content_def)
  have "avail_list s = []" by (simp add: avail_list_def p(2) ring_content_def)
  then have q': "queue s = []" by (simp add: queue_def p(1) q)
  have "chains_inv L (vs_drv s) (vs_req s)" by (rule chains_invI) (simp_all only: r option.distinct simp_thms)
  then show ?thesis by (rule vinvI) (simp_all add: q q' r)
qed

lemma vinv_serve:
  assumes "vinv L s" and "apart L" and "h \<in> set (vs_work s)" and "chain_names L (vs_drv s) h i b j"
  shows "vinv L (device_done h j st (s\<lparr>vs_data := x, vs_disk := y\<rparr>))"
proof -
  have "h \<in> set (queue s)" using assms(3) by (simp add: queue_def)
  then obtain b' j' k' wr bn where "chain_ok L (vs_drv s) b' (h, j', k') wr bn"
    by (rule queue_request [OF assms(1)])
  from chain_names_ok(3) [OF assms(2) this assms(4)] have "j = h" .
  moreover have "vinv L (s\<lparr>vs_data := x, vs_disk := y\<rparr>)" using assms(1) unfolding vinv_contents .
  ultimately show ?thesis using assms(3) by (simp add: vinv_done)
qed

lemma vinv_step: "\<lbrakk>vstep L s s'; apart L; vinv L s\<rbrakk> \<Longrightarrow> vinv L s'"
proof (induction rule: vstep.induct)
  case (serve h s i b j)
  obtain x y where "device_transfer (dk_ops (vs_drv s) i) (data_desc (vs_drv s) h) b s = s\<lparr>vs_data := x, vs_disk := y\<rparr>"
    using device_transfer_contents by blast
  with serve show ?case by (simp add: vinv_serve)
next
  case (intr s d)
  have "vinv L (s\<lparr>vs_drv := vs_drv s\<rparr>)" using intr(3) by simp
  from vinv_intr [OF this] intr(1) show ?case by (auto split: if_splits)
next
  case (finish s b i0 i1 i2 wr bn d)
  then show ?case by (intro vinv_finish)
next
  case (touch s b x)
  then show ?case by (simp add: vinv_def flow_inv_def avail_list_def)
qed (simp_all add: vinv_submit vinv_retry vinv_fetch vinv_serve)

lemma vinv_reach: "\<lbrakk>(vstep L)\<^sup>*\<^sup>* s0 s; vstart s0; apart L\<rbrakk> \<Longrightarrow> vinv L s"
  by (induction rule: rtranclp_induct) (auto intro: vinv_start vinv_step)

section \<open>Properties\<close>

text \<open>
  C6. Only a failed request makes the driver panic: whatever the order in which processes submit, wait
  and finish, the device fetches requests and serves them out of order, well or not, and interrupts
  arrive, a new request finds three free descriptors or none (and waits), and the end of a
  request frees its three descriptors, which no other request shares. The interrupt handler
  panics when the device has reported a status other than 0 for a request it finds, and
  otherwise returns.
\<close>

theorem virtio_panics_on_error_only:
  assumes "apart L" and "vstart s0" and "(vstep L)\<^sup>*\<^sup>* s0 s"
  shows "returns (virtio_submit L b wr bn (vs_drv s)) \<and>
    (if \<forall>h \<in> set (used_list (vs_drv s)). dk_info_status (vs_drv s) h = 0
     then returns (virtio_disk_intr (vs_drv s))
     else virtio_disk_intr (vs_drv s) = opanic ''virtio_disk_intr status'') \<and>
    (\<forall>i j k wr bn. vs_req s b = Some ((i, j, k), wr, bn) \<longrightarrow> returns (virtio_finish i (vs_drv s))) \<and>
    (\<forall>b' r r'. vs_req s b = Some r \<and> vs_req s b' = Some r' \<and> b \<noteq> b' \<longrightarrow> ids r \<inter> ids r' = {})"
proof -
  note v = vinv_reach [OF assms(3,2,1)]
  have "returns (virtio_submit L b wr bn (vs_drv s))"
    by (rule alloc3_desc_cases [of "vs_drv s"]) (simp_all add: virtio_submit_def Let_def)
  moreover have "if \<forall>h \<in> set (used_list (vs_drv s)). dk_info_status (vs_drv s) h = 0
     then returns (virtio_disk_intr (vs_drv s))
     else virtio_disk_intr (vs_drv s) = opanic ''virtio_disk_intr status''"
    using vinv_intr [where L = L and s = s and d = "vs_drv s"] v by (auto simp: returns_iff)
  moreover have "returns (virtio_finish i (vs_drv s))" if "vs_req s b = Some ((i, j, k), wr, bn)" for i j k wr bn
    by (rule finish_ok [OF chains_inv_chain [OF vinvD(1) [OF v] that]]) simp
  ultimately show ?thesis using chains_inv_apart [OF vinvD(1) [OF v]] by blast
qed

text \<open>A well-formed chain, served, moves the block that the call named.\<close>

lemma chain_ok_names:
  assumes "chain_ok L d b (h, m, n) wr bn"
  shows "chain_names L d h h b h"
proof -
  note c = chain_ok_parts [OF assms]
  show ?thesis using c(1,15) by (cases wr) (simp_all add: chain_names_def c(11-13) device_reads_def device_writes_def)
qed

lemma two_sectors: "512 * unat (y :: u64) + k < 1024 \<and> k < 512 \<longleftrightarrow> (y = 0 \<or> y = 1) \<and> k < 512"
  by (auto simp: word_unat_eq_iff)

lemma chain_ok_transfer:
  assumes "chain_ok L d b (h, m, n) wr bn"
  shows "device_transfer (dk_ops d h) (data_desc d h) b s = block_transfer wr bn b s"
proof -
  note c = chain_ok_parts [OF assms]
  have d: "data_desc d h = dk_desc d m" by (simp add: data_desc_def c(11))
  define x :: u64 where "x = ucast (bn * 2)"
  show ?thesis
  proof (cases wr)
    case True
    have "(\<lambda>y k. if k < 512 \<and> 512 * unat (y - x) + k < 1024 then vs_data s b (512 * unat (y - x) + k) else vs_disk s y k) =
      (vs_disk s)(x := (\<lambda>k. if k < 512 then vs_data s b k else vs_disk s x k),
        x + 1 := (\<lambda>k. if k < 512 then vs_data s b (512 + k) else vs_disk s (x + 1) k))"
    proof (intro ext)
      fix y k
      have "y - x = 0 \<longleftrightarrow> y = x" "y - x = 1 \<longleftrightarrow> y = x + 1" "x \<noteq> x + 1" by (auto simp: algebra_simps)
      then show "(if k < 512 \<and> 512 * unat (y - x) + k < 1024 then vs_data s b (512 * unat (y - x) + k) else vs_disk s y k) =
        ((vs_disk s)(x := (\<lambda>k. if k < 512 then vs_data s b k else vs_disk s x k),
          x + 1 := (\<lambda>k. if k < 512 then vs_data s b (512 + k) else vs_disk s (x + 1) k))) y k"
        using two_sectors [of "y - x" k] by auto
    qed
    with True show ?thesis
      by (simp add: device_transfer_def block_transfer_def d c(12,14) device_reads_def x_def [symmetric] Let_def)
  next
    case False
    have "(\<lambda>k. if k < 1024 then vs_disk s (x + of_nat (k div 512)) (k mod 512) else vs_data s b k) =
      (\<lambda>k. if k < 512 then vs_disk s x k else if k < 1024 then vs_disk s (x + 1) (k - 512) else vs_data s b k)"
    proof (intro ext)
      fix k :: nat
      consider "k < 512" | "512 \<le> k" "k < 1024" | "1024 \<le> k" by linarith
      then show "(if k < 1024 then vs_disk s (x + of_nat (k div 512)) (k mod 512) else vs_data s b k) =
        (if k < 512 then vs_disk s x k else if k < 1024 then vs_disk s (x + 1) (k - 512) else vs_data s b k)"
      proof cases
        case 2
        then have "k div 512 = 1" "k mod 512 = k - 512" by (simp_all add: div_nat_eqI mod_if)
        with 2 show ?thesis by simp
      qed simp_all
    qed
    with False show ?thesis
      by (simp add: device_transfer_def block_transfer_def d c(12,14) device_writes_def x_def [symmetric] Let_def)
  qed
qed

text \<open>
  C5. The device is asked for exactly the transfer of the call: every request it holds belongs to a
  process that waits in virtio_disk_rw(), its chain is one the device can serve, the descriptors
  name the buffer and the status of that request and nothing else, and serving them, with the flags and
  the length of the data descriptor, moves the two sectors of the block in the direction of
  the call. At any time, once the driver lets a process go on, the device holds no request of that
  process, and has reported the status 0 for it, which it does only after the transfer.
\<close>

theorem virtio_serves_request:
  assumes "apart L" and "vstart s0" and "(vstep L)\<^sup>*\<^sup>* s0 s"
  shows "(\<forall>h \<in> set (vs_work s). \<exists>b m n wr bn. vs_req s b = Some ((h, m, n), wr, bn) \<and> dk_busy (vs_drv s) b \<and>
      (\<forall>i b' j. chain_names L (vs_drv s) h i b' j \<longleftrightarrow> i = h \<and> b' = b \<and> j = h) \<and>
      device_transfer (dk_ops (vs_drv s) h) (data_desc (vs_drv s) h) b s = block_transfer wr bn b s) \<and>
    (\<forall>b h m n wr bn. vs_req s b = Some ((h, m, n), wr, bn) \<and> \<not> dk_busy (vs_drv s) b \<longrightarrow>
      h \<notin> set (avail_list s @ vs_work s) \<and> dk_info_status (vs_drv s) h = 0)"
proof -
  note v = vinv_reach [OF assms(3,2,1)]
  have "\<exists>b m n wr bn. vs_req s b = Some ((h, m, n), wr, bn) \<and> dk_busy (vs_drv s) b \<and>
      (\<forall>i b' j. chain_names L (vs_drv s) h i b' j \<longleftrightarrow> i = h \<and> b' = b \<and> j = h) \<and>
      device_transfer (dk_ops (vs_drv s) h) (data_desc (vs_drv s) h) b s = block_transfer wr bn b s"
    if "h \<in> set (vs_work s)" for h
  proof -
    have "h \<in> set (queue s)" using that by (simp add: queue_def)
    then obtain b m n wr bn where
      r: "vs_req s b = Some ((h, m, n), wr, bn)" "dk_busy (vs_drv s) b" "chain_ok L (vs_drv s) b (h, m, n) wr bn"
      by (rule queue_request [OF v])
    have "chain_names L (vs_drv s) h i b' j \<longleftrightarrow> i = h \<and> b' = b \<and> j = h" for i b' j
      using chain_names_ok [OF assms(1) r(3)] chain_ok_names [OF r(3)] by blast
    with r(1,2) chain_ok_transfer [OF r(3)] show ?thesis by blast
  qed
  note served = this
  have gone: "h \<notin> set (avail_list s @ vs_work s)"
    if q: "vs_req s b = Some ((h, m, n), wr, bn)" and nb: "\<not> dk_busy (vs_drv s) b" for b h m n wr bn
  proof
    assume "h \<in> set (avail_list s @ vs_work s)"
    then have "h \<in> set (queue s)" by (auto simp: queue_def)
    then obtain b2 r2 where r2: "vs_req s b2 = Some r2" "dk_busy (vs_drv s) b2" "head_of r2 = h"
      unfolding vinvD(3) [OF v] by blast
    have "b2 = b" by (rule heads_inj [OF vinvD(1) [OF v] r2(1) q]) (use r2(3) in \<open>simp add: head_of_def\<close>)
    with r2 nb show False by simp
  qed
  have good: "dk_info_status (vs_drv s) h = 0"
    if "vs_req s b = Some ((h, m, n), wr, bn)" and "\<not> dk_busy (vs_drv s) b" for b h m n wr bn
    using vinvD(4) [OF v that] by (simp add: head_of_def)
  show ?thesis
    by (intro conjI ballI allI impI; (elim conjE)?; rule served gone good; assumption)
qed

definition demo_layout :: vlayout where
  "demo_layout = \<lparr>at_data = of_nat, at_op = of_nat, at_status = of_nat\<rparr>"

definition idle_disk :: vdisk where
  "idle_disk = \<lparr>dk_desc = (\<lambda>_. \<lparr>vd_addr = 0, vd_len = 0, vd_flags = 0, vd_next = 0\<rparr>), dk_avail_ring = (\<lambda>_. 0),
     dk_avail_idx = 0, dk_used_ring = (\<lambda>_. 0), dk_used_ridx = 0, dk_free = (\<lambda>_. True), dk_used_idx = 0,
     dk_info_b = (\<lambda>_. None), dk_info_status = (\<lambda>_. 0),
     dk_ops = (\<lambda>_. \<lparr>rq_type = 0, rq_reserved = 0, rq_sector = 0\<rparr>), dk_busy = (\<lambda>_. False)\<rparr>"

definition idle_sys :: vsys where
  "idle_sys = \<lparr>vs_drv = idle_disk, vs_data = (\<lambda>_ _. 0), vs_disk = (\<lambda>_ _. 1), vs_seen = 0, vs_work = [],
     vs_req = (\<lambda>_. None)\<rparr>"

lemma demo_apart: "apart demo_layout"
  by (auto simp: apart_def demo_layout_def inj_on_def word_of_nat_eq_iff take_bit_nat_eq_self)

lemma idle_start: "vstart idle_sys"
  by (simp add: vstart_def idle_sys_def idle_disk_def)

text \<open>One read of block 5 into buffer 3, submitted and fetched.\<close>

lemma demo_submit:
  "virtio_submit demo_layout 3 False 5 idle_disk = Ret (Some (0, 1, 2),
     start_chain 3 0 (format_chain demo_layout 3 False 10 0 1 2
       (idle_disk\<lparr>dk_free := (\<lambda>m. dk_free idle_disk m \<and> m \<notin> {0, 1, 2})\<rparr>)))"
proof -
  have s: "scan (dk_free idle_disk) 0 NUM = Some 0"
    "scan ((dk_free idle_disk)(0 := False)) 0 NUM = Some (Suc 0)"
    "scan ((dk_free idle_disk)(0 := False, Suc 0 := False)) 0 NUM = Some 2"
    by (auto simp: scan_Some_iff idle_disk_def less_2_cases_iff)
  have f: "(dk_free idle_disk)(0 := False, Suc 0 := False, 2 := False) =
      (\<lambda>m. dk_free idle_disk m \<and> m \<notin> {0, 1, 2})" by (auto simp: fun_eq_iff)
  have "alloc3_loop (Suc (Suc (Suc 0))) [] idle_disk =
      Ret (Some [0, Suc 0, 2], idle_disk\<lparr>dk_free := (dk_free idle_disk)(0 := False, Suc 0 := False, 2 := False)\<rparr>)"
    by (simp add: alloc_desc_def s)
  then have "alloc3_desc idle_disk =
      Ret (Some [0, 1, 2], idle_disk\<lparr>dk_free := (\<lambda>m. dk_free idle_disk m \<and> m \<notin> {0, 1, 2})\<rparr>)"
    by (simp only: alloc3_desc_def numeral_3_eq_3 f One_nat_def)
  then show ?thesis by (simp only: virtio_submit_def Let_def obind.simps prod.case option.case list.case) simp
qed

definition demo_disk :: vdisk where
  "demo_disk = start_chain 3 0 (format_chain demo_layout 3 False 10 0 1 2
     (idle_disk\<lparr>dk_free := (\<lambda>m. dk_free idle_disk m \<and> m \<notin> {0, 1, 2})\<rparr>))"

definition demo_sys :: vsys where
  "demo_sys = idle_sys\<lparr>vs_drv := demo_disk, vs_seen := 1, vs_work := [0], vs_req := [3 \<mapsto> ((0, 1, 2), False, 5)]\<rparr>"

lemma demo_reach: "(vstep demo_layout)\<^sup>*\<^sup>* idle_sys demo_sys"
proof -
  let ?s1 = "idle_sys\<lparr>vs_drv := demo_disk, vs_req := (vs_req idle_sys)(3 \<mapsto> ((0, 1, 2), False, 5))\<rparr>"
  have a: "vstep demo_layout idle_sys ?s1"
    by (rule vstep.submit) (use demo_submit in \<open>simp_all add: idle_sys_def demo_disk_def\<close>)
  have n: "vs_seen ?s1 \<noteq> dk_avail_idx (vs_drv ?s1)"
    by (simp add: idle_sys_def demo_disk_def start_chain_def format_chain_def idle_disk_def)
  have "?s1\<lparr>vs_seen := vs_seen ?s1 + 1,
      vs_work := vs_work ?s1 @ [dk_avail_ring (vs_drv ?s1) (ring_index NUM (vs_seen ?s1))]\<rparr> = demo_sys"
    by (simp add: demo_sys_def idle_sys_def demo_disk_def start_chain_def format_chain_def idle_disk_def)
  with vstep.fetch [OF n, of demo_layout] have "vstep demo_layout ?s1 demo_sys" by simp
  with a show ?thesis by (meson rtranclp.rtrancl_into_rtrancl r_into_rtranclp)
qed

text \<open>The same request after the device has failed to read the sector.\<close>

definition demo_failed :: vsys where
  "demo_failed = device_done 0 0 1 (demo_sys\<lparr>vs_data := (vs_data demo_sys)(3 := (\<lambda>_. 9)), vs_disk := vs_disk demo_sys\<rparr>)"

lemma demo_failed_reach: "(vstep demo_layout)\<^sup>*\<^sup>* idle_sys demo_failed"
proof -
  have "chain_names demo_layout (vs_drv demo_sys) 0 0 3 0"
    by (simp add: chain_names_def demo_sys_def demo_disk_def start_chain_def format_chain_def demo_layout_def
        device_reads_def device_writes_def)
  then have "vstep demo_layout demo_sys demo_failed"
    unfolding demo_failed_def by (intro vstep.fail) (simp_all add: demo_sys_def)
  with demo_reach show ?thesis by simp
qed

theorem virtio_panics_on_error_only_witness:
  "returns (virtio_disk_intr (vs_drv demo_sys)) \<and>
   virtio_disk_intr (vs_drv demo_failed) = opanic ''virtio_disk_intr status''"
proof -
  have "used_list (vs_drv demo_sys) = []"
    by (simp add: used_list_def ring_content_def demo_sys_def demo_disk_def start_chain_def format_chain_def idle_disk_def)
  moreover have "0 \<in> set (used_list (vs_drv demo_failed))" "dk_info_status (vs_drv demo_failed) 0 = 1"
    by (simp_all add: used_list_def ring_content_def demo_failed_def device_done_def demo_sys_def demo_disk_def
        start_chain_def format_chain_def idle_disk_def)
  then have "\<not> (\<forall>h \<in> set (used_list (vs_drv demo_failed)). dk_info_status (vs_drv demo_failed) h = 0)" by force
  ultimately show ?thesis
    using virtio_panics_on_error_only [OF demo_apart idle_start demo_reach, THEN conjunct2, THEN conjunct1]
      virtio_panics_on_error_only [OF demo_apart idle_start demo_failed_reach, THEN conjunct2, THEN conjunct1]
    by (simp only: list.set empty_iff ball_empty if_True if_False simp_thms)
qed

theorem virtio_serves_request_witness:
  "\<exists>m n wr bn b. vs_req demo_sys b = Some ((0, m, n), wr, bn) \<and> dk_busy (vs_drv demo_sys) b \<and>
     chain_names demo_layout (vs_drv demo_sys) 0 0 b 0"
proof -
  have "0 \<in> set (vs_work demo_sys)" by (simp add: demo_sys_def)
  with virtio_serves_request [OF demo_apart idle_start demo_reach, THEN conjunct1]
  obtain b m n wr bn where r: "vs_req demo_sys b = Some ((0, m, n), wr, bn)" "dk_busy (vs_drv demo_sys) b"
    "\<forall>i b' j. chain_names demo_layout (vs_drv demo_sys) 0 i b' j \<longleftrightarrow> i = 0 \<and> b' = b \<and> j = 0" by metis
  then have "chain_names demo_layout (vs_drv demo_sys) 0 0 b 0" by blast
  with r(1,2) show ?thesis by blast
qed

text \<open>The state the driver starts from: the static variables are zero before.\<close>

lemma init_starts:
  assumes "virtio_disk_init r d m = Ret (ws, d', m')" and "dk_used_idx d = 0" and "\<forall>b. \<not> dk_busy d b"
  shows "vstart \<lparr>vs_drv = d', vs_data = dat, vs_disk = blocks, vs_seen = 0, vs_work = [], vs_req = (\<lambda>_. None)\<rparr>"
  using assms by (auto simp: virtio_disk_init_def vstart_def Let_def split: if_splits prod.splits)

end
