(* ===== verification/Xv6_Numbers.thy ===== *)
theory Xv6_Numbers
  imports Xv6_Printf
begin

text \<open>
  Numbers as text: the digits printint() of kernel/printf.c prints are those atoi() of user/ulib.c
  reads back.
\<close>

definition digit :: "u8 \<Rightarrow> bool" where
  "digit c \<longleftrightarrow> 48 \<le> c \<and> c \<le> 57"

definition push_digit :: "u32 \<Rightarrow> u8 \<Rightarrow> u32" where
  "push_digit n c = n * 10 + ucast c - 48"

lemma atoi_loop_digits:
  "\<lbrakk>\<forall>i<length ds. m (s + i) = ds ! i; \<forall>c \<in> set ds. digit c; \<not> digit (m (s + length ds))\<rbrakk> \<Longrightarrow>
     atoi_loop m s n = Some (foldl push_digit n ds)"
proof (induction ds arbitrary: s n)
  case Nil
  then show ?case by (auto simp: atoi_loop.simps [of m s] digit_def)
next
  case (Cons c ds)
  have c: "m s = c" using Cons.prems(1) by force
  have "\<forall>i<length ds. m (s + 1 + i) = ds ! i" using Cons.prems(1) by force
  from Cons.IH [OF this] Cons.prems(2,3) have "atoi_loop m (s + 1) (push_digit n c) = Some (foldl push_digit (push_digit n c) ds)"
    by simp
  then show ?case using c Cons.prems(2) by (simp add: atoi_loop.simps [of m s] digit_def push_digit_def [of n c])
qed

lemma digits_nth:
  assumes "i < 10"
  shows "digit (digits ! i)" and "(ucast (digits ! i) :: u32) = of_nat (48 + i)"
proof -
  have "list_all (\<lambda>i. digit (digits ! i) \<and> (ucast (digits ! i) :: u32) = of_nat (48 + i)) [0..<10]" by code_simp
  with assms show "digit (digits ! i)" "(ucast (digits ! i) :: u32) = of_nat (48 + i)"
    by (simp_all add: list_all_iff del: upt_rec_numeral)
qed

lemma digit_of:
  fixes x :: u32
  shows "digit (digits ! unat (x mod 10))" and "push_digit n (digits ! unat (x mod 10)) = n * 10 + x mod 10"
proof -
  have i: "unat (x mod 10) < 10" by (simp add: unat_mod)
  show "digit (digits ! unat (x mod 10))" by (rule digits_nth(1) [OF i])
  show "push_digit n (digits ! unat (x mod 10)) = n * 10 + x mod 10"
    by (simp add: push_digit_def digits_nth(2) [OF i])
qed

lemma printint_loop_digits: "\<forall>c \<in> set (printint_loop 10 x). digit c"
proof (induction "10 :: u32" x rule: printint_loop.induct)
  case (1 x)
  then show ?case using digit_of(1) [of x] by (simp add: printint_loop.simps [of 10 x])
qed

lemma printint_loop_value: "foldl push_digit 0 (rev (printint_loop 10 x)) = x"
proof (induction "10 :: u32" x rule: printint_loop.induct)
  case (1 x)
  have e: "x div 10 * 10 + x mod 10 = x" by (rule div_mult_mod_eq)
  show ?case
  proof (cases "x div 10 = 0")
    case True
    with e digit_of(2) [of 0 x] show ?thesis by (simp add: printint_loop.simps [of 10 x])
  next
    case False
    with 1 e digit_of(2) [of "x div 10" x] show ?thesis by (simp add: printint_loop.simps [of 10 x])
  qed
qed

text \<open>
  What printint() prints in decimal, atoi() reads back: a number printed unsigned, or a
  non-negative one printed signed, stored as text in front of a byte that is no digit, is read as the
  same 32-bit number. A negative number starts with a minus sign, which atoi() does not
  know: it reads 0.
\<close>

theorem atoi_printint:
  fixes x :: u32 and sg :: bool
  defines "text_of \<equiv> rev (printint_buf x 10 sg)"
  assumes "\<forall>i<length text_of. m (s + i) = text_of ! i" and "\<not> digit (m (s + length text_of))"
  shows "atoi m s = Some (if sg \<and> sint x < 0 then 0 else x)"
proof (cases "sg \<and> sint x < 0")
  case True
  then have "text_of = 45 # rev (printint_loop 10 (- x))" by (simp add: text_of_def printint_buf_def)
  then have "m s = 45" using assms(2) by force
  then show ?thesis using True by (simp add: atoi_def atoi_loop.simps [of m s])
next
  case False
  then have t: "text_of = rev (printint_loop 10 x)" by (auto simp: text_of_def printint_buf_def)
  then have "\<forall>c \<in> set text_of. digit c" using printint_loop_digits by simp
  from atoi_loop_digits [OF assms(2) this assms(3), of 0] have "atoi m s = Some x"
    by (simp add: atoi_def t printint_loop_value)
  with False show ?thesis by auto
qed

theorem atoi_printint_witness:
  "atoi (bytes_of [50, 51, 52, 10]) 0 = Some 234 \<and> rev (printint_buf 234 10 False) = [50, 51, 52]"
proof -
  have p: "rev (printint_buf 234 10 False) = [50, 51, 52]" by code_simp
  have "atoi (bytes_of [50, 51, 52, 10]) 0 = Some (if False \<and> sint (234 :: u32) < 0 then 0 else 234)"
  proof (rule atoi_printint)
    have "bytes_of [50, 51, 52, 10] (0 + i) = rev (printint_buf 234 10 False) ! i" if "i < 3" for i
    proof -
      from that have "i = 0 \<or> i = 1 \<or> i = 2" by linarith
      then show ?thesis unfolding p bytes_of_def by (elim disjE) simp_all
    qed
    then show "\<forall>i<length (rev (printint_buf 234 10 False)).
        bytes_of [50, 51, 52, 10] (0 + i) = rev (printint_buf 234 10 False) ! i"
      by (simp add: p)
  qed (simp add: p bytes_of_def digit_def)
  then show ?thesis using p by simp
qed
end
