(* ===== verification/Spec2Isabelle.thy ===== *)
theory Spec2Isabelle
  imports Xv6_String Xv6_Log Xv6_AddrSpace Xv6_ProcTable Xv6_Assignment2 Xv6_Grep Xv6_RunCmd Xv6_UPrintf Xv6_Umalloc Xv6_Utils Xv6_Mkfs Xv6_Boot Xv6_Spinlock Xv6_Inodes Xv6_Virtio Xv6_Numbers
begin

text \<open>
  A model of the xv6 operating system of this repository and the theorems that make it correct.

  \<^bold>\<open>The program.\<close> The repository holds two variants of xv6 for RISC-V: src/Assignment1_2, whose
  kernel adds forkn(), waitall(), exit messages and memsize(), and src/Assignment2. The model
  follows src/Assignment1_2; the operations of src/Assignment2 that differ are in
  Xv6_Assignment2. The kernel is a set of C files that share global tables. Physical pages
  (kalloc.c) carry page tables and user memory (vm.c); the process table (proc.c) owns page
  tables, open files and sleeping places; open files (file.c) are pipes (pipe.c), devices
  (console.c over uart.c) or inodes (fs.c); inodes and directories live in disk blocks cached by
  bio.c and changed through the redo log (log.c); exec.c loads programs; sysfile.c and
  sysproc.c are the system calls that syscall.c and trap.c dispatch.

  \<^bold>\<open>How C is modelled.\<close> Machine integers are words of their width, with wrap-around. Memory is a
  function from addresses to bytes (Xv6_Bytes), with the little-endian 16, 32 and 64-bit accesses
  of the code. A C structure is a record; a static table is a list and a pointer into it an index;
  a pointer to RAM is its physical address. A function returns an \<open>outcome\<close> (Xv6_Prelude):
  \<open>Ret\<close> of a value, or \<open>Fail\<close> with the reason it does not return: \<open>Panic\<close> with the message,
  \<open>Blocked\<close> in a place only another process can leave, \<open>Diverged\<close>, or \<open>Undef\<close> where C has
  no behaviour. A kernel function that may sleep returns a \<open>run\<close> (Xv6_Kernel): \<open>Done\<close> with
  its result, or \<open>Asleep\<close> with what it has done so far, in the state the other processes then
  see; sleep_resume() is the rest of sleep() after the wakeup. Spin locks only make critical
  sections atomic, so a critical section is one step of the model and the locks are not part of
  the state; Xv6_Spinlock shows what makes that sound. A panic message, a file name or a name in a table is a HOL string.

  \<^bold>\<open>Theories and sources\<close> (under src/Assignment1_2 if not said otherwise).
  \<^item> Xv6_Prelude: machine types, outcomes and their rules, the first-fit scan \<open>scan\<close> of a table.
    Xv6_Param: the limits of kernel/param.h, fs.h, riscv.h, memlayout.h as abbreviations.
  \<^item> Xv6_Bytes, Xv6_String: byte-addressed storage; kernel/string.c and the string routines of
    user/ulib.c, each with the list function it computes.
  \<^item> Xv6_Spinlock: kernel/spinlock.c, with the harts interleaved at their atomic steps.
  \<^item> Xv6_Sleeplock, Xv6_Links, Xv6_BlockCache, Xv6_Bio: kernel/sleeplock.c and kernel/bio.c. The
    list of buffers is the circular list of the code, node i being buffer i. The locale
    \<open>block_cache\<close> states what the log relies on; Xv6_Bio interprets it on the model of bio.c.
  \<^item> Xv6_Virtio: kernel/virtio_disk.c, with processes, device and interrupts interleaved. The
    device follows the descriptors as the virtio documentation says, flags and lengths included, and
    may report an error for any request. The buffer cache takes a transfer as one step.
  \<^item> Xv6_Log: kernel/log.c on that interface. A crash is a prefix of the sequence of disk
    writes; the theorems say what the next boot finds.
  \<^item> Xv6_Kalloc, Xv6_Vm, Xv6_PageTable, Xv6_AddrSpace: kernel/kalloc.c with the free list inside
    the free pages, kernel/vm.c over page tables in RAM, the locale \<open>page_allocator\<close> between
    them, and the abstract address space (\<open>lookup\<close>, \<open>ubyte\<close>, the invariant \<open>uspace\<close>) that
    copyout() and copyin() work on.
  \<^item> Xv6_Printf: kernel/printf.c and the polled console output. Xv6_Numbers: printing and reading
    numbers. Xv6_UPrintf: user/printf.c, compared with the kernel's.
  \<^item> Xv6_Kernel: the record \<open>kernel\<close> of all global state. Xv6_Sched, Xv6_Process: kernel/proc.c.
    Xv6_ProcTable: the process table as a transition system (\<open>table_step\<close>) with its invariant.
    Xv6_Demo: a small concrete kernel for the examples.
  \<^item> Xv6_Fs, Xv6_Dir: kernel/fs.c, with its properties in Xv6_Inodes. Xv6_File: kernel/file.c. Xv6_Exec: kernel/exec.c.
  \<^item> Xv6_Ring, Xv6_Pipe, Xv6_Console: kernel/pipe.c, kernel/console.c, kernel/uart.c. The locale
    \<open>bounded_queue\<close> is interpreted on the pipe and on the transmit ring of the UART.
  \<^item> Xv6_Sysfile, Xv6_Syscall: kernel/sysfile.c, kernel/sysproc.c, kernel/syscall.c, kernel/trap.c.
    Xv6_Assignment2: src/Assignment2/kernel, proc.c, sysproc.c, syscall.c and trap.c.
  \<^item> Xv6_Grep: user/grep.c. Xv6_Shell, Xv6_RunCmd: user/sh.c, the parser, and the
    execution of commands as trees of system calls. Xv6_Umalloc: user/umalloc.c.
    Xv6_Utils: the small programs of user/; Xv6_Mkfs: mkfs/mkfs.c, the image builder.
  \<^item> Xv6_Boot: kernel/start.c, main.c, plic.c and ramdisk.c.

  \<^bold>\<open>What is proved.\<close>
  \<^item> Log: a crash inside commit() loses all or nothing of the transaction, recovery can be
    interrupted and repeated, a transaction reaches the disk, and an admitted operation finds
    room in the header, except for the last block of the log mkfs makes, where it panics.
  \<^item> Buffer cache: reading and writing of buffers, as a refinement of the contents of blocks; the
    buffer recycled is the one released longest ago.
  \<^item> Spin locks: mutual exclusion and the nesting of interrupt disabling.
  \<^item> Disk driver: in any interleaving no descriptor is shared, each transfer is as asked for
    when the device serves it, and the handler panics exactly when the device reports an error.
  \<^item> File system: independent slots of the inode blocks, one table entry per inode, file sizes
    within MAXFILE blocks, counts within the request, path elements.
  \<^item> Memory: kinit(), kalloc() and kfree() keep the free pages apart; copyout() changes exactly
    the range it is given and copyin() reads it back.
  \<^item> Processes: unique ids under any interleaving of the table operations, exact wakeups, and a
    scheduler pass that reaches every runnable process while the others run on the table.
  \<^item> Pipes and console: first-in first-out order under any turns of the two ends, the results of
    piperead() and pipewrite(), line editing that never changes committed input, output in order.
  \<^item> Numbers and messages: atoi() reads what printint() prints; programs and the kernel print alike.
  \<^item> Small programs: wc counts words across buffers, cat copies, ls finds the name of a path.
  \<^item> Image builder: a file of the image is what was appended to it, or the image is full and
    mkfs dies; the superblock is the one readsb() reads.
  \<^item> Start-up: the mode start() leaves, no hart runs before hart 0 has called every initialiser,
    and each hart is given the two interrupts devintr() knows.
  \<^item> Allocator: for requests below 2^31 - 64 bytes, blocks in use never overlap, malloc() and free()
    return, and what sbrk() grants is either in use or in the ring; and what goes wrong with the
    requests that overflow the int of sbrk().
  \<^item> grep: its matcher decides the language of the pattern, and it prints the matching lines.
  \<^item> Shell: the parser ends on every line, stays in bounds, and its words are the words of the line;
    a command changes exactly the descriptors it names and leaves no pipe end open.

  \<^bold>\<open>Loops.\<close> Loops over tables are structural or have a measure. A walk along the buffer list has
  \<open>walk_fuel\<close> = NBUF + 1 steps, one per buffer and one for the sentinel, and the list invariant
  shows that it never runs out. mappages() is given the number of pages in its range
  (\<open>mappages_fuel\<close>), which is when the equality test of the C loop holds. The recursive descent
  of the shell has four levels per character and four for the end (\<open>parse_fuel\<close>), which
  parsecmd_terminates shows to be enough. The endless loops that
  wait for another process end in \<open>Asleep\<close> or \<open>Blocked\<close>.

  \<^bold>\<open>Not modelled.\<close> The assembly files (register saves), the programs of user/ that
  are single calls, and the test programs usertests.c, grind.c, forktest.c and stressfs.c.
  Machine arithmetic on pointers outside the modelled memory, the TLB
  and the weak memory order of the hart are outside the model.
\<close>

end
